(* ===== verification/Ds_Prelude.thy ===== *)
theory Ds_Prelude
  imports Main "HOL-Library.Word"
begin

text \<open>
  Shared vocabulary of the development: the program monad (a C function is a function of the
  machine state that either stops with an error or returns a value and the next state), its
  reasoning rules, and the generic facts on words and lists that several components use.

  \<^item> \<open>exec\<close> collects equations that run a program one step on a known state;
  \<^item> \<open>runs\<close> is total correctness (the program returns, and the postcondition holds);
  \<^item> \<open>sure\<close> is partial correctness (whenever the program returns, the postcondition holds).
\<close>

named_theorems exec \<open>equations that execute one step of a program\<close>
named_theorems runs_rules \<open>weakest precondition equations for runs\<close>
named_theorems sure_rules \<open>weakest precondition equations for sure\<close>

type_synonym byte = "8 word"
type_synonym uint = "32 word"
type_synonym size_t = "64 word"

section \<open>The program monad\<close>

type_synonym ('s, 'e, 'a) machine = "'s \<Rightarrow> 'e + 'a \<times> 's"

definition ret :: "'a \<Rightarrow> ('s, 'e, 'a) machine" where
  "ret x = (\<lambda>s. Inr (x, s))"

definition raise :: "'e \<Rightarrow> ('s, 'e, 'a) machine" where
  "raise e = (\<lambda>s. Inl e)"

definition cbind ::
  "('s, 'e, 'a) machine \<Rightarrow> ('a \<Rightarrow> ('s, 'e, 'b) machine) \<Rightarrow> ('s, 'e, 'b) machine" where
  "cbind m f = (\<lambda>s. case m s of Inl e \<Rightarrow> Inl e | Inr (x, t) \<Rightarrow> f x t)"

lemma ret_apply [simp, exec]: "ret x s = Inr (x, s)"
  by (simp add: ret_def)

lemma raise_apply [simp, exec]: "raise e s = Inl e"
  by (simp add: raise_def)

lemma cbind_apply [exec]: "cbind m f s = (case m s of Inl e \<Rightarrow> Inl e | Inr (x, t) \<Rightarrow> f x t)"
  by (simp add: cbind_def)

lemma cbind_Inr: "m s = Inr (x, t) \<Longrightarrow> cbind m f s = f x t"
  by (simp add: cbind_def)

lemma cbind_Inl: "m s = Inl e \<Longrightarrow> cbind m f s = Inl e"
  by (simp add: cbind_def)

lemma cbind_ret [simp]: "cbind (ret x) f = f x"
  by (simp add: cbind_def fun_eq_iff)

lemma cbind_raise [simp]: "cbind (raise e) f = raise e"
  by (simp add: cbind_def fun_eq_iff)

lemma cbind_assoc: "cbind (cbind m f) g = cbind m (\<lambda>x. cbind (f x) g)"
  by (auto simp: cbind_def fun_eq_iff split: sum.splits)

lemma cbind_if: "cbind (if b then m else n) f = (if b then cbind m f else cbind n f)"
  by simp

lemma cbind_Inr_iff:
  "cbind m f s = Inr r \<longleftrightarrow> (\<exists>x t. m s = Inr (x, t) \<and> f x t = Inr r)"
  by (auto simp: cbind_def split: sum.splits)

section \<open>Total and partial correctness\<close>

definition runs :: "('s, 'e, 'a) machine \<Rightarrow> 's \<Rightarrow> ('a \<Rightarrow> 's \<Rightarrow> bool) \<Rightarrow> bool" where
  "runs m s Q \<longleftrightarrow> (case m s of Inl _ \<Rightarrow> False | Inr (x, t) \<Rightarrow> Q x t)"

definition sure :: "('s, 'e, 'a) machine \<Rightarrow> 's \<Rightarrow> ('a \<Rightarrow> 's \<Rightarrow> bool) \<Rightarrow> bool" where
  "sure m s Q \<longleftrightarrow> (case m s of Inl _ \<Rightarrow> True | Inr (x, t) \<Rightarrow> Q x t)"

text \<open>\<open>settles E m s Q\<close>: the run ends with a result as in \<open>Q\<close> or with an error in \<open>E\<close>, no other.\<close>

definition settles :: "('e \<Rightarrow> bool) \<Rightarrow> ('s, 'e, 'a) machine \<Rightarrow> 's \<Rightarrow> ('a \<Rightarrow> 's \<Rightarrow> bool) \<Rightarrow> bool" where
  "settles E m s Q \<longleftrightarrow> (case m s of Inl e \<Rightarrow> E e | Inr (x, t) \<Rightarrow> Q x t)"

lemma runs_ret [runs_rules]: "runs (ret x) s Q = Q x s"
  by (simp add: runs_def)

lemma runs_raise [runs_rules]: "runs (raise e) s Q = False"
  by (simp add: runs_def)

lemma runs_cbind [runs_rules]: "runs (cbind m f) s Q = runs m s (\<lambda>x t. runs (f x) t Q)"
  by (auto simp: runs_def cbind_def split: sum.splits)

lemma settles_ret: "settles E (ret x) s Q = Q x s"
  by (simp add: settles_def)

lemma settles_raise: "settles E (raise e) s Q = E e"
  by (simp add: settles_def)

lemma settles_cbind: "settles E (cbind m f) s Q = settles E m s (\<lambda>x t. settles E (f x) t Q)"
  by (auto simp: settles_def cbind_def split: sum.splits)

lemma runs_settles: "runs m s Q \<Longrightarrow> settles E m s Q"
  by (auto simp: runs_def settles_def split: sum.splits)

lemma settles_conseq: "settles E m s Q \<Longrightarrow> (\<And>x t. Q x t \<Longrightarrow> R x t) \<Longrightarrow> settles E m s R"
  by (auto simp: settles_def split: sum.splits)

lemma runs_if [runs_rules]:
  "runs (if b then m else n) s Q = (if b then runs m s Q else runs n s Q)"
  by simp

lemma runs_conseq: "runs m s P \<Longrightarrow> (\<And>x t. P x t \<Longrightarrow> Q x t) \<Longrightarrow> runs m s Q"
  by (auto simp: runs_def split: sum.splits)

lemma runs_conj: "runs m s P \<Longrightarrow> sure m s Q \<Longrightarrow> runs m s (\<lambda>x t. P x t \<and> Q x t)"
  by (auto simp: runs_def sure_def split: sum.splits)

lemma runsE:
  assumes "runs m s Q"
  obtains x t where "m s = Inr (x, t)" and "Q x t"
  using assms by (auto simp: runs_def split: sum.splits)

lemma runs_TrueE:
  assumes "runs m s (\<lambda>r t. r \<and> Q t)"
  obtains t where "m s = Inr (True, t)" and "Q t"
  using assms by (auto simp: runs_def split: sum.splits)

lemma runsI: "m s = Inr (x, t) \<Longrightarrow> Q x t \<Longrightarrow> runs m s Q"
  by (simp add: runs_def)

lemma sure_ret [sure_rules]: "sure (ret x) s Q = Q x s"
  by (simp add: sure_def)

lemma sure_raise [sure_rules]: "sure (raise e) s Q"
  by (simp add: sure_def)

lemma sure_cbind [sure_rules]: "sure (cbind m f) s Q = sure m s (\<lambda>x t. sure (f x) t Q)"
  by (auto simp: sure_def cbind_def split: sum.splits)

lemma sure_if [sure_rules]:
  "sure (if b then m else n) s Q = (if b then sure m s Q else sure n s Q)"
  by simp

lemma sure_conseq: "sure m s P \<Longrightarrow> (\<And>x t. P x t \<Longrightarrow> Q x t) \<Longrightarrow> sure m s Q"
  by (auto simp: sure_def split: sum.splits)

lemma sureI: "(\<And>x t. m s = Inr (x, t) \<Longrightarrow> Q x t) \<Longrightarrow> sure m s Q"
  by (auto simp: sure_def split: sum.splits)

lemma sureD: "sure m s Q \<Longrightarrow> m s = Inr (x, t) \<Longrightarrow> Q x t"
  by (simp add: sure_def)

lemma sure_True: "sure m s (\<lambda>x t. True)"
  by (auto simp: sure_def split: sum.splits)

section \<open>Relations between the start and the end of a run\<close>

text \<open>
  \<open>evolves R m\<close>: whenever \<open>m\<close> returns, its start and end states are related by \<open>R\<close>. For a
  reflexive and transitive \<open>R\<close> this is closed under all the ways programs are put together, so
  a whole-library property follows from the primitives.
\<close>

named_theorems evolves_rules \<open>structural rules for evolves\<close>

definition evolves :: "('s \<Rightarrow> 's \<Rightarrow> bool) \<Rightarrow> ('s, 'e, 'a) machine \<Rightarrow> bool" where
  "evolves R m \<longleftrightarrow> (\<forall>s x t. m s = Inr (x, t) \<longrightarrow> R s t)"

lemma evolvesI: "(\<And>s x t. m s = Inr (x, t) \<Longrightarrow> R s t) \<Longrightarrow> evolves R m"
  by (simp add: evolves_def)

lemma evolvesD: "evolves R m \<Longrightarrow> m s = Inr (x, t) \<Longrightarrow> R s t"
  by (simp add: evolves_def)

lemma evolves_ret [evolves_rules]: "reflp R \<Longrightarrow> evolves R (ret x)"
  by (simp add: evolves_def reflpD)

lemma evolves_raise [evolves_rules]: "evolves R (raise e)"
  by (simp add: evolves_def)

lemma evolves_cbind [evolves_rules]:
  assumes "transp R" and "evolves R m" and "\<And>x. evolves R (f x)"
  shows "evolves R (cbind m f)"
  using assms by (fastforce simp: evolves_def cbind_Inr_iff dest: transpD)

lemma evolves_if [evolves_rules]:
  "(b \<Longrightarrow> evolves R m) \<Longrightarrow> (\<not> b \<Longrightarrow> evolves R n) \<Longrightarrow> evolves R (if b then m else n)"
  by simp

lemma evolves_option [evolves_rules]:
  "evolves R m \<Longrightarrow> (\<And>x. evolves R (f x)) \<Longrightarrow>
   evolves R (case v of None \<Rightarrow> m | Some x \<Rightarrow> f x)"
  by (cases v) auto

lemma evolves_Let [evolves_rules]: "evolves R (f v) \<Longrightarrow> evolves R (Let v f)"
  by (simp add: Let_def)

lemma evolves_mono: "evolves R m \<Longrightarrow> (\<And>s t. R s t \<Longrightarrow> S s t) \<Longrightarrow> evolves S m"
  by (auto simp: evolves_def)

section \<open>Counting loops on machine words\<close>

lemma unat_plus_one:
  fixes i n :: "'a::len word"
  assumes "i < n"
  shows "unat (i + 1) = Suc (unat i)"
proof -
  have "i + 1 \<noteq> 0"
  proof
    assume "i + 1 = 0"
    then have "i = - 1" by (simp add: eq_neg_iff_add_eq_0)
    with assms show False
      by (simp add: not_less [symmetric])
  qed
  then show ?thesis
    using unatSuc [of i] by (simp add: add.commute)
qed

lemma counting_up [simp]:
  fixes i n :: "'a::len word"
  assumes "i < n"
  shows "unat n - unat (i + 1) < unat n - unat i"
  using assms by (simp add: unat_plus_one word_less_nat_alt)

lemma unat_next: "unat (i :: uint) < k \<Longrightarrow> k < 2 ^ 32 \<Longrightarrow> unat (i + 1) = Suc (unat i)"
  by (simp add: unat_word_ariths)

end
