(* ===== verification/Ds_Store.thy ===== *)
theory Ds_Store
  imports Ds_Prelude
begin

text \<open>
  The C data types of the library's headers and the machine they live in: pointers, blocks of
  allocated memory with their contents, the state, typed loads and stores, and the parts of the
  C library the sources call (malloc, realloc, free, memset, memcpy, strlen, isspace, signal).

  A pointer is the base address of a block and a byte offset into it. Every access that the C
  standard leaves undefined (a null pointer, a block that is not live, an index out of range, an
  uninitialised read, a bad free, overlapping memcpy regions) stops with an error value, so a
  theorem that a function returns is also a theorem that it is free of those faults. Structures
  are stored as typed contents of a block; a block that memset cleared reads as zero values of
  any type. A structure whose first field is stored into fresh memory reads as zero in the
  fields not stored yet: the constructors of the library store every field before any is read.
\<close>

section \<open>Pointers, handles and the structures of the headers\<close>

datatype ptr = Ptr (pbase: "64 word") (poff: nat)

instantiation ptr :: zero
begin

definition zero_ptr :: ptr where
  "zero_ptr = Ptr 0 0"

instance ..

end

abbreviation NULL :: ptr where
  "NULL \<equiv> 0"

definition ptr_add :: "ptr \<Rightarrow> nat \<Rightarrow> ptr" where
  "ptr_add p n = Ptr (pbase p) (poff p + n)"

definition uintptr :: "ptr \<Rightarrow> 64 word" where
  "uintptr p = pbase p + of_nat (poff p)"

datatype mem_allocator_type =
  MEM_ALLOCATOR_TYPE_INVALID
| MEM_ALLOCATOR_TYPE_NOT_ALLOCATED
| MEM_ALLOCATOR_TYPE_PLAIN
| MEM_ALLOCATOR_TYPE_MEMTBL

text \<open>
  The function pointers of a mem_allocator_spec, by the name of the function they hold: the
  library initialises them with the four static functions of mem.c and those of memtbl.c only.
\<close>

datatype allocator_fn = Plain_fn | Memtbl_fn
datatype p_fn = Mem_handle_data | Memtbl_p

record mem_allocator_spec =
  allocator_type :: mem_allocator_type
  alloc_func :: "allocator_fn option"
  realloc_func :: "allocator_fn option"
  free_func :: "allocator_fn option"
  p_func :: "p_fn option"

record mem_allocator =
  allocator_spec :: "mem_allocator_spec option"
  allocator_data :: ptr

record mem_handle =
  h_data :: ptr
  h_size :: size_t
  h_alloc :: mem_allocator

definition null_allocator :: mem_allocator where
  "null_allocator = \<lparr>allocator_spec = None, allocator_data = NULL\<rparr>"

definition null_handle :: mem_handle where
  "null_handle = \<lparr>h_data = NULL, h_size = 0, h_alloc = null_allocator\<rparr>"

record map_entry =
  key_hash :: uint
  value_handle :: mem_handle

record cmap =
  entries_mh :: mem_handle
  entry_count :: uint
  table_size :: uint

record memtbl =
  mem_map_handle :: mem_handle

record strbuf =
  sb_data :: mem_handle
  sb_length :: size_t

definition zero_entry :: map_entry where
  "zero_entry = \<lparr>key_hash = 0, value_handle = null_handle\<rparr>"

definition zero_map :: cmap where
  "zero_map = \<lparr>entries_mh = null_handle, entry_count = 0, table_size = 0\<rparr>"

definition zero_memtbl :: memtbl where
  "zero_memtbl = \<lparr>mem_map_handle = null_handle\<rparr>"

definition zero_strbuf :: strbuf where
  "zero_strbuf = \<lparr>sb_data = null_handle, sb_length = 0\<rparr>"

text \<open>Sizes on a 64-bit target: pointers and size_t of 8 bytes, natural alignment.\<close>

definition sizeof_map_entry :: size_t where "sizeof_map_entry = 40"
definition sizeof_map :: size_t where "sizeof_map = 40"
definition sizeof_memtbl :: size_t where "sizeof_memtbl = 32"
definition sizeof_strbuf :: size_t where "sizeof_strbuf = 40"

section \<open>Machine state\<close>

datatype c_error =
  Null_deref
| Dangling
| Out_of_bounds
| Uninitialised
| Type_confusion
| Bad_free
| Overlap
| Div_by_zero
| Float_range
| Ctype_range
| Int_overflow
| Assert_fail
| Out_of_fuel
| Exit_failure string

datatype content =
  Fresh
| Zeroed
| Bytes "byte option list"
| Uints "uint option list"
| Table "map_entry list"
| Map_obj cmap
| Memtbl_obj memtbl
| Strbuf_obj strbuf

record block =
  b_size :: size_t
  b_heap :: bool
  b_content :: content

datatype sig_handler = SIG_DFL | SIG_IGN | Handler nat

datatype mem_event = Ev_malloc ptr | Ev_realloc ptr ptr | Ev_free ptr

text \<open>
  \<open>answers\<close> is what the system allocator will answer, call by call: 0 for a failure, otherwise
  the base address it proposes. An address that is in use is treated as a failure, so every
  stream of answers is a behaviour a C library may show, and a theorem for all states is a
  theorem for all of them. \<open>realloc0_frees\<close> is the implementation-defined choice of
  realloc with size 0. \<open>trace\<close> records each allocator call with the SIGINT handler in force.
\<close>

record cstate =
  heap :: "64 word \<rightharpoonup> block"
  sigint :: sig_handler
  answers :: "nat \<Rightarrow> 64 word"
  calls :: nat
  realloc0_frees :: bool
  trace :: "(mem_event \<times> sig_handler) list"
  str_cstr_buffer :: ptr

type_synonym 'a prog = "(cstate, c_error, 'a) machine"

section \<open>Typed loads and stores\<close>

definition block_at :: "ptr \<Rightarrow> cstate \<Rightarrow> c_error + block" where
  "block_at p s =
     (if pbase p = 0 then Inl Null_deref
      else case heap s (pbase p) of None \<Rightarrow> Inl Dangling | Some b \<Rightarrow> Inr b)"

definition set_content :: "ptr \<Rightarrow> content \<Rightarrow> cstate \<Rightarrow> cstate" where
  "set_content p c s =
     (case heap s (pbase p) of
        None \<Rightarrow> s
      | Some b \<Rightarrow> s\<lparr>heap := (heap s)(pbase p \<mapsto> b\<lparr>b_content := c\<rparr>)\<rparr>)"

definition load :: "ptr \<Rightarrow> (block \<Rightarrow> c_error + 'a) \<Rightarrow> 'a prog" where
  "load p f = (\<lambda>s. case block_at p s of Inl e \<Rightarrow> Inl e | Inr b \<Rightarrow>
     (case f b of Inl e \<Rightarrow> Inl e | Inr x \<Rightarrow> Inr (x, s)))"

definition store :: "ptr \<Rightarrow> (block \<Rightarrow> c_error + content) \<Rightarrow> unit prog" where
  "store p f = (\<lambda>s. case block_at p s of Inl e \<Rightarrow> Inl e | Inr b \<Rightarrow>
     (case f b of Inl e \<Rightarrow> Inl e | Inr c \<Rightarrow> Inr ((), set_content p c s)))"

text \<open>The bytes of a block, when it holds bytes (None: a byte that was never stored).\<close>

fun bytes_of :: "size_t \<Rightarrow> content \<Rightarrow> byte option list option" where
  "bytes_of n Fresh = Some (replicate (unat n) None)"
| "bytes_of n Zeroed = Some (replicate (unat n) (Some 0))"
| "bytes_of n (Bytes bs) = Some bs"
| "bytes_of n c = None"

definition block_bytes :: "block \<Rightarrow> c_error + byte option list" where
  "block_bytes b = (case bytes_of (b_size b) (b_content b) of
     None \<Rightarrow> Inl Type_confusion | Some bs \<Rightarrow> Inr bs)"

text \<open>
  A structure at the start of a block: \<open>pick\<close> reads the content, \<open>z\<close> is the value whose
  bytes are all zero. \<open>writing\<close> allows fresh memory, which a read does not.
\<close>

definition struct_of ::
  "bool \<Rightarrow> size_t \<Rightarrow> (content \<Rightarrow> 'o option) \<Rightarrow> 'o \<Rightarrow> ptr \<Rightarrow> block \<Rightarrow> c_error + 'o" where
  "struct_of writing n pick z p b =
     (if poff p \<noteq> 0 then Inl Type_confusion
      else if b_size b < n then Inl Out_of_bounds
      else case pick (b_content b) of
        Some x \<Rightarrow> Inr x
      | None \<Rightarrow>
          (case b_content b of
             Zeroed \<Rightarrow> Inr z
           | Fresh \<Rightarrow> if writing then Inr z else Inl Uninitialised
           | _ \<Rightarrow> Inl Type_confusion))"

definition load_struct ::
  "size_t \<Rightarrow> (content \<Rightarrow> 'o option) \<Rightarrow> 'o \<Rightarrow> ptr \<Rightarrow> 'o prog" where
  "load_struct n pick z p = load p (struct_of False n pick z p)"

definition update_struct ::
  "size_t \<Rightarrow> (content \<Rightarrow> 'o option) \<Rightarrow> 'o \<Rightarrow> ('o \<Rightarrow> content) \<Rightarrow> ptr \<Rightarrow> ('o \<Rightarrow> 'o) \<Rightarrow> unit prog" where
  "update_struct n pick z mk p g =
     store p (\<lambda>b. case struct_of True n pick z p b of
       Inl e \<Rightarrow> Inl e | Inr x \<Rightarrow> Inr (mk (g x)))"

fun the_map :: "content \<Rightarrow> cmap option" where
  "the_map (Map_obj m) = Some m"
| "the_map _ = None"

fun the_memtbl :: "content \<Rightarrow> memtbl option" where
  "the_memtbl (Memtbl_obj m) = Some m"
| "the_memtbl _ = None"

fun the_strbuf :: "content \<Rightarrow> strbuf option" where
  "the_strbuf (Strbuf_obj m) = Some m"
| "the_strbuf _ = None"

definition load_map :: "ptr \<Rightarrow> cmap prog" where
  "load_map = load_struct sizeof_map the_map zero_map"

definition update_map :: "ptr \<Rightarrow> (cmap \<Rightarrow> cmap) \<Rightarrow> unit prog" where
  "update_map = update_struct sizeof_map the_map zero_map Map_obj"

definition load_memtbl :: "ptr \<Rightarrow> memtbl prog" where
  "load_memtbl = load_struct sizeof_memtbl the_memtbl zero_memtbl"

definition update_memtbl :: "ptr \<Rightarrow> (memtbl \<Rightarrow> memtbl) \<Rightarrow> unit prog" where
  "update_memtbl = update_struct sizeof_memtbl the_memtbl zero_memtbl Memtbl_obj"

definition load_strbuf :: "ptr \<Rightarrow> strbuf prog" where
  "load_strbuf = load_struct sizeof_strbuf the_strbuf zero_strbuf"

definition update_strbuf :: "ptr \<Rightarrow> (strbuf \<Rightarrow> strbuf) \<Rightarrow> unit prog" where
  "update_strbuf = update_struct sizeof_strbuf the_strbuf zero_strbuf Strbuf_obj"

text \<open>An array of map entries that starts at the beginning of a block.\<close>

definition entries_of :: "ptr \<Rightarrow> block \<Rightarrow> c_error + map_entry list" where
  "entries_of p b =
     (if poff p \<noteq> 0 then Inl Type_confusion
      else case b_content b of
        Table es \<Rightarrow> Inr es
      | Zeroed \<Rightarrow> Inr (replicate (unat (b_size b) div unat sizeof_map_entry) zero_entry)
      | Fresh \<Rightarrow> Inl Uninitialised
      | _ \<Rightarrow> Inl Type_confusion)"

definition load_entry :: "ptr \<Rightarrow> nat \<Rightarrow> map_entry prog" where
  "load_entry p i = load p (\<lambda>b. case entries_of p b of
     Inl e \<Rightarrow> Inl e
   | Inr es \<Rightarrow> if i < length es then Inr (es ! i) else Inl Out_of_bounds)"

definition update_entry :: "ptr \<Rightarrow> nat \<Rightarrow> (map_entry \<Rightarrow> map_entry) \<Rightarrow> unit prog" where
  "update_entry p i g = store p (\<lambda>b. case entries_of p b of
     Inl e \<Rightarrow> Inl e
   | Inr es \<Rightarrow> if i < length es then Inr (Table (es[i := g (es ! i)])) else Inl Out_of_bounds)"

text \<open>Characters.\<close>

definition load_byte :: "ptr \<Rightarrow> byte prog" where
  "load_byte p = load p (\<lambda>b. case block_bytes b of
     Inl e \<Rightarrow> Inl e
   | Inr bs \<Rightarrow>
       if poff p < length bs
       then (case bs ! poff p of None \<Rightarrow> Inl Uninitialised | Some c \<Rightarrow> Inr c)
       else Inl Out_of_bounds)"

definition splice :: "'a list \<Rightarrow> nat \<Rightarrow> 'a list \<Rightarrow> 'a list" where
  "splice xs i ys = take i xs @ ys @ drop (i + length ys) xs"

definition store_bytes :: "ptr \<Rightarrow> byte option list \<Rightarrow> unit prog" where
  "store_bytes p cs = store p (\<lambda>b. case block_bytes b of
     Inl e \<Rightarrow> Inl e
   | Inr bs \<Rightarrow>
       if poff p + length cs \<le> length bs then Inr (Bytes (splice bs (poff p) cs))
       else Inl Out_of_bounds)"

definition load_bytes :: "ptr \<Rightarrow> nat \<Rightarrow> byte option list prog" where
  "load_bytes p n = load p (\<lambda>b. case block_bytes b of
     Inl e \<Rightarrow> Inl e
   | Inr bs \<Rightarrow>
       if poff p + n \<le> length bs then Inr (take n (drop (poff p) bs)) else Inl Out_of_bounds)"

section \<open>The C library\<close>

definition log_event :: "mem_event \<Rightarrow> cstate \<Rightarrow> cstate" where
  "log_event ev s = s\<lparr>trace := trace s @ [(ev, sigint s)]\<rparr>"

definition put_block :: "64 word \<Rightarrow> block \<Rightarrow> cstate \<Rightarrow> cstate" where
  "put_block a b s = s\<lparr>heap := (heap s)(a \<mapsto> b)\<rparr>"

definition drop_block :: "64 word \<Rightarrow> cstate \<Rightarrow> cstate" where
  "drop_block a s = s\<lparr>heap := (heap s)(a := None)\<rparr>"

definition fresh_answer :: "cstate \<Rightarrow> 64 word" where
  "fresh_answer s =
     (let a = answers s (calls s) in if heap s a = None then a else 0)"

definition malloc :: "size_t \<Rightarrow> ptr prog" where
  "malloc n = (\<lambda>s.
     let a = fresh_answer s; s1 = s\<lparr>calls := Suc (calls s)\<rparr>
     in if a = 0 then Inr (NULL, log_event (Ev_malloc NULL) s1)
        else Inr (Ptr a 0, log_event (Ev_malloc (Ptr a 0))
          (put_block a \<lparr>b_size = n, b_heap = True, b_content = Fresh\<rparr> s1)))"

definition free :: "ptr \<Rightarrow> unit prog" where
  "free p = (\<lambda>s.
     if p = NULL then Inr ((), log_event (Ev_free NULL) s)
     else case heap s (pbase p) of
       None \<Rightarrow> Inl Bad_free
     | Some b \<Rightarrow>
         if poff p = 0 \<and> b_heap b then Inr ((), log_event (Ev_free p) (drop_block (pbase p) s))
         else Inl Bad_free)"

text \<open>The content of a block that changes its size: kept up to the smaller size.\<close>

definition resize_list :: "nat \<Rightarrow> 'a option list \<Rightarrow> 'a option list" where
  "resize_list n xs = take n xs @ replicate (n - length xs) None"

fun resize_content :: "size_t \<Rightarrow> size_t \<Rightarrow> content \<Rightarrow> c_error + content" where
  "resize_content old new Fresh = Inr Fresh"
| "resize_content old new Zeroed =
     Inr (if new \<le> old then Zeroed
          else Bytes (resize_list (unat new) (replicate (unat old) (Some 0))))"
| "resize_content old new (Bytes bs) = Inr (Bytes (resize_list (unat new) bs))"
| "resize_content old new (Uints ws) = Inr (Uints (resize_list (unat new div 4) ws))"
| "resize_content old new c = (if old \<le> new then Inr c else Inl Type_confusion)"

definition realloc :: "ptr \<Rightarrow> size_t \<Rightarrow> ptr prog" where
  "realloc p n = (\<lambda>s.
     if p = NULL then malloc n s
     else case heap s (pbase p) of
       None \<Rightarrow> Inl Bad_free
     | Some b \<Rightarrow>
         if poff p \<noteq> 0 \<or> \<not> b_heap b then Inl Bad_free
         else if n = 0 \<and> realloc0_frees s
         then Inr (NULL, log_event (Ev_realloc p NULL) (drop_block (pbase p) s))
         else
           let a = answers s (calls s); s1 = s\<lparr>calls := Suc (calls s)\<rparr>
           in if a = 0 \<or> (a \<noteq> pbase p \<and> heap s a \<noteq> None)
              then Inr (NULL, log_event (Ev_realloc p NULL) s1)
              else case resize_content (b_size b) n (b_content b) of
                Inl e \<Rightarrow> Inl e
              | Inr c \<Rightarrow> Inr (Ptr a 0, log_event (Ev_realloc p (Ptr a 0))
                  (put_block a \<lparr>b_size = n, b_heap = True, b_content = c\<rparr>
                    (drop_block (pbase p) s1))))"

definition memset_zero :: "ptr \<Rightarrow> size_t \<Rightarrow> unit prog" where
  "memset_zero p n = store p (\<lambda>b.
     if poff p = 0 \<and> n = b_size b then Inr Zeroed
     else case block_bytes b of
       Inl e \<Rightarrow> Inl e
     | Inr bs \<Rightarrow>
         if poff p + unat n \<le> length bs
         then Inr (Bytes (splice bs (poff p) (replicate (unat n) (Some 0))))
         else Inl Out_of_bounds)"

text \<open>
  memcpy of bytes, and of a whole object of another type into a block of the same size (the
  only way the sources copy an object that does not hold characters).
\<close>

definition regions_overlap :: "ptr \<Rightarrow> ptr \<Rightarrow> nat \<Rightarrow> bool" where
  "regions_overlap d p n \<longleftrightarrow>
     pbase d = pbase p \<and> poff d < poff p + n \<and> poff p < poff d + n"

definition memcpy :: "ptr \<Rightarrow> ptr \<Rightarrow> size_t \<Rightarrow> unit prog" where
  "memcpy d p n = (\<lambda>s.
     case block_at d s of Inl e \<Rightarrow> Inl e | Inr db \<Rightarrow>
     case block_at p s of Inl e \<Rightarrow> Inl e | Inr pb \<Rightarrow>
       if regions_overlap d p (unat n) then Inl Overlap
       else if bytes_of (b_size pb) (b_content pb) = None \<and> poff p = 0 \<and> poff d = 0
            \<and> n = b_size pb \<and> n = b_size db
       then Inr ((), set_content d (b_content pb) s)
       else cbind (load_bytes p (unat n)) (store_bytes d) s)"

fun scan_nul :: "byte option list \<Rightarrow> c_error + nat" where
  "scan_nul [] = Inl Out_of_bounds"
| "scan_nul (None # cs) = Inl Uninitialised"
| "scan_nul (Some c # cs) =
     (if c = 0 then Inr 0 else case scan_nul cs of Inl e \<Rightarrow> Inl e | Inr n \<Rightarrow> Inr (Suc n))"

definition strlen :: "ptr \<Rightarrow> size_t prog" where
  "strlen p = load p (\<lambda>b. case block_bytes b of
     Inl e \<Rightarrow> Inl e
   | Inr bs \<Rightarrow> (case scan_nul (drop (poff p) bs) of Inl e \<Rightarrow> Inl e | Inr n \<Rightarrow> Inr (of_nat n)))"

text \<open>
  isspace in the C locale. Its argument is a char, converted to int; char is signed, and a
  negative argument other than EOF is outside the domain of the function.
\<close>

definition is_space :: "byte \<Rightarrow> bool" where
  "is_space c \<longleftrightarrow> c = 32 \<or> (9 \<le> c \<and> c \<le> 13)"

definition isspace :: "byte \<Rightarrow> bool prog" where
  "isspace c = (if c < 128 then ret (is_space c) else raise Ctype_range)"

definition signal_int :: "sig_handler \<Rightarrow> sig_handler prog" where
  "signal_int h = (\<lambda>s. Inr (sigint s, s\<lparr>sigint := h\<rparr>))"

section \<open>Loads and stores on a known heap\<close>

lemma load_Inr_iff:
  "load p f s = Inr (x, t) \<longleftrightarrow> t = s \<and> (\<exists>b. block_at p s = Inr b \<and> f b = Inr x)"
  by (auto simp: load_def split: sum.splits)

lemma block_at_Inr_iff:
  "block_at p s = Inr b \<longleftrightarrow> pbase p \<noteq> 0 \<and> heap s (pbase p) = Some b"
  by (auto simp: block_at_def split: option.splits)

text \<open>A load sees only its own block: the frame rule of every proof about two objects.\<close>

lemma load_frame:
  "load p f s = Inr (x, s) \<Longrightarrow> heap t (pbase p) = heap s (pbase p) \<Longrightarrow> load p f t = Inr (x, t)"
  by (auto simp: load_Inr_iff block_at_Inr_iff)

lemma store_exec:
  "block_at p s = Inr b \<Longrightarrow> f b = Inr c \<Longrightarrow> store p f s = Inr ((), set_content p c s)"
  by (simp add: store_def)

lemma heap_set_content:
  "heap (set_content p c s) a =
     (if a = pbase p then map_option (b_content_update (\<lambda>_. c)) (heap s a) else heap s a)"
  by (auto simp: set_content_def split: option.splits)

lemma set_content_fields [simp]:
  "sigint (set_content p c s) = sigint s"
  "answers (set_content p c s) = answers s"
  "calls (set_content p c s) = calls s"
  "realloc0_frees (set_content p c s) = realloc0_frees s"
  "trace (set_content p c s) = trace s"
  "str_cstr_buffer (set_content p c s) = str_cstr_buffer s"
  by (simp_all add: set_content_def split: option.splits)

lemma set_content_twice [simp]:
  "set_content p c2 (set_content p c1 s) = set_content p c2 s"
  by (auto simp: set_content_def split: option.splits)

lemma block_at_set_content:
  "block_at p s = Inr b \<Longrightarrow> block_at p (set_content p c s) = Inr (b\<lparr>b_content := c\<rparr>)"
  by (simp add: block_at_Inr_iff heap_set_content)

lemma struct_of_writing: "struct_of False n pick z p b = Inr x \<Longrightarrow> struct_of True n pick z p b = Inr x"
  by (auto simp: struct_of_def split: if_splits option.splits content.splits)

lemma update_struct_exec:
  "load_struct n pick z p s = Inr (x, s) \<Longrightarrow>
   update_struct n pick z mk p g s = Inr ((), set_content p (mk (g x)) s)"
  by (auto simp: load_struct_def update_struct_def load_Inr_iff struct_of_writing
      intro: store_exec)

lemma load_struct_set:
  "load_struct n pick z p s = Inr (x, s) \<Longrightarrow> pick (mk y) = Some y \<Longrightarrow>
   load_struct n pick z p (set_content p (mk y) s) = Inr (y, set_content p (mk y) s)"
  unfolding load_struct_def load_Inr_iff
  by (auto simp: struct_of_def block_at_set_content
      intro!: exI [of _ "b\<lparr>b_content := mk y\<rparr>" for b] split: if_splits)

text \<open>The first store into fresh memory makes the structure.\<close>

lemma update_struct_fresh:
  assumes "block_at p s = Inr b" and "poff p = 0" and "n \<le> b_size b"
    and "b_content b = Fresh" and "pick Fresh = None" and "pick (mk (g z)) = Some (g z)"
  shows "update_struct n pick z mk p g s = Inr ((), set_content p (mk (g z)) s)"
    and "load_struct n pick z p (set_content p (mk (g z)) s)
           = Inr (g z, set_content p (mk (g z)) s)"
  using assms
  by (auto simp: update_struct_def load_struct_def load_Inr_iff struct_of_def not_less
      block_at_set_content intro!: store_exec)

lemmas update_map_exec [exec] = update_struct_exec
  [of sizeof_map the_map zero_map _ _ _ Map_obj, folded load_map_def update_map_def]
lemmas update_memtbl_exec [exec] = update_struct_exec
  [of sizeof_memtbl the_memtbl zero_memtbl _ _ _ Memtbl_obj, folded load_memtbl_def update_memtbl_def]
lemmas update_strbuf_exec [exec] = update_struct_exec
  [of sizeof_strbuf the_strbuf zero_strbuf _ _ _ Strbuf_obj, folded load_strbuf_def update_strbuf_def]

lemma load_map_set:
  "load_map p s = Inr (x, s) \<Longrightarrow>
   load_map p (set_content p (Map_obj y) s) = Inr (y, set_content p (Map_obj y) s)"
  unfolding load_map_def by (rule load_struct_set) auto

lemma load_memtbl_set:
  "load_memtbl p s = Inr (x, s) \<Longrightarrow>
   load_memtbl p (set_content p (Memtbl_obj y) s) = Inr (y, set_content p (Memtbl_obj y) s)"
  unfolding load_memtbl_def by (rule load_struct_set) auto

lemma load_strbuf_set:
  "load_strbuf p s = Inr (x, s) \<Longrightarrow>
   load_strbuf p (set_content p (Strbuf_obj y) s) = Inr (y, set_content p (Strbuf_obj y) s)"
  unfolding load_strbuf_def by (rule load_struct_set) auto

lemma load_map_frame:
  "load_map p s = Inr (x, s) \<Longrightarrow> heap t (pbase p) = heap s (pbase p) \<Longrightarrow> load_map p t = Inr (x, t)"
  unfolding load_map_def load_struct_def by (rule load_frame)

lemma load_memtbl_frame:
  "load_memtbl p s = Inr (x, s) \<Longrightarrow> heap t (pbase p) = heap s (pbase p) \<Longrightarrow>
   load_memtbl p t = Inr (x, t)"
  unfolding load_memtbl_def load_struct_def by (rule load_frame)

lemma load_strbuf_frame:
  "load_strbuf p s = Inr (x, s) \<Longrightarrow> heap t (pbase p) = heap s (pbase p) \<Longrightarrow>
   load_strbuf p t = Inr (x, t)"
  unfolding load_strbuf_def load_struct_def by (rule load_frame)

lemma load_map_base: "load_map p s = Inr (m, t) \<Longrightarrow> pbase p \<noteq> 0 \<and> p \<noteq> NULL"
  by (auto simp: load_map_def load_struct_def load_Inr_iff block_at_Inr_iff zero_ptr_def)

section \<open>Tables of entries\<close>

definition load_entries :: "ptr \<Rightarrow> map_entry list prog" where
  "load_entries p = load p (entries_of p)"

lemma entry_overwrite [simp]:
  "e\<lparr>key_hash := k, value_handle := v\<rparr> = \<lparr>key_hash = k, value_handle = v\<rparr>"
  by (cases e) simp

lemma load_entry_exec [exec]:
  "load_entries p s = Inr (es, s) \<Longrightarrow>
   load_entry p i s = (if i < length es then Inr (es ! i, s) else Inl Out_of_bounds)"
  by (auto simp: load_entries_def load_entry_def load_def split: sum.splits)

lemma update_entry_exec [exec]:
  "load_entries p s = Inr (es, s) \<Longrightarrow>
   update_entry p i g s =
     (if i < length es then Inr ((), set_content p (Table (es[i := g (es ! i)])) s)
      else Inl Out_of_bounds)"
  by (auto simp: load_entries_def load_def update_entry_def store_def split: sum.splits)

lemma load_entries_set:
  "load_entries p s = Inr (es, s) \<Longrightarrow>
   load_entries p (set_content p (Table es') s) = Inr (es', set_content p (Table es') s)"
  by (auto simp: load_entries_def load_Inr_iff entries_of_def block_at_set_content split: if_splits)

lemma load_entries_frame:
  "load_entries p s = Inr (es, s) \<Longrightarrow> heap t (pbase p) = heap s (pbase p) \<Longrightarrow>
   load_entries p t = Inr (es, t)"
  unfolding load_entries_def by (rule load_frame)

lemma load_entry_dangling: "pbase p \<noteq> 0 \<Longrightarrow> heap s (pbase p) = None \<Longrightarrow> load_entry p i s = Inl Dangling"
  by (simp add: load_entry_def load_def block_at_def)

lemma update_entry_dangling:
  "pbase p \<noteq> 0 \<Longrightarrow> heap s (pbase p) = None \<Longrightarrow> update_entry p i g s = Inl Dangling"
  by (simp add: update_entry_def store_def block_at_def)

section \<open>What allocator calls leave alone\<close>

definition env_same :: "cstate \<Rightarrow> cstate \<Rightarrow> bool" where
  "env_same s t \<longleftrightarrow>
     sigint t = sigint s \<and> answers t = answers s \<and> realloc0_frees t = realloc0_frees s
     \<and> str_cstr_buffer t = str_cstr_buffer s"

lemma env_same_refl [simp, intro]: "env_same s s"
  by (simp add: env_same_def)

lemma env_same_trans: "env_same s t \<Longrightarrow> env_same t u \<Longrightarrow> env_same s u"
  by (simp add: env_same_def)

lemma env_same_set_content [simp]:
  "env_same s (set_content p c t) = env_same s t" "env_same (set_content p c s) t = env_same s t"
  by (simp_all add: env_same_def)

text \<open>\<open>frame S s t\<close>: the allocator was not called and only blocks with a base in \<open>S\<close> may differ.\<close>

definition frame :: "64 word set \<Rightarrow> cstate \<Rightarrow> cstate \<Rightarrow> bool" where
  "frame S s t \<longleftrightarrow> env_same s t \<and> calls t = calls s \<and> (\<forall>a. a \<notin> S \<longrightarrow> heap t a = heap s a)"


lemma frame_refl [simp, intro]: "frame S s s"
  by (simp add: frame_def)

lemma frame_trans: "frame S s t \<Longrightarrow> frame S t u \<Longrightarrow> frame S s u"
  by (auto simp: frame_def dest: env_same_trans)

lemma frame_mono: "frame S s t \<Longrightarrow> S \<subseteq> T \<Longrightarrow> frame T s t"
  by (auto simp: frame_def)

lemma frame_set_content [intro]: "pbase p \<in> S \<Longrightarrow> frame S s t \<Longrightarrow> frame S s (set_content p c t)"
  by (auto simp: frame_def heap_set_content)

text \<open>Only the content of the block behind \<open>p\<close> may differ.\<close>

definition content_upd :: "ptr \<Rightarrow> cstate \<Rightarrow> cstate \<Rightarrow> bool" where
  "content_upd p s t \<longleftrightarrow> t = s \<or> (\<exists>c. t = set_content p c s)"

lemma content_upd_frame: "content_upd p s t \<Longrightarrow> frame {pbase p} s t"
  by (auto simp: content_upd_def intro: frame_set_content)

lemma content_upd_step: "content_upd p (set_content p c s) t \<Longrightarrow> content_upd p s t"
  by (auto simp: content_upd_def)

end
