(* ===== verification/Ds_Mem.thy ===== *)
theory Ds_Mem
  imports Ds_Store
begin

text \<open>
  The memory handle layer of mem.h and mem.c. A handle carries its allocator; an allocator is a
  pointer to a table of functions. The functions that memtbl.c puts into that table are not known
  to mem.c, so the model takes them as an argument \<open>tb\<close>, a record of four functions; theory
  Ds_Memtbl defines it from memtbl.c. The SIGINT guard macro is \<open>sigint_guard\<close>.

  The locale \<open>transparent_handles\<close> states what a client may rely on when a handle's address can be
  read without side effects, and \<open>owning_allocator\<close> adds the laws of allocation and
  release; both are interpreted on the allocators that mem.c defines.
\<close>

record table_ops =
  tbl_alloc :: "mem_allocator \<Rightarrow> size_t \<Rightarrow> mem_handle prog"
  tbl_realloc :: "mem_handle \<Rightarrow> size_t \<Rightarrow> mem_handle prog"
  tbl_free :: "mem_handle \<Rightarrow> mem_handle prog"
  tbl_p :: "mem_handle \<Rightarrow> ptr prog"

section \<open>Handles and the allocators of mem.c\<close>

definition mem_is_valid :: "mem_handle \<Rightarrow> bool" where
  "mem_is_valid handle \<longleftrightarrow> h_data handle \<noteq> NULL"

definition mem_size :: "mem_handle \<Rightarrow> size_t" where
  "mem_size handle = h_size handle"

definition mem_handle_data :: "mem_handle \<Rightarrow> ptr prog" where
  "mem_handle_data handle = ret (h_data handle)"

definition MEM_ALLOCATOR_NOT_ALLOCATED_SPEC :: mem_allocator_spec where
  "MEM_ALLOCATOR_NOT_ALLOCATED_SPEC =
     \<lparr>allocator_type = MEM_ALLOCATOR_TYPE_NOT_ALLOCATED, alloc_func = None,
      realloc_func = None, free_func = None, p_func = Some Mem_handle_data\<rparr>"

definition MEM_ALLOCATOR_NOT_ALLOCATED :: mem_allocator where
  "MEM_ALLOCATOR_NOT_ALLOCATED =
     \<lparr>allocator_spec = Some MEM_ALLOCATOR_NOT_ALLOCATED_SPEC, allocator_data = NULL\<rparr>"

definition plain_alloc :: "mem_allocator \<Rightarrow> size_t \<Rightarrow> mem_handle prog" where
  "plain_alloc allocator n =
     cbind (malloc n) (\<lambda>p. ret \<lparr>h_data = p, h_size = n, h_alloc = allocator\<rparr>)"

definition plain_realloc :: "mem_handle \<Rightarrow> size_t \<Rightarrow> mem_handle prog" where
  "plain_realloc handle n =
     (if \<not> mem_is_valid handle then ret null_handle
      else cbind (realloc (h_data handle) n) (\<lambda>p.
        ret \<lparr>h_data = p, h_size = n, h_alloc = h_alloc handle\<rparr>))"

definition plain_free :: "mem_handle \<Rightarrow> mem_handle prog" where
  "plain_free handle = cbind (free (h_data handle)) (\<lambda>_. ret null_handle)"

definition MEM_ALLOCATOR_PLAIN_SPEC :: mem_allocator_spec where
  "MEM_ALLOCATOR_PLAIN_SPEC =
     \<lparr>allocator_type = MEM_ALLOCATOR_TYPE_PLAIN, alloc_func = Some Plain_fn,
      realloc_func = Some Plain_fn, free_func = Some Plain_fn, p_func = Some Mem_handle_data\<rparr>"

definition MEM_ALLOCATOR_PLAIN :: mem_allocator where
  "MEM_ALLOCATOR_PLAIN =
     \<lparr>allocator_spec = Some MEM_ALLOCATOR_PLAIN_SPEC, allocator_data = NULL\<rparr>"

definition mem_handle_from_ptr :: "ptr \<Rightarrow> size_t \<Rightarrow> mem_handle" where
  "mem_handle_from_ptr p n =
     \<lparr>h_data = p, h_size = n, h_alloc = MEM_ALLOCATOR_NOT_ALLOCATED\<rparr>"

section \<open>Calls through the function table, under the SIGINT guard\<close>

definition sigint_guard :: "'a prog \<Rightarrow> 'a prog" where
  "sigint_guard body =
     cbind (signal_int SIG_IGN) (\<lambda>old.
     cbind body (\<lambda>result.
     cbind (signal_int old) (\<lambda>_. ret result)))"

fun call_alloc ::
  "table_ops \<Rightarrow> allocator_fn \<Rightarrow> mem_allocator \<Rightarrow> size_t \<Rightarrow> mem_handle prog" where
  "call_alloc tb Plain_fn a n = plain_alloc a n"
| "call_alloc tb Memtbl_fn a n = tbl_alloc tb a n"

fun call_realloc ::
  "table_ops \<Rightarrow> allocator_fn \<Rightarrow> mem_handle \<Rightarrow> size_t \<Rightarrow> mem_handle prog" where
  "call_realloc tb Plain_fn h n = plain_realloc h n"
| "call_realloc tb Memtbl_fn h n = tbl_realloc tb h n"

fun call_free :: "table_ops \<Rightarrow> allocator_fn \<Rightarrow> mem_handle \<Rightarrow> mem_handle prog" where
  "call_free tb Plain_fn h = plain_free h"
| "call_free tb Memtbl_fn h = tbl_free tb h"

fun call_p :: "table_ops \<Rightarrow> p_fn \<Rightarrow> mem_handle \<Rightarrow> ptr prog" where
  "call_p tb Mem_handle_data h = mem_handle_data h"
| "call_p tb Memtbl_p h = tbl_p tb h"

definition mem_alloc :: "table_ops \<Rightarrow> mem_allocator \<Rightarrow> size_t \<Rightarrow> mem_handle prog" where
  "mem_alloc tb allocator n =
     (case allocator_spec allocator of
        None \<Rightarrow> ret null_handle
      | Some sp \<Rightarrow>
          (case alloc_func sp of
             None \<Rightarrow> ret null_handle
           | Some f \<Rightarrow> sigint_guard (call_alloc tb f allocator n)))"

definition mem_p :: "table_ops \<Rightarrow> mem_handle \<Rightarrow> ptr prog" where
  "mem_p tb handle =
     (if \<not> mem_is_valid handle then ret NULL
      else case allocator_spec (h_alloc handle) of
        None \<Rightarrow> ret NULL
      | Some sp \<Rightarrow>
          (case p_func sp of None \<Rightarrow> ret NULL | Some f \<Rightarrow> call_p tb f handle))"

definition mem_alloc_clear :: "table_ops \<Rightarrow> mem_allocator \<Rightarrow> size_t \<Rightarrow> mem_handle prog" where
  "mem_alloc_clear tb allocator n =
     cbind (mem_alloc tb allocator n) (\<lambda>handle.
     if mem_is_valid handle
     then cbind (mem_p tb handle) (\<lambda>p. cbind (memset_zero p n) (\<lambda>_. ret handle))
     else ret handle)"

definition mem_realloc :: "table_ops \<Rightarrow> mem_handle \<Rightarrow> size_t \<Rightarrow> mem_handle prog" where
  "mem_realloc tb handle n =
     (if \<not> mem_is_valid handle then ret null_handle
      else case allocator_spec (h_alloc handle) of
        None \<Rightarrow> ret null_handle
      | Some sp \<Rightarrow>
          (case realloc_func sp of
             None \<Rightarrow> ret null_handle
           | Some f \<Rightarrow> sigint_guard (call_realloc tb f handle n)))"

definition mem_free :: "table_ops \<Rightarrow> mem_handle \<Rightarrow> mem_handle prog" where
  "mem_free tb handle =
     (if \<not> mem_is_valid handle then ret null_handle
      else case allocator_spec (h_alloc handle) of
        None \<Rightarrow> ret null_handle
      | Some sp \<Rightarrow>
          (case free_func sp of
             None \<Rightarrow> ret null_handle
           | Some f \<Rightarrow> sigint_guard (call_free tb f handle)))"

definition mem_duplicate_with_allocator ::
  "table_ops \<Rightarrow> mem_allocator \<Rightarrow> mem_handle \<Rightarrow> mem_handle prog" where
  "mem_duplicate_with_allocator tb allocator handle =
     (if \<not> mem_is_valid handle then ret null_handle
      else cbind (mem_alloc tb allocator (h_size handle)) (\<lambda>new_handle.
        if \<not> mem_is_valid new_handle then ret null_handle
        else cbind (mem_p tb new_handle) (\<lambda>d.
          cbind (mem_p tb handle) (\<lambda>p.
          cbind (memcpy d p (h_size handle)) (\<lambda>_. ret new_handle)))))"

definition mem_duplicate :: "table_ops \<Rightarrow> mem_handle \<Rightarrow> mem_handle prog" where
  "mem_duplicate tb handle = mem_duplicate_with_allocator tb (h_alloc handle) handle"

section \<open>The SIGINT discipline\<close>

text \<open>
  \<open>quiet\<close>: the handler is restored and every allocator event happened with SIGINT ignored.
  \<open>quiet_inside\<close> is what a function called inside a guard owes: the same when it starts with
  SIGINT ignored.
\<close>

definition quiet :: "cstate \<Rightarrow> cstate \<Rightarrow> bool" where
  "quiet s t \<longleftrightarrow> sigint t = sigint s \<and>
     (\<exists>evs. trace t = trace s @ evs \<and> (\<forall>ev \<in> set evs. snd ev = SIG_IGN))"

definition quiet_inside :: "cstate \<Rightarrow> cstate \<Rightarrow> bool" where
  "quiet_inside s t \<longleftrightarrow> sigint t = sigint s \<and> (sigint s = SIG_IGN \<longrightarrow> quiet s t)"

lemma quiet_reflp [simp, intro]: "reflp quiet"
  by (auto simp: quiet_def intro!: reflpI)

lemma quiet_transp [simp, intro]: "transp quiet"
  by (rule transpI) (fastforce simp: quiet_def)

lemma quiet_inside_reflp [simp, intro]: "reflp quiet_inside"
  by (auto simp: quiet_inside_def quiet_def intro!: reflpI)

lemma quiet_inside_transp [simp, intro]: "transp quiet_inside"
  by (rule transpI) (auto simp: quiet_inside_def dest: transpD [OF quiet_transp])

lemma quiet_imp_inside: "evolves quiet m \<Longrightarrow> evolves quiet_inside m"
  by (erule evolves_mono) (auto simp: quiet_inside_def quiet_def)

text \<open>Loads and stores make no allocator call.\<close>

lemma quiet_load [evolves_rules]: "evolves quiet (load p f)"
  by (auto simp: load_Inr_iff intro!: evolvesI reflpD [OF quiet_reflp])

lemma quiet_store [evolves_rules]: "evolves quiet (store p f)"
  by (auto simp: store_def quiet_def intro!: evolvesI split: sum.splits)

lemma quiet_memcpy [evolves_rules]: "evolves quiet (memcpy d p n)"
  by (auto simp: memcpy_def load_bytes_def store_bytes_def store_def cbind_Inr_iff load_Inr_iff
      quiet_def intro!: evolvesI split: sum.splits if_splits)

lemmas access_defs =
  load_map_def update_map_def load_memtbl_def update_memtbl_def load_strbuf_def
  update_strbuf_def load_struct_def update_struct_def load_entry_def update_entry_def
  load_byte_def store_bytes_def load_bytes_def memset_zero_def strlen_def

lemma quiet_access [evolves_rules]:
  "evolves quiet (load_map p)" "evolves quiet (update_map p fm)"
  "evolves quiet (load_memtbl p)" "evolves quiet (update_memtbl p ft)"
  "evolves quiet (load_strbuf p)" "evolves quiet (update_strbuf p fb)"
  "evolves quiet (load_entry p i)" "evolves quiet (update_entry p i fe)"
  "evolves quiet (load_byte p)" "evolves quiet (store_bytes p cs)"
  "evolves quiet (load_bytes p k)" "evolves quiet (memset_zero p n)"
  "evolves quiet (strlen p)"
  unfolding access_defs by (rule quiet_load quiet_store)+

lemma quiet_inside_malloc: "evolves quiet_inside (malloc n)"
  by (auto simp: malloc_def log_event_def put_block_def quiet_inside_def quiet_def Let_def
      intro!: evolvesI split: if_splits)

lemma quiet_inside_free: "evolves quiet_inside (free p)"
  by (auto simp: free_def log_event_def drop_block_def quiet_inside_def quiet_def
      intro!: evolvesI split: if_splits option.splits)

lemma quiet_inside_realloc: "evolves quiet_inside (realloc p n)"
  by (rule evolvesI)
    (auto simp: realloc_def log_event_def drop_block_def put_block_def quiet_inside_def quiet_def
      Let_def split: if_splits option.splits sum.splits
      dest: evolvesD [OF quiet_inside_malloc, unfolded quiet_inside_def quiet_def])

lemma quiet_guard:
  assumes "evolves quiet_inside body"
  shows "evolves quiet (sigint_guard body)"
proof (rule evolvesI)
  fix s x t assume "sigint_guard body s = Inr (x, t)"
  then obtain u where u: "body (s\<lparr>sigint := SIG_IGN\<rparr>) = Inr (x, u)"
      and t: "t = u\<lparr>sigint := sigint s\<rparr>"
    by (auto simp: sigint_guard_def signal_int_def cbind_Inr_iff)
  have "quiet_inside (s\<lparr>sigint := SIG_IGN\<rparr>) u" using assms u by (rule evolvesD)
  then show "quiet s t" using t by (simp add: quiet_inside_def quiet_def)
qed

text \<open>The functions a memory table provides, seen as allocator functions.\<close>

definition table_ops_quiet :: "table_ops \<Rightarrow> bool" where
  "table_ops_quiet tb \<longleftrightarrow>
     (\<forall>a n. evolves quiet_inside (tbl_alloc tb a n)) \<and>
     (\<forall>h n. evolves quiet_inside (tbl_realloc tb h n)) \<and>
     (\<forall>h. evolves quiet_inside (tbl_free tb h)) \<and> (\<forall>h. evolves quiet (tbl_p tb h))"

lemma quiet_mem_ops [evolves_rules]:
  assumes "table_ops_quiet tb"
  shows "evolves quiet (mem_alloc tb a n)" "evolves quiet (mem_realloc tb h n)"
    "evolves quiet (mem_free tb h)" "evolves quiet (mem_p tb h)"
proof -
  have calls: "evolves quiet_inside (call_alloc tb f a n)"
      "evolves quiet_inside (call_realloc tb f h n)" "evolves quiet_inside (call_free tb f h)" for f
    using assms
    by (cases f; simp add: table_ops_quiet_def plain_alloc_def plain_realloc_def plain_free_def
        evolves_rules quiet_inside_malloc quiet_inside_realloc quiet_inside_free)+
  have p: "evolves quiet (call_p tb f h)" for f
    using assms by (cases f) (simp_all add: table_ops_quiet_def mem_handle_data_def evolves_rules)
  show "evolves quiet (mem_alloc tb a n)" "evolves quiet (mem_realloc tb h n)"
      "evolves quiet (mem_free tb h)" "evolves quiet (mem_p tb h)"
    unfolding mem_alloc_def mem_realloc_def mem_free_def mem_p_def
    by (simp_all add: evolves_rules quiet_guard calls p)
qed

lemma quiet_mem_derived [evolves_rules]:
  assumes "table_ops_quiet tb"
  shows "evolves quiet (mem_alloc_clear tb a n)"
    "evolves quiet (mem_duplicate_with_allocator tb a h)" "evolves quiet (mem_duplicate tb h)"
  using assms
  by (simp_all add: mem_alloc_clear_def mem_duplicate_def mem_duplicate_with_allocator_def
      evolves_rules)

section \<open>Contracts of the allocators\<close>

text \<open>
  What an allocation may do: nothing but fail, or add one fresh block of the wanted size and
  return a handle to it.
\<close>

definition alloc_post ::
  "content \<Rightarrow> mem_allocator \<Rightarrow> size_t \<Rightarrow> cstate \<Rightarrow> mem_handle \<Rightarrow> cstate \<Rightarrow> bool" where
  "alloc_post c A n s h t \<longleftrightarrow> env_same s t \<and>
     (h_data h = NULL \<and> heap t = heap s \<or>
      (\<exists>a. a \<noteq> 0 \<and> heap s a = None \<and> h = \<lparr>h_data = Ptr a 0, h_size = n, h_alloc = A\<rparr> \<and>
         heap t = (heap s)(a \<mapsto> \<lparr>b_size = n, b_heap = True, b_content = c\<rparr>)))"

definition realloc_post ::
  "block \<Rightarrow> mem_handle \<Rightarrow> size_t \<Rightarrow> cstate \<Rightarrow> mem_handle \<Rightarrow> cstate \<Rightarrow> bool" where
  "realloc_post b h n s r t \<longleftrightarrow> env_same s t \<and>
     (h_data r = NULL \<and> heap t = heap s \<or>
      (\<exists>a c. a \<noteq> 0 \<and> (a = pbase (h_data h) \<or> heap s a = None) \<and>
         resize_content (b_size b) n (b_content b) = Inr c \<and>
         r = \<lparr>h_data = Ptr a 0, h_size = n, h_alloc = h_alloc h\<rparr> \<and>
         heap t = (heap s)(pbase (h_data h) := None,
           a \<mapsto> \<lparr>b_size = n, b_heap = True, b_content = c\<rparr>)))"

text \<open>\<open>owned s h b\<close>: the handle is the address of the live heap block \<open>b\<close>.\<close>

definition owned :: "cstate \<Rightarrow> mem_handle \<Rightarrow> block \<Rightarrow> bool" where
  "owned s h b \<longleftrightarrow> pbase (h_data h) \<noteq> 0 \<and> poff (h_data h) = 0 \<and>
     heap s (pbase (h_data h)) = Some b \<and> b_heap b"

lemma ptr_null_iff: "p = NULL \<longleftrightarrow> pbase p = 0 \<and> poff p = 0"
  by (cases p) (simp add: zero_ptr_def)

lemma null_base [simp]: "pbase NULL = 0" "poff NULL = 0"
  by (simp_all add: zero_ptr_def)

lemma owned_set_content: "\<exists>b. owned s h b \<Longrightarrow> \<exists>b. owned (set_content p c s) h b"
  by (auto simp: owned_def heap_set_content)

lemma owned_not_null: "owned s h b \<Longrightarrow> h_data h \<noteq> NULL"
  by (auto simp: owned_def)

lemma content_upd_owned: "content_upd p s t \<Longrightarrow> \<exists>b. owned s h b \<Longrightarrow> \<exists>b. owned t h b"
  by (auto simp: content_upd_def intro!: owned_set_content)

lemma Ptr_0_null [simp]: "Ptr a 0 = NULL \<longleftrightarrow> a = 0" "NULL = Ptr a 0 \<longleftrightarrow> a = 0"
  by (auto simp: zero_ptr_def)

lemma null_handle_data [simp]: "h_data null_handle = NULL"
  by (simp add: null_handle_def)

lemma mem_p_invalid [simp]: "h_data h = NULL \<Longrightarrow> mem_p tb h = ret NULL"
  by (simp add: mem_p_def mem_is_valid_def)

locale transparent_handles =
  fixes tb :: table_ops and A :: mem_allocator
  assumes p_law: "h_alloc h = A \<Longrightarrow> mem_p tb h = ret (h_data h)"

locale owning_allocator = transparent_handles tb A for tb :: table_ops and A :: mem_allocator +
  assumes alloc_law: "runs (mem_alloc tb A n) s (alloc_post Fresh A n s)"
    and realloc_law: "h_alloc h = A \<Longrightarrow> owned s h b \<Longrightarrow> n \<noteq> 0 \<Longrightarrow>
      resize_content (b_size b) n (b_content b) = Inr c \<Longrightarrow>
      runs (mem_realloc tb h n) s (realloc_post b h n s)"
    and free_law: "h_alloc h = A \<Longrightarrow> owned s h b \<Longrightarrow>
      runs (mem_free tb h) s (\<lambda>r t. r = null_handle \<and> env_same s t \<and>
        heap t = (heap s)(pbase (h_data h) := None))"
begin

lemma alloc_clear_law: "runs (mem_alloc_clear tb A n) s (alloc_post Zeroed A n s)"
proof -
  obtain h t where m: "mem_alloc tb A n s = Inr (h, t)" and post: "alloc_post Fresh A n s h t"
    using alloc_law by (rule runsE)
  show ?thesis
  proof (cases "h_data h = NULL")
    case True
    then show ?thesis using m post
      by (auto simp: runs_def mem_alloc_clear_def cbind_apply mem_is_valid_def alloc_post_def)
  next
    case False
    then obtain a where a: "a \<noteq> 0" "heap s a = None"
        and h: "h = \<lparr>h_data = Ptr a 0, h_size = n, h_alloc = A\<rparr>"
        and heap: "heap t = (heap s)(a \<mapsto> \<lparr>b_size = n, b_heap = True, b_content = Fresh\<rparr>)"
        and env: "env_same s t"
      using post by (auto simp: alloc_post_def)
    have p: "mem_p tb \<lparr>h_data = Ptr a 0, h_size = n, h_alloc = A\<rparr> = ret (Ptr a 0)"
      by (simp add: p_law)
    have set: "memset_zero (Ptr a 0) n t = Inr ((), set_content (Ptr a 0) Zeroed t)"
      using a heap unfolding memset_zero_def by (auto intro: store_exec simp: block_at_Inr_iff)
    have heap': "heap (set_content (Ptr a 0) Zeroed t)
        = (heap s)(a \<mapsto> \<lparr>b_size = n, b_heap = True, b_content = Zeroed\<rparr>)"
      by (rule ext) (simp add: heap_set_content heap)
    have "mem_alloc_clear tb A n s = Inr (h, set_content (Ptr a 0) Zeroed t)"
      using a by (simp add: mem_alloc_clear_def cbind_apply m p set h mem_is_valid_def)
    then show ?thesis
      using a h env heap' by (simp add: runs_def alloc_post_def)
  qed
qed

end

lemma mem_alloc_plain:
  "mem_alloc tb MEM_ALLOCATOR_PLAIN n = sigint_guard (plain_alloc MEM_ALLOCATOR_PLAIN n)"
  by (simp add: mem_alloc_def MEM_ALLOCATOR_PLAIN_def MEM_ALLOCATOR_PLAIN_SPEC_def)

lemma mem_realloc_plain:
  "h_alloc h = MEM_ALLOCATOR_PLAIN \<Longrightarrow> h_data h \<noteq> NULL \<Longrightarrow>
   mem_realloc tb h n = sigint_guard (plain_realloc h n)"
  by (simp add: mem_realloc_def mem_is_valid_def MEM_ALLOCATOR_PLAIN_def
      MEM_ALLOCATOR_PLAIN_SPEC_def)

lemma mem_free_plain:
  "h_alloc h = MEM_ALLOCATOR_PLAIN \<Longrightarrow> h_data h \<noteq> NULL \<Longrightarrow>
   mem_free tb h = sigint_guard (plain_free h)"
  by (simp add: mem_free_def mem_is_valid_def MEM_ALLOCATOR_PLAIN_def MEM_ALLOCATOR_PLAIN_SPEC_def)

lemma mem_p_transparent:
  "h_alloc h = MEM_ALLOCATOR_PLAIN \<or> h_alloc h = MEM_ALLOCATOR_NOT_ALLOCATED \<Longrightarrow>
   mem_p tb h = ret (h_data h)"
  by (auto simp: mem_p_def mem_is_valid_def MEM_ALLOCATOR_PLAIN_def MEM_ALLOCATOR_PLAIN_SPEC_def
      MEM_ALLOCATOR_NOT_ALLOCATED_def MEM_ALLOCATOR_NOT_ALLOCATED_SPEC_def mem_handle_data_def)

lemmas libc_defs =
  malloc_def realloc_def free_def fresh_answer_def log_event_def put_block_def drop_block_def
  signal_int_def sigint_guard_def

interpretation unowned: transparent_handles tb MEM_ALLOCATOR_NOT_ALLOCATED for tb
  by unfold_locales (simp add: mem_p_transparent)

interpretation plain: owning_allocator tb MEM_ALLOCATOR_PLAIN for tb
proof unfold_locales
  fix h :: mem_handle assume "h_alloc h = MEM_ALLOCATOR_PLAIN"
  then show "mem_p tb h = ret (h_data h)" by (simp add: mem_p_transparent)
next
  fix n s
  show "runs (mem_alloc tb MEM_ALLOCATOR_PLAIN n) s (alloc_post Fresh MEM_ALLOCATOR_PLAIN n s)"
    by (auto simp: mem_alloc_plain plain_alloc_def libc_defs runs_def cbind_apply Let_def
        alloc_post_def env_same_def)
next
  fix h :: mem_handle and s b n c
  assume "h_alloc h = MEM_ALLOCATOR_PLAIN" and "owned s h b" and "n \<noteq> 0"
    and "resize_content (b_size b) n (b_content b) = Inr c"
  then show "runs (mem_realloc tb h n) s (realloc_post b h n s)"
    by (auto simp: mem_realloc_plain plain_realloc_def libc_defs runs_def cbind_apply Let_def
        realloc_post_def env_same_def owned_def ptr_null_iff mem_is_valid_def)
next
  fix h :: mem_handle and s b
  assume "h_alloc h = MEM_ALLOCATOR_PLAIN" and "owned s h b"
  then show "runs (mem_free tb h) s (\<lambda>r t. r = null_handle \<and> env_same s t \<and>
      heap t = (heap s)(pbase (h_data h) := None))"
    by (auto simp: mem_free_plain plain_free_def libc_defs runs_def cbind_apply
        env_same_def owned_def ptr_null_iff)
qed

end
