(* ===== verification/Ds_Map.thy ===== *)
theory Ds_Map
  imports Ds_Mem
begin

unbundle bit_operations_syntax

text \<open>
  The hash map of map.h and map.c: FNV-1a hashing of the key, an open-addressing table of
  entries with linear probing, growth above half full, shrinking below a quarter, and iteration
  over the values. A key is present when its 32-bit hash is: the table stores no keys.
\<close>

section \<open>Hashing\<close>

datatype map_key_type = MAP_KEY_STR | MAP_KEY_PTR

fun key_type_char :: "map_key_type \<Rightarrow> byte" where
  "key_type_char MAP_KEY_STR = 0"
| "key_type_char MAP_KEY_PTR = 1"

text \<open>One round: xor with the sign-extended char, then the shift-and-add multiplication.\<close>

definition fnv_step :: "uint \<Rightarrow> byte \<Rightarrow> uint" where
  "fnv_step hash0 c =
     (let hash1 = hash0 XOR scast c
      in hash1 + (push_bit 1 hash1 + push_bit 4 hash1 + push_bit 7 hash1
           + push_bit 8 hash1 + push_bit 24 hash1))"

definition FNV_OFFSET :: uint where
  "FNV_OFFSET = 0x811c9dc5"

fun hash_str_loop :: "table_ops \<Rightarrow> nat \<Rightarrow> mem_handle \<Rightarrow> uint \<Rightarrow> uint \<Rightarrow> uint prog" where
  "hash_str_loop tb 0 key i hash = raise Out_of_fuel"
| "hash_str_loop tb (Suc fuel) key i hash =
     (if ucast i < h_size key
      then cbind (mem_p tb key) (\<lambda>p.
           cbind (load_byte (ptr_add p (unat i))) (\<lambda>c.
           hash_str_loop tb fuel key (i + 1) (fnv_step hash c)))
      else ret hash)"

definition hash_str :: "table_ops \<Rightarrow> mem_handle \<Rightarrow> uint prog" where
  "hash_str tb key =
     hash_str_loop tb (Suc (unat (h_size key))) key 0
       (fnv_step FNV_OFFSET (key_type_char MAP_KEY_STR))"

primrec hash_ptr_loop :: "nat \<Rightarrow> 64 word \<Rightarrow> uint \<Rightarrow> uint" where
  "hash_ptr_loop 0 keyint hash = hash"
| "hash_ptr_loop (Suc n) keyint hash =
     hash_ptr_loop n (drop_bit 8 keyint) (fnv_step hash (ucast (keyint AND 255)))"

definition hash_ptr :: "ptr \<Rightarrow> uint" where
  "hash_ptr key =
     hash_ptr_loop 8 (uintptr key) (fnv_step FNV_OFFSET (key_type_char MAP_KEY_PTR))"

section \<open>Creation and destruction\<close>

definition INITIAL_TABLE_SIZE :: uint where
  "INITIAL_TABLE_SIZE = 32"

definition map_create :: "table_ops \<Rightarrow> mem_allocator \<Rightarrow> mem_handle prog" where
  "map_create tb ma =
     cbind (mem_alloc tb ma sizeof_map) (\<lambda>mh.
     if \<not> mem_is_valid mh then ret null_handle
     else cbind (mem_p tb mh) (\<lambda>mp.
       cbind (update_map mp (\<lambda>m. m\<lparr>entry_count := 0\<rparr>)) (\<lambda>_.
       cbind (update_map mp (\<lambda>m. m\<lparr>table_size := INITIAL_TABLE_SIZE\<rparr>)) (\<lambda>_.
       cbind (mem_alloc_clear tb ma (sizeof_map_entry * ucast INITIAL_TABLE_SIZE)) (\<lambda>eh.
       cbind (update_map mp (\<lambda>m. m\<lparr>entries_mh := eh\<rparr>)) (\<lambda>_.
       cbind (load_map mp) (\<lambda>m.
       if \<not> mem_is_valid (entries_mh m)
       then cbind (mem_free tb mh) (\<lambda>_. ret null_handle)
       else ret mh)))))))"

definition map_is_valid :: "table_ops \<Rightarrow> mem_handle \<Rightarrow> bool prog" where
  "map_is_valid tb mh =
     (if \<not> mem_is_valid mh then ret False
      else cbind (mem_p tb mh) (\<lambda>mp.
        cbind (load_map mp) (\<lambda>m. ret (mem_is_valid (entries_mh m)))))"

definition map_destroy :: "table_ops \<Rightarrow> mem_handle \<Rightarrow> unit prog" where
  "map_destroy tb mh =
     cbind (map_is_valid tb mh) (\<lambda>ok.
     if \<not> ok then ret ()
     else cbind (mem_p tb mh) (\<lambda>mp.
       cbind (load_map mp) (\<lambda>m.
       cbind (mem_free tb (entries_mh m)) (\<lambda>_.
       cbind (mem_free tb mh) (\<lambda>_. ret ())))))"

section \<open>The table\<close>

text \<open>
  The new size is computed in double precision and converted back to unsigned int; doubling a
  size of 2^31 or more leaves the range of the conversion.
\<close>

definition new_size :: "uint \<Rightarrow> bool \<Rightarrow> uint prog" where
  "new_size ts is_grow =
     (if is_grow
      then if ts < 0x80000000 then ret (2 * ts) else raise Float_range
      else ret (ts div 2))"

function copy_entries :: "ptr \<Rightarrow> ptr \<Rightarrow> uint \<Rightarrow> uint \<Rightarrow> uint \<Rightarrow> unit prog" where
  "copy_entries old_entries new_entries old_size nts i =
     (if i < old_size
      then cbind (load_entry old_entries (unat i)) (\<lambda>e.
        if key_hash e = 0 then copy_entries old_entries new_entries old_size nts (i + 1)
        else if nts = 0 then raise Div_by_zero
        else cbind (update_entry new_entries (unat (key_hash e mod nts)) (\<lambda>_. e)) (\<lambda>_.
          copy_entries old_entries new_entries old_size nts (i + 1)))
      else ret ())"
  by pat_completeness auto
termination
  by (relation "measure (\<lambda>(_, _, n, _, i). unat n - unat i)") auto

declare copy_entries.simps [simp del]

definition resize_entries_table :: "table_ops \<Rightarrow> mem_handle \<Rightarrow> bool \<Rightarrow> bool prog" where
  "resize_entries_table tb mh is_grow =
     cbind (mem_p tb mh) (\<lambda>mp.
     cbind (load_map mp) (\<lambda>m.
     cbind (new_size (table_size m) is_grow) (\<lambda>nts.
     cbind (mem_alloc_clear tb (h_alloc mh) (sizeof_map_entry * ucast nts)) (\<lambda>new_mh.
     cbind (mem_p tb new_mh) (\<lambda>np.
     if np = NULL then ret False
     else cbind (mem_p tb (entries_mh m)) (\<lambda>old_entries.
       cbind (mem_p tb new_mh) (\<lambda>new_entries.
       cbind (copy_entries old_entries new_entries (table_size m) nts 0) (\<lambda>_.
       cbind (mem_free tb (entries_mh m)) (\<lambda>_.
       cbind (update_map mp (\<lambda>m. m\<lparr>table_size := nts\<rparr>)) (\<lambda>_.
       cbind (update_map mp (\<lambda>m. m\<lparr>entries_mh := new_mh\<rparr>)) (\<lambda>_.
       ret True)))))))))))"

text \<open>
  The probe is a do-while loop that can run at most table_size times before it is back at the
  start position, which is the fuel it gets; running past it would be Out_of_fuel.
\<close>

fun find_entry_loop :: "nat \<Rightarrow> ptr \<Rightarrow> uint \<Rightarrow> uint \<Rightarrow> uint \<Rightarrow> uint \<Rightarrow> uint prog" where
  "find_entry_loop 0 entries ts kh start_pos pos = raise Out_of_fuel"
| "find_entry_loop (Suc fuel) entries ts kh start_pos pos =
     cbind (load_entry entries (unat pos)) (\<lambda>e.
     if key_hash e = kh \<or> key_hash e = 0 then ret pos
     else
       let pos1 = pos + 1; pos2 = (if ts \<le> pos1 then 0 else pos1)
       in if pos2 \<noteq> start_pos then find_entry_loop fuel entries ts kh start_pos pos2
          else raise Assert_fail)"

definition find_entry_pos :: "table_ops \<Rightarrow> mem_handle \<Rightarrow> uint \<Rightarrow> uint prog" where
  "find_entry_pos tb mh kh =
     cbind (mem_p tb mh) (\<lambda>mp.
     cbind (load_map mp) (\<lambda>m.
     cbind (mem_p tb (entries_mh m)) (\<lambda>entries.
     if table_size m = 0 then raise Div_by_zero
     else
       let start_pos = kh mod table_size m
       in find_entry_loop (unat (table_size m)) entries (table_size m) kh start_pos start_pos)))"

definition do_set :: "table_ops \<Rightarrow> mem_handle \<Rightarrow> uint \<Rightarrow> mem_handle \<Rightarrow> bool prog" where
  "do_set tb mh kh value =
     cbind (mem_p tb mh) (\<lambda>mp.
     cbind (load_map mp) (\<lambda>m0.
     cbind (mem_p tb (entries_mh m0)) (\<lambda>entries.
     cbind (find_entry_pos tb mh kh) (\<lambda>pos.
     cbind (load_entry entries (unat pos)) (\<lambda>e.
     cbind (if key_hash e = 0 then
              cbind (update_map mp (\<lambda>m. m\<lparr>entry_count := entry_count m + 1\<rparr>)) (\<lambda>_.
              cbind (load_map mp) (\<lambda>m.
              if table_size m div 2 < entry_count m
              then cbind (resize_entries_table tb mh True) (\<lambda>ok.
                if \<not> ok then ret None
                else cbind (find_entry_pos tb mh kh) (\<lambda>pos. ret (Some pos)))
              else ret (Some pos)))
            else ret (Some pos)) (\<lambda>found.
     case found of
       None \<Rightarrow> ret False
     | Some pos \<Rightarrow>
         cbind (update_entry entries (unat pos) (\<lambda>e. e\<lparr>key_hash := kh\<rparr>)) (\<lambda>_.
         cbind (update_entry entries (unat pos) (\<lambda>e. e\<lparr>value_handle := value\<rparr>)) (\<lambda>_.
         ret True))))))))"

definition do_get :: "table_ops \<Rightarrow> mem_handle \<Rightarrow> uint \<Rightarrow> mem_handle prog" where
  "do_get tb mh kh =
     cbind (mem_p tb mh) (\<lambda>mp.
     cbind (load_map mp) (\<lambda>m.
     cbind (mem_p tb (entries_mh m)) (\<lambda>entries.
     cbind (find_entry_pos tb mh kh) (\<lambda>pos.
     cbind (load_entry entries (unat pos)) (\<lambda>e.
     if key_hash e = 0 then ret null_handle
     else ret (value_handle e))))))"

definition do_delete :: "table_ops \<Rightarrow> mem_handle \<Rightarrow> uint \<Rightarrow> bool prog" where
  "do_delete tb mh kh =
     cbind (mem_p tb mh) (\<lambda>mp.
     cbind (load_map mp) (\<lambda>m0.
     cbind (mem_p tb (entries_mh m0)) (\<lambda>entries.
     cbind (find_entry_pos tb mh kh) (\<lambda>pos.
     cbind (load_entry entries (unat pos)) (\<lambda>e.
     if key_hash e = 0 then ret False
     else
       cbind (update_entry entries (unat pos) (\<lambda>e. e\<lparr>key_hash := 0\<rparr>)) (\<lambda>_.
       cbind (update_entry entries (unat pos) (\<lambda>e. e\<lparr>value_handle := null_handle\<rparr>)) (\<lambda>_.
       cbind (update_map mp (\<lambda>m. m\<lparr>entry_count := entry_count m - 1\<rparr>)) (\<lambda>_.
       cbind (load_map mp) (\<lambda>m.
       if entry_count m < table_size m div 4 \<and> INITIAL_TABLE_SIZE < table_size m
       then resize_entries_table tb mh False
       else ret True)))))))))"

section \<open>The operations on str and pointer keys\<close>

definition map_set_str ::
  "table_ops \<Rightarrow> mem_handle \<Rightarrow> mem_handle \<Rightarrow> mem_handle \<Rightarrow> bool prog" where
  "map_set_str tb mh key value =
     cbind (map_is_valid tb mh) (\<lambda>ok.
     if \<not> ok then ret False
     else cbind (mem_p tb value) (\<lambda>vp.
       if vp = NULL then ret False
       else cbind (hash_str tb key) (\<lambda>kh. do_set tb mh kh value)))"

definition map_set_ptr ::
  "table_ops \<Rightarrow> mem_handle \<Rightarrow> ptr \<Rightarrow> mem_handle \<Rightarrow> bool prog" where
  "map_set_ptr tb mh key value =
     cbind (map_is_valid tb mh) (\<lambda>ok.
     if \<not> ok then ret False
     else if \<not> mem_is_valid value then ret False
     else do_set tb mh (hash_ptr key) value)"

definition map_get_str :: "table_ops \<Rightarrow> mem_handle \<Rightarrow> mem_handle \<Rightarrow> mem_handle prog" where
  "map_get_str tb mh key =
     cbind (map_is_valid tb mh) (\<lambda>ok.
     if \<not> ok then ret null_handle
     else cbind (hash_str tb key) (\<lambda>kh. do_get tb mh kh))"

definition map_get_ptr :: "table_ops \<Rightarrow> mem_handle \<Rightarrow> ptr \<Rightarrow> mem_handle prog" where
  "map_get_ptr tb mh key =
     cbind (map_is_valid tb mh) (\<lambda>ok.
     if \<not> ok then ret null_handle
     else do_get tb mh (hash_ptr key))"

definition map_delete_str :: "table_ops \<Rightarrow> mem_handle \<Rightarrow> mem_handle \<Rightarrow> bool prog" where
  "map_delete_str tb mh key = cbind (hash_str tb key) (\<lambda>kh. do_delete tb mh kh)"

definition map_delete_ptr :: "table_ops \<Rightarrow> mem_handle \<Rightarrow> ptr \<Rightarrow> bool prog" where
  "map_delete_ptr tb mh key = do_delete tb mh (hash_ptr key)"

section \<open>The type-generic operations\<close>

text \<open>The macros map_set, map_get and map_delete choose a function by the type of the key.\<close>

datatype map_key = Str_key mem_handle | Ptr_key ptr

fun map_set :: "table_ops \<Rightarrow> mem_handle \<Rightarrow> map_key \<Rightarrow> mem_handle \<Rightarrow> bool prog" where
  "map_set tb mh (Str_key key) value = map_set_str tb mh key value"
| "map_set tb mh (Ptr_key key) value = map_set_ptr tb mh key value"

fun map_get :: "table_ops \<Rightarrow> mem_handle \<Rightarrow> map_key \<Rightarrow> mem_handle prog" where
  "map_get tb mh (Str_key key) = map_get_str tb mh key"
| "map_get tb mh (Ptr_key key) = map_get_ptr tb mh key"

fun map_delete :: "table_ops \<Rightarrow> mem_handle \<Rightarrow> map_key \<Rightarrow> bool prog" where
  "map_delete tb mh (Str_key key) = map_delete_str tb mh key"
| "map_delete tb mh (Ptr_key key) = map_delete_ptr tb mh key"

section \<open>Iteration over the values\<close>

record map_iter =
  it_mh :: mem_handle
  it_pos :: uint
  it_value :: mem_handle

definition null_iter :: map_iter where
  "null_iter = \<lparr>it_mh = null_handle, it_pos = 0, it_value = null_handle\<rparr>"

function next_value_pos :: "table_ops \<Rightarrow> ptr \<Rightarrow> uint \<Rightarrow> uint \<Rightarrow> uint prog" where
  "next_value_pos tb first ts pos =
     (if pos < ts
      then cbind (load_entry first (unat pos)) (\<lambda>e.
        cbind (mem_p tb (value_handle e)) (\<lambda>vp.
        if vp = NULL then next_value_pos tb first ts (pos + 1) else ret pos))
      else ret pos)"
  by pat_completeness auto
termination
  by (relation "measure (\<lambda>(_, _, ts, pos). unat ts - unat pos)") auto

declare next_value_pos.simps [simp del]

definition map_next_value_iter :: "table_ops \<Rightarrow> map_iter \<Rightarrow> map_iter prog" where
  "map_next_value_iter tb it =
     cbind (mem_p tb (it_mh it)) (\<lambda>mp.
     if mp = NULL then ret null_iter
     else cbind (load_map mp) (\<lambda>m.
       cbind (mem_p tb (entries_mh m)) (\<lambda>first.
       cbind (next_value_pos tb first (table_size m) (it_pos it + 1)) (\<lambda>pos.
       if table_size m \<le> pos then ret null_iter
       else cbind (load_entry first (unat pos)) (\<lambda>e.
         ret \<lparr>it_mh = it_mh it, it_pos = pos, it_value = value_handle e\<rparr>)))))"

definition map_first_value_iter :: "table_ops \<Rightarrow> mem_handle \<Rightarrow> map_iter prog" where
  "map_first_value_iter tb mh =
     cbind (mem_p tb mh) (\<lambda>mp.
     if mp = NULL then ret null_iter
     else cbind (load_map mp) (\<lambda>m.
       cbind (mem_p tb (entries_mh m)) (\<lambda>first.
       cbind (load_entry first 0) (\<lambda>e.
       let it = \<lparr>it_mh = mh, it_pos = 0, it_value = value_handle e\<rparr>
       in cbind (mem_p tb (value_handle e)) (\<lambda>vp.
          if vp = NULL then map_next_value_iter tb it else ret it)))))"

definition map_iter_done :: "table_ops \<Rightarrow> map_iter \<Rightarrow> bool prog" where
  "map_iter_done tb it = cbind (mem_p tb (it_value it)) (\<lambda>vp. ret (vp = NULL))"

definition map_iter_value :: "map_iter \<Rightarrow> mem_handle" where
  "map_iter_value it = it_value it"

end
