(* ===== verification/Ds_Memtbl.thy ===== *)
theory Ds_Memtbl
  imports Ds_Map
begin

text \<open>
  The memory table of memtbl.h and memtbl.c: an allocator that keeps every allocation it made in
  a map keyed by address, so that destroying the table frees what the client did not. The
  allocator functions of this file are reached from mem.c through function pointers;
  \<open>memtbl_ops n\<close> is that function table for memory tables nested at most \<open>n\<close> deep (a memory
  table may be the allocator of another one).
\<close>

definition memtbl_create :: "table_ops \<Rightarrow> mem_allocator \<Rightarrow> mem_handle prog" where
  "memtbl_create tb allocator =
     cbind (mem_alloc tb allocator sizeof_memtbl) (\<lambda>mthandle.
     if \<not> mem_is_valid mthandle then ret null_handle
     else cbind (mem_p tb mthandle) (\<lambda>tblp.
       cbind (map_create tb allocator) (\<lambda>mh.
       cbind (update_memtbl tblp (\<lambda>t. t\<lparr>mem_map_handle := mh\<rparr>)) (\<lambda>_.
       cbind (load_memtbl tblp) (\<lambda>t.
       if \<not> mem_is_valid (mem_map_handle t)
       then cbind (mem_free tb mthandle) (\<lambda>_. ret null_handle)
       else ret mthandle)))))"

definition memtbl_is_valid :: "table_ops \<Rightarrow> mem_handle \<Rightarrow> bool prog" where
  "memtbl_is_valid tb mthandle =
     (if \<not> mem_is_valid mthandle then ret False
      else cbind (mem_p tb mthandle) (\<lambda>tblp.
        cbind (load_memtbl tblp) (\<lambda>t. map_is_valid tb (mem_map_handle t))))"

text \<open>
  The iteration of memtbl_destroy visits increasing positions of a table that never grows, so
  the size of the table before the loop bounds the number of rounds.
\<close>

definition iteration_bound :: "table_ops \<Rightarrow> mem_handle \<Rightarrow> nat prog" where
  "iteration_bound tb mh =
     cbind (mem_p tb mh) (\<lambda>mp.
     if mp = NULL then ret 1
     else cbind (load_map mp) (\<lambda>m. ret (Suc (unat (table_size m)))))"

fun destroy_loop :: "table_ops \<Rightarrow> nat \<Rightarrow> map_iter \<Rightarrow> unit prog" where
  "destroy_loop tb 0 it = raise Out_of_fuel"
| "destroy_loop tb (Suc fuel) it =
     cbind (map_iter_done tb it) (\<lambda>finished.
     if finished then ret ()
     else cbind (mem_free tb (map_iter_value it)) (\<lambda>_.
       cbind (map_next_value_iter tb it) (\<lambda>it. destroy_loop tb fuel it)))"

definition memtbl_destroy :: "table_ops \<Rightarrow> mem_handle \<Rightarrow> unit prog" where
  "memtbl_destroy tb mthandle =
     cbind (memtbl_is_valid tb mthandle) (\<lambda>ok.
     if \<not> ok then ret ()
     else cbind (mem_p tb mthandle) (\<lambda>mtp.
       cbind (load_memtbl mtp) (\<lambda>t.
       cbind (iteration_bound tb (mem_map_handle t)) (\<lambda>fuel.
       cbind (map_first_value_iter tb (mem_map_handle t)) (\<lambda>it.
       cbind (destroy_loop tb fuel it) (\<lambda>_.
       cbind (load_memtbl mtp) (\<lambda>t.
       cbind (map_destroy tb (mem_map_handle t)) (\<lambda>_.
       cbind (mem_free tb mthandle) (\<lambda>_. ret ())))))))))"

section \<open>The allocator functions\<close>

text \<open>The map of the table behind \<open>tblp\<close>; None when there is no table or its map is invalid.\<close>

definition table_map :: "ptr \<Rightarrow> mem_handle option prog" where
  "table_map tblp =
     (if tblp = NULL then ret None
      else cbind (load_memtbl tblp) (\<lambda>t.
        ret (if mem_is_valid (mem_map_handle t) then Some (mem_map_handle t) else None)))"

definition memtbl_alloc :: "table_ops \<Rightarrow> mem_allocator \<Rightarrow> size_t \<Rightarrow> mem_handle prog" where
  "memtbl_alloc tb allocator n =
     cbind (table_map (allocator_data allocator)) (\<lambda>tm. case tm of
       None \<Rightarrow> ret null_handle
     | Some mh \<Rightarrow>
         cbind (malloc n) (\<lambda>data.
         if data = NULL then ret null_handle
         else
           let result = \<lparr>h_data = data, h_size = n, h_alloc = allocator\<rparr>
           in cbind (map_set_ptr tb mh data result) (\<lambda>mapset_success.
              if \<not> mapset_success then cbind (free data) (\<lambda>_. ret null_handle)
              else ret result)))"

definition memtbl_p :: "table_ops \<Rightarrow> mem_handle \<Rightarrow> ptr prog" where
  "memtbl_p tb handle =
     (if \<not> mem_is_valid handle then ret NULL
      else cbind (table_map (allocator_data (h_alloc handle))) (\<lambda>tm. case tm of
        None \<Rightarrow> ret NULL
      | Some mh \<Rightarrow>
          cbind (map_get_ptr tb mh (h_data handle)) (\<lambda>result. ret (h_data result))))"

text \<open>
  Inside memtbl_realloc and memtbl_free the call mem_p(handle) goes through the function table
  of the handle's own allocator; \<open>self\<close> is that function.
\<close>

definition self_p :: "table_ops \<Rightarrow> mem_handle \<Rightarrow> ptr prog" where
  "self_p tb handle = mem_p (tb\<lparr>tbl_p := memtbl_p tb\<rparr>) handle"

definition memtbl_realloc :: "table_ops \<Rightarrow> mem_handle \<Rightarrow> size_t \<Rightarrow> mem_handle prog" where
  "memtbl_realloc tb handle n =
     (if \<not> mem_is_valid handle then ret null_handle
      else cbind (table_map (allocator_data (h_alloc handle))) (\<lambda>tm. case tm of
        None \<Rightarrow> ret null_handle
      | Some mh \<Rightarrow>
          cbind (self_p tb handle) (\<lambda>old_data.
          cbind (realloc old_data n) (\<lambda>new_data.
          if new_data = NULL then ret null_handle
          else
            let result = \<lparr>h_data = new_data, h_size = n, h_alloc = h_alloc handle\<rparr>
            in if new_data \<noteq> old_data
               then cbind (map_set_ptr tb mh new_data result) (\<lambda>ok.
                 cbind (if \<not> ok then ret False else map_delete_ptr tb mh old_data) (\<lambda>ok.
                 if \<not> ok then cbind (free new_data) (\<lambda>_. ret null_handle)
                 else ret result))
               else ret result))))"

definition memtbl_free :: "table_ops \<Rightarrow> mem_handle \<Rightarrow> mem_handle prog" where
  "memtbl_free tb handle =
     (if \<not> mem_is_valid handle then ret null_handle
      else cbind (table_map (allocator_data (h_alloc handle))) (\<lambda>tm. case tm of
        None \<Rightarrow> ret null_handle
      | Some mh \<Rightarrow>
          cbind (self_p tb handle) (\<lambda>data.
          cbind (map_delete_ptr tb mh data) (\<lambda>_.
          cbind (free data) (\<lambda>_. ret null_handle)))))"

definition MEMTBL_ALLOCATOR_SPEC :: mem_allocator_spec where
  "MEMTBL_ALLOCATOR_SPEC =
     \<lparr>allocator_type = MEM_ALLOCATOR_TYPE_MEMTBL, alloc_func = Some Memtbl_fn,
      realloc_func = Some Memtbl_fn, free_func = Some Memtbl_fn, p_func = Some Memtbl_p\<rparr>"

definition mem_allocator_memtbl :: "mem_handle \<Rightarrow> mem_allocator" where
  "mem_allocator_memtbl mth =
     \<lparr>allocator_spec = Some MEMTBL_ALLOCATOR_SPEC, allocator_data = h_data mth\<rparr>"

primrec memtbl_ops :: "nat \<Rightarrow> table_ops" where
  "memtbl_ops 0 =
     \<lparr>tbl_alloc = (\<lambda>_ _. raise Out_of_fuel), tbl_realloc = (\<lambda>_ _. raise Out_of_fuel),
      tbl_free = (\<lambda>_. raise Out_of_fuel), tbl_p = (\<lambda>_. raise Out_of_fuel)\<rparr>"
| "memtbl_ops (Suc n) =
     \<lparr>tbl_alloc = memtbl_alloc (memtbl_ops n), tbl_realloc = memtbl_realloc (memtbl_ops n),
      tbl_free = memtbl_free (memtbl_ops n), tbl_p = memtbl_p (memtbl_ops n)\<rparr>"

declare memtbl_ops.simps [simp del]

end
