(* ===== verification/Ds_Str.thy ===== *)
theory Ds_Str
  imports Ds_Mem
begin

text \<open>
  The string references of str.h and str.c. A str is a handle to characters in memory; the
  searching, comparing and splitting functions read those characters through pointers. Loop
  counters are unsigned int, as in the source, while sizes are size_t: a loop whose counter can
  wrap has fuel for one pass over the characters, and running out of it means the source loops
  for ever. An out parameter is passed in and returned next to the result.
\<close>

section \<open>Construction, duplication, destruction\<close>

definition str_is_valid :: "mem_handle \<Rightarrow> bool" where
  "str_is_valid strval = mem_is_valid strval"

definition str_length :: "mem_handle \<Rightarrow> size_t" where
  "str_length strval = h_size strval"

definition str_from_cstr :: "ptr \<Rightarrow> mem_handle prog" where
  "str_from_cstr cstr = cbind (strlen cstr) (\<lambda>n. ret (mem_handle_from_ptr cstr n))"

definition str_duplicate_cstr_with_allocator ::
  "table_ops \<Rightarrow> ptr \<Rightarrow> mem_allocator \<Rightarrow> mem_handle prog" where
  "str_duplicate_cstr_with_allocator tb cstr allocator =
     (if cstr = NULL then ret null_handle
      else cbind (str_from_cstr cstr) (\<lambda>hdl. mem_duplicate_with_allocator tb allocator hdl))"

definition str_duplicate_str_with_allocator ::
  "table_ops \<Rightarrow> mem_handle \<Rightarrow> mem_allocator \<Rightarrow> mem_handle prog" where
  "str_duplicate_str_with_allocator tb strval allocator =
     mem_duplicate_with_allocator tb allocator strval"

definition str_duplicate_str :: "table_ops \<Rightarrow> mem_handle \<Rightarrow> mem_handle prog" where
  "str_duplicate_str tb strval =
     (if \<not> str_is_valid strval then ret null_handle
      else case allocator_spec (h_alloc strval) of
        None \<Rightarrow> raise Null_deref
      | Some sp \<Rightarrow>
          if allocator_type sp = MEM_ALLOCATOR_TYPE_NOT_ALLOCATED
          then str_duplicate_str_with_allocator tb strval MEM_ALLOCATOR_PLAIN
          else str_duplicate_str_with_allocator tb strval (h_alloc strval))"

definition str_destroy :: "table_ops \<Rightarrow> mem_handle \<Rightarrow> unit prog" where
  "str_destroy tb strval = cbind (mem_free tb strval) (\<lambda>_. ret ())"

section \<open>Copies with a terminator\<close>

definition str_write_cstr_to_buf ::
  "table_ops \<Rightarrow> mem_handle \<Rightarrow> ptr \<Rightarrow> size_t \<Rightarrow> mem_handle prog" where
  "str_write_cstr_to_buf tb strval buf bufsize =
     (if \<not> str_is_valid strval \<or> buf = NULL then ret null_handle
      else
        let size_to_copy = (if h_size strval < bufsize - 1 then h_size strval else bufsize - 1)
        in cbind (mem_p tb strval) (\<lambda>p.
           cbind (memcpy buf p size_to_copy) (\<lambda>_.
           cbind (store_bytes (ptr_add buf (unat size_to_copy)) [Some 0]) (\<lambda>_.
           ret (mem_handle_from_ptr buf size_to_copy)))))"

definition STR_CSTR_BUFSIZE :: size_t where
  "STR_CSTR_BUFSIZE = 1024"

definition str_cstr :: "table_ops \<Rightarrow> mem_handle \<Rightarrow> ptr prog" where
  "str_cstr tb strval =
     (if \<not> str_is_valid strval then ret NULL
      else (\<lambda>s.
        cbind (str_write_cstr_to_buf tb strval (str_cstr_buffer s) STR_CSTR_BUFSIZE)
          (\<lambda>_. ret (str_cstr_buffer s)) s))"

section \<open>Searching and comparing\<close>

function match_offset ::
  "ptr \<Rightarrow> uint \<Rightarrow> ptr \<Rightarrow> size_t \<Rightarrow> size_t \<Rightarrow> size_t prog" where
  "match_offset strval_p start_i substring_p n offset =
     (if offset < n
      then cbind (load_byte (ptr_add strval_p (unat (ucast start_i + offset)))) (\<lambda>a.
           cbind (load_byte (ptr_add substring_p (unat offset))) (\<lambda>b.
           if a = b then match_offset strval_p start_i substring_p n (offset + 1)
           else ret offset))
      else ret offset)"
  by pat_completeness auto
termination
  by (relation "measure (\<lambda>(_, _, _, n, offset). unat n - unat offset)") auto

declare match_offset.simps [simp del]

text \<open>The result is an int: the start position, or -1.\<close>

fun str_find_loop :: "nat \<Rightarrow> ptr \<Rightarrow> ptr \<Rightarrow> size_t \<Rightarrow> size_t \<Rightarrow> uint \<Rightarrow> uint prog" where
  "str_find_loop 0 strval_p substring_p limit n start_i = raise Out_of_fuel"
| "str_find_loop (Suc fuel) strval_p substring_p limit n start_i =
     (if ucast start_i < limit
      then cbind (match_offset strval_p start_i substring_p n 0) (\<lambda>offset.
        if offset = n then ret start_i
        else str_find_loop fuel strval_p substring_p limit n (start_i + 1))
      else ret (- 1))"

definition str_find :: "table_ops \<Rightarrow> mem_handle \<Rightarrow> mem_handle \<Rightarrow> uint prog" where
  "str_find tb strval substring =
     (if \<not> str_is_valid strval \<or> \<not> str_is_valid substring then ret (- 1)
      else if h_size strval < h_size substring then ret (- 1)
      else cbind (mem_p tb strval) (\<lambda>strval_p.
        cbind (mem_p tb substring) (\<lambda>substring_p.
        let limit = h_size strval - h_size substring + 1
        in str_find_loop (Suc (unat limit)) strval_p substring_p limit (h_size substring) 0)))"

function common_prefix :: "ptr \<Rightarrow> ptr \<Rightarrow> uint \<Rightarrow> uint \<Rightarrow> uint prog" where
  "common_prefix first_p second_p min_length i =
     (if i < min_length
      then cbind (load_byte (ptr_add first_p (unat i))) (\<lambda>a.
           cbind (load_byte (ptr_add second_p (unat i))) (\<lambda>b.
           if a = b then common_prefix first_p second_p min_length (i + 1) else ret i))
      else ret i)"
  by pat_completeness auto
termination
  by (relation "measure (\<lambda>(_, _, n, i). unat n - unat i)") auto

declare common_prefix.simps [simp del]

definition str_compare :: "table_ops \<Rightarrow> mem_handle \<Rightarrow> mem_handle \<Rightarrow> int prog" where
  "str_compare tb first second =
     (if \<not> str_is_valid first \<and> \<not> str_is_valid second then ret 0
      else if \<not> str_is_valid first then ret (- 1)
      else if \<not> str_is_valid second then ret 1
      else cbind (mem_p tb first) (\<lambda>first_p.
        cbind (mem_p tb second) (\<lambda>second_p.
        let min_length =
              (ucast (if h_size first < h_size second then h_size first else h_size second) :: uint)
        in cbind (common_prefix first_p second_p min_length 0) (\<lambda>i.
           if ucast i = h_size first
           then (if h_size first = h_size second then ret 0 else ret (- 1))
           else if ucast i = h_size second then ret 1
           else cbind (load_byte (ptr_add first_p (unat i))) (\<lambda>a.
             cbind (load_byte (ptr_add second_p (unat i))) (\<lambda>b.
             if sint a < sint b then ret (- 1) else ret 1))))))"

section \<open>Splitting\<close>

text \<open>A pointer moved by a signed amount; before the start of the block is out of bounds.\<close>

definition ptr_addi :: "ptr \<Rightarrow> int \<Rightarrow> ptr prog" where
  "ptr_addi p i =
     (if int (poff p) + i < 0 then raise Out_of_bounds
      else ret (Ptr (pbase p) (nat (int (poff p) + i))))"

definition str_split_pop ::
  "table_ops \<Rightarrow> mem_handle \<Rightarrow> mem_handle \<Rightarrow> mem_handle \<Rightarrow> (mem_handle \<times> mem_handle) prog" where
  "str_split_pop tb strval delim part =
     (if \<not> str_is_valid strval \<or> \<not> str_is_valid delim then ret (null_handle, part)
      else cbind (str_find tb strval delim) (\<lambda>pos.
        cbind (mem_p tb strval) (\<lambda>strval_p.
        if pos = - 1
        then ret (null_handle, mem_handle_from_ptr strval_p (h_size strval))
        else cbind (ptr_addi strval_p (sint pos + uint (h_size delim))) (\<lambda>rest_p.
          ret (mem_handle_from_ptr rest_p (h_size strval - scast pos - h_size delim),
               mem_handle_from_ptr strval_p (scast pos))))))"

text \<open>\<open>scan_while w\<close>: advance over whitespace (\<open>w\<close>) or over other characters.\<close>

fun scan_while :: "bool \<Rightarrow> nat \<Rightarrow> ptr \<Rightarrow> size_t \<Rightarrow> uint \<Rightarrow> uint prog" where
  "scan_while w 0 p n i = raise Out_of_fuel"
| "scan_while w (Suc fuel) p n i =
     (if ucast i < n
      then cbind (load_byte (ptr_add p (unat i))) (\<lambda>c.
           cbind (isspace c) (\<lambda>sp.
           if sp = w then scan_while w fuel p n (i + 1) else ret i))
      else ret i)"

definition str_split_whitespace_pop ::
  "table_ops \<Rightarrow> mem_handle \<Rightarrow> mem_handle \<Rightarrow> (mem_handle \<times> mem_handle) prog" where
  "str_split_whitespace_pop tb strval part =
     (if \<not> str_is_valid strval then ret (null_handle, part)
      else cbind (mem_p tb strval) (\<lambda>strval_p.
        let n = str_length strval; fuel = Suc (unat n)
        in cbind (load_byte strval_p) (\<lambda>c0.
           cbind (isspace c0) (\<lambda>sp0.
           cbind (if sp0 then scan_while True fuel strval_p n 0 else ret 0) (\<lambda>start.
           cbind (scan_while False fuel strval_p n start) (\<lambda>pos.
           let part1 = mem_handle_from_ptr (ptr_add strval_p (unat start)) (ucast (pos - start))
           in cbind (scan_while True fuel strval_p n pos) (\<lambda>pos.
              if ucast pos = h_size strval then ret (null_handle, part1)
              else ret (mem_handle_from_ptr (ptr_add strval_p (unat pos))
                          (h_size strval - ucast pos), part1))))))))"

end
