(* ===== verification/Ds_Strbuf.thy ===== *)
theory Ds_Strbuf
  imports Ds_Str
begin

text \<open>
  The growing string buffer of str.h and str.c: a strbuf structure in allocated memory that
  owns a second allocation for its characters. The growth loop doubles the buffer until the
  text fits; it has fuel for the 64 doublings after which the size has wrapped to zero.
\<close>

definition strbuf_is_valid :: "table_ops \<Rightarrow> mem_handle \<Rightarrow> bool prog" where
  "strbuf_is_valid tb buf_handle =
     (if \<not> mem_is_valid buf_handle then ret False
      else cbind (mem_p tb buf_handle) (\<lambda>bufp.
        cbind (load_strbuf bufp) (\<lambda>b. ret (mem_is_valid (sb_data b)))))"

definition strbuf_create :: "table_ops \<Rightarrow> mem_allocator \<Rightarrow> size_t \<Rightarrow> mem_handle prog" where
  "strbuf_create tb allocator n =
     cbind (mem_alloc tb allocator sizeof_strbuf) (\<lambda>bufhdl.
     if \<not> mem_is_valid bufhdl then ret null_handle
     else cbind (mem_alloc_clear tb allocator n) (\<lambda>data.
       if \<not> mem_is_valid data then cbind (mem_free tb bufhdl) (\<lambda>_. ret null_handle)
       else cbind (mem_p tb bufhdl) (\<lambda>bufp.
         cbind (update_strbuf bufp (\<lambda>b. b\<lparr>sb_data := data\<rparr>)) (\<lambda>_.
         cbind (update_strbuf bufp (\<lambda>b. b\<lparr>sb_length := 0\<rparr>)) (\<lambda>_.
         ret bufhdl)))))"

definition strbuf_destroy :: "table_ops \<Rightarrow> mem_handle \<Rightarrow> unit prog" where
  "strbuf_destroy tb buf_handle =
     cbind (strbuf_is_valid tb buf_handle) (\<lambda>ok.
     if \<not> ok then ret ()
     else cbind (mem_p tb buf_handle) (\<lambda>bufp.
       cbind (load_strbuf bufp) (\<lambda>b.
       cbind (mem_free tb (sb_data b)) (\<lambda>_.
       cbind (mem_free tb buf_handle) (\<lambda>_. ret ())))))"

definition strbuf_str :: "table_ops \<Rightarrow> mem_handle \<Rightarrow> mem_handle prog" where
  "strbuf_str tb buf_handle =
     (if \<not> mem_is_valid buf_handle then ret null_handle
      else cbind (mem_p tb buf_handle) (\<lambda>bufp.
        cbind (load_strbuf bufp) (\<lambda>b.
        ret ((sb_data b)\<lparr>h_size := sb_length b, h_alloc := MEM_ALLOCATOR_NOT_ALLOCATED\<rparr>))))"

definition strbuf_reset :: "table_ops \<Rightarrow> mem_handle \<Rightarrow> unit prog" where
  "strbuf_reset tb buf_handle =
     (if \<not> mem_is_valid buf_handle then ret ()
      else cbind (mem_p tb buf_handle) (\<lambda>bufp. update_strbuf bufp (\<lambda>b. b\<lparr>sb_length := 0\<rparr>)))"

definition str_duplicate_strbuf_with_allocator ::
  "table_ops \<Rightarrow> mem_handle \<Rightarrow> mem_allocator \<Rightarrow> mem_handle prog" where
  "str_duplicate_strbuf_with_allocator tb buf_handle allocator =
     cbind (strbuf_is_valid tb buf_handle) (\<lambda>ok.
     if \<not> ok then ret null_handle
     else cbind (mem_p tb buf_handle) (\<lambda>bufp.
       cbind (load_strbuf bufp) (\<lambda>b.
       mem_duplicate_with_allocator tb allocator ((sb_data b)\<lparr>h_size := sb_length b\<rparr>))))"

definition str_duplicate_strbuf :: "table_ops \<Rightarrow> mem_handle \<Rightarrow> mem_handle prog" where
  "str_duplicate_strbuf tb buf_handle =
     str_duplicate_strbuf_with_allocator tb buf_handle (h_alloc buf_handle)"

section \<open>Growth and concatenation\<close>

definition grow_strbuf :: "table_ops \<Rightarrow> mem_handle \<Rightarrow> bool prog" where
  "grow_strbuf tb buf_handle =
     cbind (mem_p tb buf_handle) (\<lambda>bufp.
     cbind (load_strbuf bufp) (\<lambda>b.
     let newsize = h_size (sb_data b) * 2
     in cbind (mem_realloc tb (sb_data b) newsize) (\<lambda>data.
        cbind (update_strbuf bufp (\<lambda>b. b\<lparr>sb_data := data\<rparr>)) (\<lambda>_.
        ret (mem_is_valid data)))))"

fun grow_loop :: "table_ops \<Rightarrow> nat \<Rightarrow> mem_handle \<Rightarrow> ptr \<Rightarrow> size_t \<Rightarrow> bool prog" where
  "grow_loop tb 0 buf_handle destbufp n = raise Out_of_fuel"
| "grow_loop tb (Suc fuel) buf_handle destbufp n =
     cbind (load_strbuf destbufp) (\<lambda>b.
     if h_size (sb_data b) < sb_length b + n
     then cbind (grow_strbuf tb buf_handle) (\<lambda>ok.
       if \<not> ok then ret False else grow_loop tb fuel buf_handle destbufp n)
     else ret True)"

definition GROW_FUEL :: nat where
  "GROW_FUEL = 66"

text \<open>The text to append: characters behind a pointer, or the address of a local char.\<close>

datatype csource = From_ptr ptr | Local_char byte

fun copy_source :: "ptr \<Rightarrow> csource \<Rightarrow> size_t \<Rightarrow> unit prog" where
  "copy_source d (From_ptr p) n = memcpy d p n"
| "copy_source d (Local_char c) n = store_bytes d [Some c]"

definition do_strbuf_concatenate ::
  "table_ops \<Rightarrow> mem_handle \<Rightarrow> csource \<Rightarrow> size_t \<Rightarrow> bool prog" where
  "do_strbuf_concatenate tb buf_handle src n =
     cbind (strbuf_is_valid tb buf_handle) (\<lambda>ok.
     if \<not> ok then ret False
     else cbind (mem_p tb buf_handle) (\<lambda>destbufp.
       cbind (grow_loop tb GROW_FUEL buf_handle destbufp n) (\<lambda>grown.
       if \<not> grown then ret False
       else cbind (load_strbuf destbufp) (\<lambda>b.
         cbind (mem_p tb (sb_data b)) (\<lambda>bufstart.
         cbind (copy_source (ptr_add bufstart (unat (sb_length b))) src n) (\<lambda>_.
         cbind (update_strbuf destbufp (\<lambda>b. b\<lparr>sb_length := sb_length b + n\<rparr>)) (\<lambda>_.
         ret True)))))))"

definition strbuf_concatenate_char :: "table_ops \<Rightarrow> mem_handle \<Rightarrow> byte \<Rightarrow> bool prog" where
  "strbuf_concatenate_char tb buf_handle c =
     do_strbuf_concatenate tb buf_handle (Local_char c) 1"

definition strbuf_concatenate_cstr :: "table_ops \<Rightarrow> mem_handle \<Rightarrow> ptr \<Rightarrow> bool prog" where
  "strbuf_concatenate_cstr tb buf_handle cstr =
     (if cstr = NULL then ret False
      else cbind (strlen cstr) (\<lambda>n. do_strbuf_concatenate tb buf_handle (From_ptr cstr) n))"

definition strbuf_concatenate_str :: "table_ops \<Rightarrow> mem_handle \<Rightarrow> mem_handle \<Rightarrow> bool prog" where
  "strbuf_concatenate_str tb buf_handle strval =
     (if \<not> str_is_valid strval then ret False
      else cbind (mem_p tb strval) (\<lambda>p.
        do_strbuf_concatenate tb buf_handle (From_ptr p) (h_size strval)))"

definition strbuf_concatenate_strbuf ::
  "table_ops \<Rightarrow> mem_handle \<Rightarrow> mem_handle \<Rightarrow> bool prog" where
  "strbuf_concatenate_strbuf tb buf_handle sourcebuf_handle =
     cbind (strbuf_is_valid tb sourcebuf_handle) (\<lambda>ok.
     if \<not> ok then ret False
     else cbind (mem_p tb sourcebuf_handle) (\<lambda>sourcebufp.
       cbind (load_strbuf sourcebufp) (\<lambda>b.
       cbind (mem_p tb (sb_data b)) (\<lambda>p.
       do_strbuf_concatenate tb buf_handle (From_ptr p) (sb_length b)))))"

text \<open>
  \<open>out\<close> is what vsnprintf produces for the format and its arguments: the characters without
  the terminator, or None when it reports an encoding error (its result is then -1, as it is
  for an output whose length an int cannot represent). Its result is an int of 32 bits, and the
  addition of 1 is made in that type: at the largest int it overflows, which C leaves undefined.
\<close>

definition vsnprintf_length :: "byte list option \<Rightarrow> int" where
  "vsnprintf_length out =
     (case out of None \<Rightarrow> - 1 | Some cs \<Rightarrow> if length cs < 2 ^ 31 then int (length cs) else - 1)"

definition int_plus_one :: "int \<Rightarrow> int prog" where
  "int_plus_one i = (if i < 2 ^ 31 - 1 then ret (i + 1) else raise Int_overflow)"

definition vsnprintf_write :: "ptr \<Rightarrow> size_t \<Rightarrow> byte list option \<Rightarrow> unit prog" where
  "vsnprintf_write p n out =
     (case out of
        None \<Rightarrow> ret ()
      | Some cs \<Rightarrow>
          if n = 0 then ret ()
          else store_bytes p (map Some (take (unat n - 1) cs) @ [Some 0]))"

definition strbuf_concatenate_printf ::
  "table_ops \<Rightarrow> mem_handle \<Rightarrow> ptr \<Rightarrow> byte list option \<Rightarrow> bool prog" where
  "strbuf_concatenate_printf tb buf_handle fmt out =
     cbind (strbuf_is_valid tb buf_handle) (\<lambda>ok.
     if \<not> ok \<or> fmt = NULL then ret False
     else cbind (mem_p tb buf_handle) (\<lambda>destbufp.
       cbind (int_plus_one (vsnprintf_length out)) (\<lambda>len.
       let n = (word_of_int len :: size_t)
       in cbind (grow_loop tb GROW_FUEL buf_handle destbufp n) (\<lambda>grown.
          if \<not> grown then ret False
          else cbind (load_strbuf destbufp) (\<lambda>b.
            cbind (mem_p tb (sb_data b)) (\<lambda>bufstart.
            cbind (vsnprintf_write (ptr_add bufstart (unat (sb_length b))) n out) (\<lambda>_.
            cbind (update_strbuf destbufp
                     (\<lambda>b. b\<lparr>sb_length := sb_length b + (n - 1)\<rparr>)) (\<lambda>_.
            ret True))))))))"

definition strbuf_duplicate :: "table_ops \<Rightarrow> mem_handle \<Rightarrow> mem_handle prog" where
  "strbuf_duplicate tb buf_handle =
     cbind (strbuf_is_valid tb buf_handle) (\<lambda>ok.
     if \<not> ok then ret null_handle
     else cbind (mem_p tb buf_handle) (\<lambda>bufp.
       cbind (load_strbuf bufp) (\<lambda>b.
       cbind (strbuf_create tb (h_alloc buf_handle) (h_size (sb_data b))) (\<lambda>new_handle.
       cbind (strbuf_is_valid tb new_handle) (\<lambda>ok.
       if \<not> ok then ret null_handle
       else cbind (strbuf_concatenate_strbuf tb new_handle buf_handle) (\<lambda>ok.
         if \<not> ok then cbind (str_destroy tb new_handle) (\<lambda>_. ret null_handle)
         else ret new_handle))))))"

end
