(* ===== verification/Ds_Sigint.thy ===== *)
theory Ds_Sigint
  imports Ds_Memtbl Ds_Strbuf
begin

text \<open>
  The SIGINT discipline of the whole library: every function that calls the system allocator does
  so with SIGINT ignored, and leaves the handler as it found it. The proof follows the structure
  of the code: the relation \<open>quiet\<close> is reflexive and transitive, so it passes through sequences,
  branches and loops, and the guard of mem.c establishes it for the allocator functions.
\<close>

lemma evolves_return [evolves_rules]: "reflp R \<Longrightarrow> evolves R (\<lambda>s. Inr (x, s))"
  by (simp add: evolves_def reflpD)

lemma quiet_isspace [evolves_rules]: "evolves quiet (isspace c)"
  by (simp add: isspace_def evolves_rules)

lemma quiet_ptr_addi [evolves_rules]: "evolves quiet (ptr_addi p i)"
  by (simp add: ptr_addi_def evolves_rules)

lemma quiet_hash_str_loop: "table_ops_quiet tb \<Longrightarrow> evolves quiet (hash_str_loop tb n key i h)"
  by (induction n arbitrary: i h) (simp_all add: evolves_rules)

lemma quiet_copy_entries: "evolves quiet (copy_entries p q n nts i)"
proof (induction "unat n - unat i" arbitrary: i rule: less_induct)
  case less
  show ?case
    by (subst copy_entries.simps) (auto intro!: evolves_rules less)
qed

lemma quiet_find_entry_loop: "evolves quiet (find_entry_loop n p ts k st pos)"
  by (induction n arbitrary: pos) (auto simp: Let_def intro!: evolves_rules)

lemma quiet_next_value_pos: "table_ops_quiet tb \<Longrightarrow> evolves quiet (next_value_pos tb p ts i)"
proof (induction "unat ts - unat i" arbitrary: i rule: less_induct)
  case less
  show ?case
    by (subst next_value_pos.simps) (auto intro!: evolves_rules less)
qed

lemma quiet_new_size: "evolves quiet (new_size ts g)"
  by (simp add: new_size_def evolves_rules)

lemmas quiet_loops = quiet_hash_str_loop quiet_copy_entries quiet_find_entry_loop
  quiet_next_value_pos quiet_new_size

lemma quiet_map_basic [evolves_rules]:
  assumes "table_ops_quiet tb"
  shows "evolves quiet (map_create tb a)" "evolves quiet (map_is_valid tb h)"
    "evolves quiet (map_destroy tb h)" "evolves quiet (hash_str tb h)"
    "evolves quiet (resize_entries_table tb h g)" "evolves quiet (find_entry_pos tb h k)"
  using assms
  by (auto simp: map_create_def map_is_valid_def map_destroy_def hash_str_def
      resize_entries_table_def find_entry_pos_def Let_def intro!: evolves_rules quiet_loops)

lemma quiet_map_do [evolves_rules]:
  assumes "table_ops_quiet tb"
  shows "evolves quiet (do_set tb h k v)" "evolves quiet (do_get tb h k)"
    "evolves quiet (do_delete tb h k)"
  using assms by (auto simp: do_set_def do_get_def do_delete_def intro!: evolves_rules)

lemma quiet_map_public [evolves_rules]:
  assumes "table_ops_quiet tb"
  shows "evolves quiet (map_set_str tb h k v)" "evolves quiet (map_set_ptr tb h p v)"
    "evolves quiet (map_get_str tb h k)" "evolves quiet (map_get_ptr tb h p)"
    "evolves quiet (map_delete_str tb h k)" "evolves quiet (map_delete_ptr tb h p)"
  using assms
  by (auto simp: map_set_str_def map_set_ptr_def map_get_str_def map_get_ptr_def
      map_delete_str_def map_delete_ptr_def intro!: evolves_rules)

lemma quiet_map_iter [evolves_rules]:
  assumes "table_ops_quiet tb"
  shows "evolves quiet (map_next_value_iter tb it)" "evolves quiet (map_first_value_iter tb h)"
    "evolves quiet (map_iter_done tb it)"
  using assms
  by (auto simp: map_next_value_iter_def map_first_value_iter_def map_iter_done_def Let_def
      intro!: evolves_rules quiet_loops)

section \<open>Memory tables\<close>

lemma quiet_destroy_loop [evolves_rules]:
  "table_ops_quiet tb \<Longrightarrow> evolves quiet (destroy_loop tb n it)"
  by (induction n arbitrary: it) (auto intro!: evolves_rules)

lemma quiet_table_map [evolves_rules]: "evolves quiet (table_map p)"
  by (auto simp: table_map_def intro!: evolves_rules)

lemma quiet_memtbl [evolves_rules]:
  assumes "table_ops_quiet tb"
  shows "evolves quiet (memtbl_create tb a)" "evolves quiet (memtbl_is_valid tb h)"
    "evolves quiet (memtbl_destroy tb h)" "evolves quiet (memtbl_p tb h)"
  using assms
  by (auto simp: memtbl_create_def memtbl_is_valid_def memtbl_destroy_def memtbl_p_def
      iteration_bound_def Let_def intro!: evolves_rules)

text \<open>
  The allocator functions of memtbl.c call malloc, realloc and free directly: they are quiet when
  they run inside the guard, which is the only way mem.c reaches them.
\<close>

lemma quiet_inside_memtbl:
  assumes q: "table_ops_quiet tb"
  shows "evolves quiet_inside (memtbl_alloc tb a n)" "evolves quiet_inside (memtbl_realloc tb h n)"
    "evolves quiet_inside (memtbl_free tb h)"
proof -
  have self: "table_ops_quiet (tb\<lparr>tbl_p := memtbl_p tb\<rparr>)"
    using q quiet_memtbl(4) [OF q] by (simp add: table_ops_quiet_def)
  note inside = quiet_map_public [OF q, THEN quiet_imp_inside] quiet_table_map [THEN quiet_imp_inside]
    quiet_mem_ops(4) [OF self, THEN quiet_imp_inside] quiet_inside_malloc quiet_inside_free
    quiet_inside_realloc
  show "evolves quiet_inside (memtbl_alloc tb a n)" "evolves quiet_inside (memtbl_realloc tb h n)"
      "evolves quiet_inside (memtbl_free tb h)"
    by (auto simp: memtbl_alloc_def memtbl_realloc_def memtbl_free_def self_p_def Let_def
        intro!: evolves_cbind evolves_if evolves_option evolves_ret evolves_return inside)
qed

lemma table_ops_quiet_memtbl_ops [simp]: "table_ops_quiet (memtbl_ops d)"
proof (induction d)
  case 0
  then show ?case by (simp add: table_ops_quiet_def memtbl_ops.simps evolves_raise)
next
  case (Suc d)
  then show ?case
    using quiet_inside_memtbl [OF Suc] quiet_memtbl(4) [OF Suc]
    by (simp add: table_ops_quiet_def memtbl_ops.simps)
qed

section \<open>Strings and string buffers\<close>

lemma quiet_match_offset [evolves_rules]: "evolves quiet (match_offset p i q n k)"
proof (induction "unat n - unat k" arbitrary: k rule: less_induct)
  case less
  show ?case by (subst match_offset.simps) (auto intro!: evolves_rules less)
qed

lemma quiet_common_prefix [evolves_rules]: "evolves quiet (common_prefix p q n i)"
proof (induction "unat n - unat i" arbitrary: i rule: less_induct)
  case less
  show ?case by (subst common_prefix.simps) (auto intro!: evolves_rules less)
qed

lemma quiet_str_find_loop [evolves_rules]: "evolves quiet (str_find_loop f p q l n i)"
  by (induction f arbitrary: i) (auto intro!: evolves_rules)

lemma quiet_scan_while [evolves_rules]: "evolves quiet (scan_while w f p n i)"
  by (induction f arbitrary: i) (auto intro!: evolves_rules)

lemma quiet_str [evolves_rules]:
  assumes "table_ops_quiet tb"
  shows "evolves quiet (str_from_cstr p)" "evolves quiet (str_duplicate_cstr_with_allocator tb p a)"
    "evolves quiet (str_duplicate_str tb h)" "evolves quiet (str_destroy tb h)"
    "evolves quiet (str_write_cstr_to_buf tb h p n)" "evolves quiet (str_find tb h g)"
    "evolves quiet (str_compare tb h g)" "evolves quiet (str_split_whitespace_pop tb h g)"
  using assms
  by (auto simp: str_from_cstr_def str_duplicate_cstr_with_allocator_def str_duplicate_str_def
      str_duplicate_str_with_allocator_def str_destroy_def str_write_cstr_to_buf_def str_find_def
      str_compare_def str_split_whitespace_pop_def Let_def intro!: evolves_rules)

lemma quiet_str_derived [evolves_rules]:
  assumes "table_ops_quiet tb"
  shows "evolves quiet (str_cstr tb h)" "evolves quiet (str_split_pop tb h g k)"
proof -
  have at_buffer: "evolves quiet (\<lambda>s. f (str_cstr_buffer s) s)" if "\<And>p. evolves quiet (f p)"
    for f :: "ptr \<Rightarrow> ptr prog"
    using that by (auto simp: evolves_def)
  show "evolves quiet (str_cstr tb h)"
    using assms
    by (auto simp: str_cstr_def intro!: evolves_rules
        at_buffer [of "\<lambda>p. cbind (str_write_cstr_to_buf tb h p STR_CSTR_BUFSIZE) (\<lambda>_. ret p)"])
  show "evolves quiet (str_split_pop tb h g k)"
    using assms by (auto simp: str_split_pop_def intro!: evolves_rules)
qed

lemma quiet_strbuf_basic [evolves_rules]:
  assumes "table_ops_quiet tb"
  shows "evolves quiet (strbuf_is_valid tb h)" "evolves quiet (strbuf_create tb a n)"
    "evolves quiet (strbuf_destroy tb h)" "evolves quiet (strbuf_str tb h)"
    "evolves quiet (strbuf_reset tb h)" "evolves quiet (grow_strbuf tb h)"
    "evolves quiet (str_duplicate_strbuf_with_allocator tb h a)"
  using assms
  by (auto simp: strbuf_is_valid_def strbuf_create_def strbuf_destroy_def strbuf_str_def
      strbuf_reset_def grow_strbuf_def str_duplicate_strbuf_with_allocator_def Let_def
      intro!: evolves_rules)

lemma quiet_grow_loop [evolves_rules]:
  "table_ops_quiet tb \<Longrightarrow> evolves quiet (grow_loop tb f h p n)"
  by (induction f) (auto intro!: evolves_rules)

lemma quiet_copy_source [evolves_rules]: "evolves quiet (copy_source d src n)"
  by (cases src) (simp_all add: evolves_rules)

lemma quiet_vsnprintf [evolves_rules]: "evolves quiet (vsnprintf_write p n out)"
  by (auto simp: vsnprintf_write_def intro!: evolves_rules)

lemma quiet_concatenate [evolves_rules]:
  assumes "table_ops_quiet tb"
  shows "evolves quiet (do_strbuf_concatenate tb h src n)"
    "evolves quiet (strbuf_concatenate_printf tb h p out)"
  using assms
  by (auto simp: do_strbuf_concatenate_def strbuf_concatenate_printf_def int_plus_one_def Let_def
      intro!: evolves_rules)

lemma quiet_strbuf_derived [evolves_rules]:
  assumes "table_ops_quiet tb"
  shows "evolves quiet (strbuf_concatenate_char tb h c)" "evolves quiet (strbuf_concatenate_cstr tb h p)"
    "evolves quiet (strbuf_concatenate_str tb h g)" "evolves quiet (strbuf_concatenate_strbuf tb h g)"
  using assms
  by (auto simp: strbuf_concatenate_char_def strbuf_concatenate_cstr_def strbuf_concatenate_str_def
      strbuf_concatenate_strbuf_def intro!: evolves_rules)

lemma quiet_strbuf_duplicate [evolves_rules]:
  "table_ops_quiet tb \<Longrightarrow> evolves quiet (strbuf_duplicate tb h)"
  by (auto simp: strbuf_duplicate_def intro!: evolves_rules)

section \<open>The library\<close>

text \<open>
  C19. Whatever a library function is called with, and whatever allocator (a nesting of memory
  tables included) the handles name, if it returns then the SIGINT handler is the one it found,
  and every call it made to malloc, realloc or free happened while SIGINT was ignored.
\<close>

theorem library_sigint_discipline:
  "evolves quiet (mem_alloc (memtbl_ops d) a n) \<and> evolves quiet (mem_alloc_clear (memtbl_ops d) a n) \<and>
   evolves quiet (mem_realloc (memtbl_ops d) h n) \<and> evolves quiet (mem_free (memtbl_ops d) h) \<and>
   evolves quiet (mem_duplicate (memtbl_ops d) h) \<and>
   evolves quiet (mem_duplicate_with_allocator (memtbl_ops d) a h) \<and>
   evolves quiet (map_create (memtbl_ops d) a) \<and> evolves quiet (map_destroy (memtbl_ops d) h) \<and>
   evolves quiet (map_set_str (memtbl_ops d) h k v) \<and> evolves quiet (map_set_ptr (memtbl_ops d) h p v) \<and>
   evolves quiet (map_get_str (memtbl_ops d) h k) \<and> evolves quiet (map_get_ptr (memtbl_ops d) h p) \<and>
   evolves quiet (map_delete_str (memtbl_ops d) h k) \<and> evolves quiet (map_delete_ptr (memtbl_ops d) h p) \<and>
   evolves quiet (map_first_value_iter (memtbl_ops d) h) \<and>
   evolves quiet (map_next_value_iter (memtbl_ops d) it) \<and>
   evolves quiet (memtbl_create (memtbl_ops d) a) \<and> evolves quiet (memtbl_destroy (memtbl_ops d) h) \<and>
   evolves quiet (str_duplicate_cstr_with_allocator (memtbl_ops d) p a) \<and>
   evolves quiet (str_duplicate_str (memtbl_ops d) h) \<and> evolves quiet (str_destroy (memtbl_ops d) h) \<and>
   evolves quiet (strbuf_create (memtbl_ops d) a n) \<and> evolves quiet (strbuf_destroy (memtbl_ops d) h) \<and>
   evolves quiet (strbuf_concatenate_char (memtbl_ops d) h c) \<and>
   evolves quiet (strbuf_concatenate_cstr (memtbl_ops d) h p) \<and>
   evolves quiet (strbuf_concatenate_str (memtbl_ops d) h k) \<and>
   evolves quiet (strbuf_concatenate_strbuf (memtbl_ops d) h k) \<and>
   evolves quiet (strbuf_concatenate_printf (memtbl_ops d) h p out) \<and>
   evolves quiet (strbuf_duplicate (memtbl_ops d) h)"
  by (intro conjI evolves_rules table_ops_quiet_memtbl_ops)

end
