(* ===== verification/Ds_Chars.thy ===== *)
theory Ds_Chars
  imports Ds_Mem
begin

text \<open>
  Characters in memory: \<open>chars_at p cs s\<close> says that the bytes \<open>cs\<close> are stored at \<open>p\<close>, and
  \<open>str_rep h cs s\<close> that the handle \<open>h\<close> of a transparent allocator is a str with that text.
\<close>

definition chars_at :: "ptr \<Rightarrow> byte list \<Rightarrow> cstate \<Rightarrow> bool" where
  "chars_at p cs s \<longleftrightarrow> pbase p \<noteq> 0 \<and>
     (\<exists>b bs. heap s (pbase p) = Some b \<and> block_bytes b = Inr bs \<and>
        poff p + length cs \<le> length bs \<and> take (length cs) (drop (poff p) bs) = map Some cs)"

definition transparent :: "mem_handle \<Rightarrow> bool" where
  "transparent h \<longleftrightarrow> h_alloc h = MEM_ALLOCATOR_PLAIN \<or> h_alloc h = MEM_ALLOCATOR_NOT_ALLOCATED"

definition str_rep :: "mem_handle \<Rightarrow> byte list \<Rightarrow> cstate \<Rightarrow> bool" where
  "str_rep h cs s \<longleftrightarrow> transparent h \<and> chars_at (h_data h) cs s \<and> unat (h_size h) = length cs"

lemma chars_at_nth:
  assumes "chars_at p cs s" and "i < length cs"
  obtains b bs where "heap s (pbase p) = Some b" "block_bytes b = Inr bs"
    "poff p + i < length bs" "bs ! (poff p + i) = Some (cs ! i)"
proof -
  obtain b bs where *: "heap s (pbase p) = Some b" "block_bytes b = Inr bs"
      "poff p + length cs \<le> length bs" "take (length cs) (drop (poff p) bs) = map Some cs"
    using assms(1) by (auto simp: chars_at_def)
  have "bs ! (poff p + i) = take (length cs) (drop (poff p) bs) ! i"
    using *(3) assms(2) by (simp add: add.commute)
  also have "\<dots> = Some (cs ! i)" using *(4) assms(2) by simp
  finally show ?thesis using that * assms(2) by auto
qed

lemma load_byte_chars:
  assumes "chars_at p cs s" and "i < length cs"
  shows "load_byte (ptr_add p i) s = Inr (cs ! i, s)"
proof -
  have "pbase p \<noteq> 0" using assms(1) by (simp add: chars_at_def)
  then show ?thesis
    by (rule_tac chars_at_nth [OF assms])
      (simp add: load_byte_def load_def block_at_def ptr_add_def)
qed

lemma load_bytes_chars: "chars_at p cs s \<Longrightarrow> load_bytes p (length cs) s = Inr (map Some cs, s)"
  by (auto simp: chars_at_def load_bytes_def load_def block_at_def)

lemma chars_at_sub:
  assumes "chars_at p cs s" and "i + n \<le> length cs"
  shows "chars_at (ptr_add p i) (take n (drop i cs)) s"
proof -
  obtain b bs where *: "heap s (pbase p) = Some b" "block_bytes b = Inr bs"
      "poff p + length cs \<le> length bs" "take (length cs) (drop (poff p) bs) = map Some cs"
    using assms(1) by (auto simp: chars_at_def)
  have "take n (drop (poff p + i) bs) = take n (drop i (take (length cs) (drop (poff p) bs)))"
    using assms(2) by (simp add: drop_take add.commute min_def)
  also have "\<dots> = map Some (take n (drop i cs))" using *(4) by (simp add: take_map drop_map)
  finally show ?thesis
    using * assms by (auto simp: chars_at_def ptr_add_def)
qed

lemma chars_at_frame: "chars_at p cs s \<Longrightarrow> heap t (pbase p) = heap s (pbase p) \<Longrightarrow> chars_at p cs t"
  by (simp add: chars_at_def)

lemma str_repD:
  assumes "str_rep h cs s"
  shows "transparent h" "chars_at (h_data h) cs s" "unat (h_size h) = length cs"
    "h_data h \<noteq> NULL" "pbase (h_data h) \<noteq> 0"
  using assms by (auto simp: str_rep_def chars_at_def)

lemma str_rep_frame:
  "str_rep h cs s \<Longrightarrow> heap t (pbase (h_data h)) = heap s (pbase (h_data h)) \<Longrightarrow> str_rep h cs t"
  by (auto simp: str_rep_def intro: chars_at_frame)

lemma transparent_p: "transparent h \<Longrightarrow> mem_p tb h = ret (h_data h)"
  by (simp add: transparent_def mem_p_transparent)

lemmas str_rep_p = transparent_p [OF str_repD(1)]

lemma str_rep_valid [simp]: "str_rep h cs s \<Longrightarrow> mem_is_valid h"
  by (simp add: mem_is_valid_def str_repD)

lemma ptr_add_0 [simp]: "ptr_add p 0 = p"
  by (simp add: ptr_add_def)

lemma ptr_add_add [simp]: "ptr_add (ptr_add p i) j = ptr_add p (i + j)"
  by (simp add: ptr_add_def)

lemma pbase_ptr_add [simp]: "pbase (ptr_add p i) = pbase p" "poff (ptr_add p i) = poff p + i"
  by (simp_all add: ptr_add_def)

section \<open>Copying characters\<close>

lemma length_splice: "i + length ys \<le> length xs \<Longrightarrow> length (splice xs i ys) = length xs"
  by (simp add: splice_def)

lemma splice_region: "i + length ys \<le> length xs \<Longrightarrow> take (length ys) (drop i (splice xs i ys)) = ys"
  by (simp add: splice_def)

lemma splice_before: "i \<le> length xs \<Longrightarrow> take i (splice xs i ys) = take i xs"
  by (simp add: splice_def)

lemma splice_all: "length ys = length xs \<Longrightarrow> splice xs 0 ys = ys"
  by (simp add: splice_def)

text \<open>\<open>space_at p bs s\<close>: the block behind \<open>p\<close> is live and holds the bytes \<open>bs\<close>.\<close>

definition space_at :: "ptr \<Rightarrow> byte option list \<Rightarrow> cstate \<Rightarrow> bool" where
  "space_at p bs s \<longleftrightarrow> (\<exists>b. block_at p s = Inr b \<and> block_bytes b = Inr bs)"

lemma store_bytes_exec:
  "space_at p bs s \<Longrightarrow> poff p + length xs \<le> length bs \<Longrightarrow>
   store_bytes p xs s = Inr ((), set_content p (Bytes (splice bs (poff p) xs)) s)"
  by (auto simp: space_at_def store_bytes_def intro: store_exec)

lemma space_at_set: "space_at p bs s \<Longrightarrow> space_at p xs (set_content p (Bytes xs) s)"
  by (auto simp: space_at_def block_bytes_def dest: block_at_set_content)

lemma chars_at_space: "space_at p bs s \<Longrightarrow> poff p + length cs \<le> length bs \<Longrightarrow>
    take (length cs) (drop (poff p) bs) = map Some cs \<Longrightarrow> chars_at p cs s"
  by (auto simp: space_at_def chars_at_def block_at_Inr_iff)

lemma memcpy_exec:
  assumes src: "chars_at p cs s" and dst: "space_at d bs s" and room: "poff d + length cs \<le> length bs"
    and apart: "pbase d \<noteq> pbase p" and n: "unat n = length cs"
  shows "memcpy d p n s = Inr ((), set_content d (Bytes (splice bs (poff d) (map Some cs))) s)"
proof -
  obtain pb ps where pb: "block_at p s = Inr pb" "block_bytes pb = Inr ps"
    using src by (auto simp: chars_at_def block_at_Inr_iff)
  obtain db where db: "block_at d s = Inr db" using dst by (auto simp: space_at_def)
  obtain ys where "bytes_of (b_size pb) (b_content pb) = Some ys"
    using pb(2) by (auto simp: block_bytes_def split: option.splits)
  then have "memcpy d p n s = cbind (load_bytes p (unat n)) (store_bytes d) s"
    using pb db apart by (simp add: memcpy_def regions_overlap_def)
  then show ?thesis
    using load_bytes_chars [OF src] store_bytes_exec [OF dst] room n by (simp add: cbind_apply)
qed

lemma memcpy_chars:
  assumes "chars_at p cs s" and "space_at d bs s" and "poff d + length cs \<le> length bs"
    and "pbase d \<noteq> pbase p" and "unat n = length cs"
  shows "chars_at d cs (set_content d (Bytes (splice bs (poff d) (map Some cs))) s)"
proof -
  have "length (splice bs (poff d) (map Some cs)) = length bs"
    using assms(3) by (simp add: length_splice)
  then show ?thesis
    using assms(3) splice_region [of "poff d" "map Some cs" bs]
    by (intro chars_at_space [OF space_at_set [OF assms(2)]]) simp_all
qed

section \<open>Duplicating characters\<close>

context owning_allocator
begin

lemma mem_duplicate_chars:
  assumes rep: "str_rep h cs s" and Atr: "A = MEM_ALLOCATOR_PLAIN"
  shows "runs (mem_duplicate_with_allocator tb A h) s (\<lambda>r t. env_same s t \<and>
    (if h_data r = NULL then r = null_handle \<and> heap t = heap s
     else str_rep r cs t \<and> h_alloc r = A \<and> h_size r = h_size h \<and> (\<exists>b. owned t r b) \<and>
       heap s (pbase (h_data r)) = None \<and>
       (\<forall>a. a \<noteq> pbase (h_data r) \<longrightarrow> heap t a = heap s a)))"
proof -
  obtain r t where al: "mem_alloc tb A (h_size h) s = Inr (r, t)" and post: "alloc_post Fresh A (h_size h) s r t"
    using alloc_law by (rule runsE)
  show ?thesis
  proof (cases "h_data r = NULL")
    case True
    then show ?thesis
      using al post rep
      by (auto simp: mem_duplicate_with_allocator_def cbind_apply runs_def mem_is_valid_def
          alloc_post_def str_repD)
  next
    case False
    then obtain a where a: "a \<noteq> 0" "heap s a = None"
        and r: "r = \<lparr>h_data = Ptr a 0, h_size = h_size h, h_alloc = A\<rparr>"
        and ht: "heap t = (heap s)(a \<mapsto> \<lparr>b_size = h_size h, b_heap = True, b_content = Fresh\<rparr>)"
        and e: "env_same s t"
      using post by (auto simp: alloc_post_def)
    note D = str_repD [OF rep]
    have apart: "a \<noteq> pbase (h_data h)" using D(2) a by (auto simp: chars_at_def)
    have src: "chars_at (h_data h) cs t" using apart ht by (intro chars_at_frame [OF D(2)]) simp
    have dst: "space_at (Ptr a 0) (replicate (length cs) None) t"
      using a ht D(3) by (auto simp: space_at_def block_at_Inr_iff block_bytes_def)
    let ?u = "set_content (Ptr a 0) (Bytes (map Some cs)) t"
    have cp: "memcpy (Ptr a 0) (h_data h) (h_size h) t = Inr ((), ?u)" and ch: "chars_at (Ptr a 0) cs ?u"
      using memcpy_exec [OF src dst, of "h_size h"] memcpy_chars [OF src dst, of "h_size h"] apart D(3)
      by (simp_all add: splice_all)
    have p: "mem_p tb \<lparr>h_data = Ptr a 0, h_size = h_size h, h_alloc = A\<rparr> = ret (Ptr a 0)"
      by (simp add: p_law)
    have run: "mem_duplicate_with_allocator tb A h s = Inr (r, ?u)"
      using a rep by (simp add: mem_duplicate_with_allocator_def cbind_apply al r p str_rep_p [OF rep] cp)
        (simp add: mem_is_valid_def)
    have "str_rep r cs ?u" using ch D(3) Atr by (simp add: str_rep_def r transparent_def)
    moreover have "\<exists>b. owned ?u r b"
      using a ht r by (intro owned_set_content) (simp add: owned_def)
    ultimately show ?thesis
      using a e ht r by (auto simp: runs_def run heap_set_content)
  qed
qed

end

section \<open>Bytes kept by a reallocation\<close>

lemma resize_bytes:
  assumes "bytes_of old c = Some bs"
  obtains c' bs' where "resize_content old n c = Inr c'" and "bytes_of n c' = Some bs'"
    and "length bs' = unat n" and "take (length bs) bs' = take (unat n) bs"
proof (cases c)
  case Fresh
  then have bs: "bs = replicate (unat old) None" using assms by simp
  show ?thesis
    by (rule that [of Fresh "replicate (unat n) None"]) (simp_all add: Fresh bs min.commute)
next
  case Zeroed
  then have bs: "bs = replicate (unat old) (Some 0)" using assms by simp
  show ?thesis
  proof (cases "n \<le> old")
    case True
    show ?thesis
      by (rule that [of Zeroed "replicate (unat n) (Some 0)"])
        (use True in \<open>simp_all add: Zeroed bs min.commute\<close>)
  next
    case False
    then have "unat old \<le> unat n" by (simp add: word_le_nat_alt)
    then show ?thesis
      by (intro that [of "Bytes (resize_list (unat n) bs)" "resize_list (unat n) bs"])
        (use False in \<open>simp_all add: Zeroed bs resize_list_def\<close>)
  qed
next
  case (Bytes xs)
  then have bs: "xs = bs" using assms by simp
  show ?thesis
    by (rule that [of "Bytes (resize_list (unat n) bs)" "resize_list (unat n) bs"])
      (auto simp: Bytes bs resize_list_def min_def)
qed (use assms in simp_all)

end
