(* ===== verification/Ds_Hash.thy ===== *)
theory Ds_Hash
  imports Ds_Chars Ds_Map
begin

text \<open>
  The hash functions of map.c against 32-bit FNV-1a: one round of the code is the multiplication
  by the FNV prime, of the hash xor the sign-extended byte.
\<close>

text \<open>FNV-1a over bytes, as the comment of the source refers to it.\<close>

definition fnv_prime :: uint where
  "fnv_prime = 0x01000193"

definition fnv_round :: "uint \<Rightarrow> byte \<Rightarrow> uint" where
  "fnv_round h c = (h XOR ucast c) * fnv_prime"

definition fnv1a :: "byte list \<Rightarrow> uint" where
  "fnv1a cs = foldl fnv_round FNV_OFFSET cs"

lemma fnv_step_mult: "fnv_step h c = (h XOR scast c) * fnv_prime"
  by (simp add: fnv_step_def Let_def push_bit_eq_mult fnv_prime_def algebra_simps)

lemma fnv_prime_inverse: "fnv_prime * 0x359c449b = 1"
  by (simp add: fnv_prime_def)

lemma mult_prime_cancel: "x * fnv_prime = y * fnv_prime \<longleftrightarrow> x = y"
proof
  assume "x * fnv_prime = y * fnv_prime"
  then have "x * fnv_prime * 0x359c449b = y * fnv_prime * 0x359c449b" by simp
  then show "x = y" by (simp only: mult.assoc fnv_prime_inverse mult_1_right)
qed simp

lemma signed_take_bit_small:
  "- 128 \<le> k \<Longrightarrow> k < 128 \<Longrightarrow> signed_take_bit 7 (k :: int) = k"
  "- 128 \<le> k \<Longrightarrow> k < 256 \<Longrightarrow> signed_take_bit 31 (k :: int) = k"
  by (rule signed_take_bit_int_eq_self; simp)+

lemma byte_range: "- 128 \<le> uint (c :: byte)" "0 \<le> uint c" "uint c < 256"
  using order_trans [of "- 128" 0 "uint c"] uint_lt2p [of c] by simp_all

declare byte_range(1) [simp]

lemma sint_byte: "sint (c :: byte) = (if c < 128 then uint c else uint c - 256)"
proof -
  have r: "0 \<le> uint c" "uint c < 256" using uint_lt2p [of c] by simp_all
  have "take_bit (Suc 7) (uint c) = take_bit (Suc 7) (uint c - 256)"
    by (simp add: take_bit_eq_mod)
  then have eq: "signed_take_bit 7 (uint c) = signed_take_bit 7 (uint c - 256)"
    by (simp only: signed_take_bit_eq_iff_take_bit_eq)
  have "sint c = signed_take_bit 7 (uint c)" by (simp add: sint_uint)
  moreover have "signed_take_bit 7 (uint c) = uint c" if "uint c < 128"
    using byte_range(1) that by (rule signed_take_bit_small)
  moreover have "signed_take_bit 7 (uint c - 256) = uint c - 256" if "\<not> uint c < 128"
    using r that by (intro signed_take_bit_small) simp_all
  ultimately show ?thesis by (simp add: word_less_def eq)
qed

lemma sint_byte_scast: "sint (scast (c :: byte) :: uint) = sint c"
proof -
  have "- 128 \<le> sint c" "sint c < 256"
    using byte_range [of c] by (simp_all add: sint_byte word_less_def)
  then have "signed_take_bit 31 (sint c) = sint c" by (rule signed_take_bit_small)
  then show ?thesis by (simp add: signed_scast_eq)
qed

lemma sint_eqD: "sint x = sint y \<Longrightarrow> (x :: 'a::len word) = y"
  by (metis signed_word_eqI)

lemma scast_byte_inject: "(scast c :: uint) = scast (d :: byte) \<longleftrightarrow> c = d"
  by (metis sint_byte_scast signed_word_eqI)

lemma scast_ascii_iff: "(scast c :: uint) = ucast (c :: byte) \<longleftrightarrow> c < 128"
proof -
  have "sint (ucast c :: uint) = uint c"
    using signed_take_bit_small(2) [of "uint c"] byte_range [of c]
    by (simp add: sint_uint unsigned_ucast_eq take_bit_int_eq_self)
  then have "(scast c :: uint) = ucast c \<longleftrightarrow> sint c = uint c"
    using sint_byte_scast [of c] sint_eqD [of "scast c :: uint" "ucast c"] by auto
  then show ?thesis by (simp add: sint_byte)
qed

lemma xor_left_cancel: "(a :: uint) XOR b = a XOR c \<longleftrightarrow> b = c"
  by (metis xor.assoc xor.left_neutral xor_self_eq)

lemma xor_right_cancel: "(b :: uint) XOR a = c XOR a \<longleftrightarrow> b = c"
  by (simp add: xor.commute [of _ a] xor_left_cancel)

lemma fnv_step_round_iff: "fnv_step h c = fnv_round h c \<longleftrightarrow> c < 128"
  by (simp add: fnv_step_mult fnv_round_def mult_prime_cancel xor_left_cancel scast_ascii_iff)

lemma fnv_step_inject:
  "fnv_step h c = fnv_step h d \<longleftrightarrow> c = d" "fnv_step h c = fnv_step h' c \<longleftrightarrow> h = h'"
  by (simp_all add: fnv_step_mult mult_prime_cancel xor_left_cancel xor_right_cancel scast_byte_inject)

lemma foldl_fnv_inject: "foldl fnv_step h cs = foldl fnv_step h' cs \<longleftrightarrow> h = h'"
  by (induction cs arbitrary: h h') (simp_all add: fnv_step_inject)

section \<open>Hashing characters in memory\<close>

lemma hash_str_loop_exec:
  assumes rep: "str_rep key cs s" and small: "length cs < 2 ^ 32"
  shows "length cs - unat i < fuel \<Longrightarrow> hash_str_loop tb fuel key i h s =
    Inr (foldl fnv_step h (drop (unat i) cs), s)"
proof (induction fuel arbitrary: i h)
  case (Suc fuel)
  have size: "unat (h_size key) = length cs" using rep by (rule str_repD)
  have guard: "(ucast i :: size_t) < h_size key \<longleftrightarrow> unat i < length cs"
    by (simp add: word_less_nat_alt size unsigned_ucast_eq take_bit_nat_eq_self
        order.strict_trans [OF unsigned_less])
  show ?case
  proof (cases "unat i < length cs")
    case False
    then show ?thesis using guard by simp
  next
    case True
    then have "unat i + 1 < 2 ^ 32" using small by simp
    then have up: "unat (i + 1) = Suc (unat i)" by (simp add: unat_word_ariths)
    have "drop (unat i) cs = cs ! unat i # drop (Suc (unat i)) cs"
      using True by (simp add: Cons_nth_drop_Suc)
    then show ?thesis
      using True guard Suc.IH [of "i + 1"] Suc.prems up
      by (simp add: cbind_apply str_rep_p [OF rep] load_byte_chars [OF str_repD(2) [OF rep]])
  qed
qed simp

lemma hash_str_exec:
  assumes "str_rep key cs s" and "length cs < 2 ^ 32"
  shows "hash_str tb key s = Inr (foldl fnv_step FNV_OFFSET (0 # cs), s)"
  using hash_str_loop_exec [OF assms, of 0 "Suc (length cs)"] str_repD(3) [OF assms(1)]
  by (simp add: hash_str_def)

lemma foldl_fnv_ascii: "\<forall>c \<in> set cs. c < 128 \<Longrightarrow> foldl fnv_step h cs = foldl fnv_round h cs"
  by (induction cs arbitrary: h) (simp_all add: fnv_step_round_iff [THEN iffD2])

section \<open>Hashing addresses\<close>

fun address_bytes :: "nat \<Rightarrow> 64 word \<Rightarrow> byte list" where
  "address_bytes 0 a = []"
| "address_bytes (Suc n) a = ucast (a AND 255) # address_bytes n (drop_bit 8 a)"

lemma hash_ptr_bytes: "hash_ptr p = foldl fnv_step FNV_OFFSET (1 # address_bytes 8 (uintptr p))"
proof -
  have "hash_ptr_loop n a h = foldl fnv_step h (address_bytes n a)" for n a h
    by (induction n arbitrary: a h) simp_all
  then show ?thesis by (simp add: hash_ptr_def)
qed

end
