(* ===== verification/Ds_Probe.thy ===== *)
theory Ds_Probe
  imports Ds_Store
begin

text \<open>
  Open addressing with linear probing on a list of entries, the reference the code's table is
  compared with: the slots a hash visits, the first slot where a probe stops, the value found,
  and the condition under which every stored entry can be found again.
\<close>

section \<open>Probe sequences\<close>

definition home :: "map_entry list \<Rightarrow> uint \<Rightarrow> nat" where
  "home es k = unat k mod length es"

definition slot :: "map_entry list \<Rightarrow> uint \<Rightarrow> nat \<Rightarrow> nat" where
  "slot es k d = (home es k + d) mod length es"

definition dist :: "map_entry list \<Rightarrow> uint \<Rightarrow> nat \<Rightarrow> nat" where
  "dist es k i = (i + (length es - home es k)) mod length es"

definition stops :: "map_entry list \<Rightarrow> uint \<Rightarrow> nat \<Rightarrow> bool" where
  "stops es k i \<longleftrightarrow> key_hash (es ! i) = k \<or> key_hash (es ! i) = 0"

definition probe :: "map_entry list \<Rightarrow> uint \<Rightarrow> nat option" where
  "probe es k =
     map_option (slot es k) (List.find (\<lambda>d. stops es k (slot es k d)) [0..<length es])"

definition lookup :: "map_entry list \<Rightarrow> uint \<Rightarrow> mem_handle option" where
  "lookup es k =
     (case probe es k of
        None \<Rightarrow> None
      | Some i \<Rightarrow> if key_hash (es ! i) = 0 then None else Some (value_handle (es ! i)))"

definition occupied :: "map_entry list \<Rightarrow> nat set" where
  "occupied es = {i. i < length es \<and> key_hash (es ! i) \<noteq> 0}"

definition chained :: "map_entry list \<Rightarrow> bool" where
  "chained es \<longleftrightarrow> (\<forall>i < length es. key_hash (es ! i) \<noteq> 0 \<longrightarrow> probe es (key_hash (es ! i)) = Some i)"

lemma home_less: "i < length es \<Longrightarrow> home es k < length es"
  unfolding home_def by (rule mod_less_divisor) (cases es, auto)

lemma slot_less: "d < length es \<Longrightarrow> slot es k d < length es"
  unfolding slot_def by (rule mod_less_divisor) (cases es, auto)

lemma dist_less: "i < length es \<Longrightarrow> dist es k i < length es"
  unfolding dist_def by (rule mod_less_divisor) (cases es, auto)

lemma slot_dist: "i < length es \<Longrightarrow> slot es k (dist es k i) = i"
proof -
  assume i: "i < length es"
  then have h: "home es k < length es" by (rule home_less)
  have "slot es k (dist es k i) = (home es k + (i + (length es - home es k))) mod length es"
    by (simp add: slot_def dist_def mod_add_right_eq)
  also have "home es k + (i + (length es - home es k)) = i + length es"
    using h by simp
  finally show ?thesis using i by simp
qed

lemma dist_slot: "d < length es \<Longrightarrow> dist es k (slot es k d) = d"
proof -
  assume d: "d < length es"
  then have h: "home es k < length es" by (rule home_less)
  have "dist es k (slot es k d) = (home es k + d + (length es - home es k)) mod length es"
    by (simp add: slot_def dist_def mod_add_left_eq)
  also have "home es k + d + (length es - home es k) = d + length es"
    using h by simp
  finally show ?thesis using d by simp
qed

lemma slot_before:
  assumes "d < dist es k i" and "i < length es"
  shows "d < length es" and "slot es k d \<noteq> i"
proof -
  show d: "d < length es" using assms dist_less [of i es k] by simp
  show "slot es k d \<noteq> i" using assms dist_slot [OF d, of k] by auto
qed

lemma slot_inj: "d < length es \<Longrightarrow> d' < length es \<Longrightarrow> slot es k d = slot es k d' \<Longrightarrow> d = d'"
  by (metis dist_slot)

lemma slot_Suc: "d < length es \<Longrightarrow> slot es k (Suc d) =
    (if Suc (slot es k d) < length es then Suc (slot es k d) else 0)"
proof -
  assume d: "d < length es"
  have "slot es k (Suc d) = Suc (slot es k d) mod length es"
    by (simp add: slot_def mod_Suc_eq)
  moreover have "slot es k d < length es" using d by (rule slot_less)
  ultimately show ?thesis
    by (cases "Suc (slot es k d) = length es") auto
qed

lemma slot_0: "slot es k 0 = home es k"
  by (simp add: slot_def home_def)

lemma slot_wraps: "Suc d = length es \<Longrightarrow> slot es k (Suc d) = home es k"
  by (simp add: slot_def home_def)

lemma slot_cong: "length es' = length es \<Longrightarrow> slot es' k d = slot es k d"
  by (simp add: slot_def home_def)

lemma dist_cong: "length es' = length es \<Longrightarrow> dist es' k i = dist es k i"
  by (simp add: dist_def home_def)

lemma find_upt_Some_iff:
  "List.find P [0..<n] = Some d \<longleftrightarrow> d < n \<and> P d \<and> (\<forall>d' < d. \<not> P d')"
  by (auto simp: find_Some_iff)

lemma probe_Some_iff:
  "probe es k = Some i \<longleftrightarrow>
     i < length es \<and> stops es k i \<and> (\<forall>d < dist es k i. \<not> stops es k (slot es k d))"
proof
  assume "probe es k = Some i"
  then obtain d where d: "d < length es" "i = slot es k d" "stops es k i"
      "\<forall>d' < d. \<not> stops es k (slot es k d')"
    unfolding probe_def by (auto simp: find_upt_Some_iff)
  then have "dist es k i = d" by (simp add: dist_slot)
  moreover have "i < length es" using d(1,2) slot_less by simp
  ultimately show "i < length es \<and> stops es k i \<and> (\<forall>d < dist es k i. \<not> stops es k (slot es k d))"
    using d(3,4) by simp
next
  assume *: "i < length es \<and> stops es k i \<and> (\<forall>d < dist es k i. \<not> stops es k (slot es k d))"
  then have "0 < length es" by auto
  with * have "List.find (\<lambda>d. stops es k (slot es k d)) [0..<length es] = Some (dist es k i)"
    by (simp add: find_upt_Some_iff dist_less slot_dist)
  then show "probe es k = Some i" using * by (simp add: probe_def slot_dist)
qed

lemma probe_None_iff: "probe es k = None \<longleftrightarrow> (\<forall>i < length es. \<not> stops es k i)"
proof
  assume "probe es k = None"
  then have none: "\<forall>d < length es. \<not> stops es k (slot es k d)"
    by (auto simp: probe_def find_None_iff)
  show "\<forall>i < length es. \<not> stops es k i"
  proof (intro allI impI)
    fix i assume i: "i < length es"
    then have "dist es k i < length es" by (intro dist_less) auto
    with none slot_dist [OF i] show "\<not> stops es k i" by metis
  qed
next
  assume "\<forall>i < length es. \<not> stops es k i"
  then have "\<not> stops es k (slot es k d)" if "d < length es" for d
    using that by (auto dest: slot_less)
  then show "probe es k = None"
    by (auto simp: probe_def find_None_iff)
qed

lemma probe_empty_slot:
  assumes "card (occupied es) < length es"
  shows "\<exists>i. probe es k = Some i"
proof -
  have "occupied es \<noteq> {0..<length es}"
  proof
    assume "occupied es = {0..<length es}"
    then have "card (occupied es) = length es" by simp
    with assms show False by simp
  qed
  then obtain i where "i < length es" "key_hash (es ! i) = 0"
    by (auto simp: occupied_def)
  then have "probe es k \<noteq> None"
    by (auto simp: probe_None_iff stops_def)
  then show ?thesis by auto
qed

lemma probe_less: "probe es k = Some i \<Longrightarrow> i < length es"
  by (simp add: probe_Some_iff)

lemma probe_stops: "probe es k = Some i \<Longrightarrow> key_hash (es ! i) = k \<or> key_hash (es ! i) = 0"
  by (simp add: probe_Some_iff stops_def)

section \<open>What a table stores\<close>

lemma chainedD: "chained es \<Longrightarrow> i < length es \<Longrightarrow> key_hash (es ! i) \<noteq> 0 \<Longrightarrow>
    probe es (key_hash (es ! i)) = Some i"
  by (simp add: chained_def)

lemma lookup_iff:
  assumes "chained es"
  shows "lookup es k = Some v \<longleftrightarrow>
    (\<exists>i < length es. key_hash (es ! i) = k \<and> k \<noteq> 0 \<and> value_handle (es ! i) = v)"
proof
  assume "lookup es k = Some v"
  then obtain i where "probe es k = Some i" "key_hash (es ! i) \<noteq> 0" "value_handle (es ! i) = v"
    by (auto simp: lookup_def split: option.splits if_splits)
  then show "\<exists>i < length es. key_hash (es ! i) = k \<and> k \<noteq> 0 \<and> value_handle (es ! i) = v"
    using probe_less probe_stops by metis
next
  assume "\<exists>i < length es. key_hash (es ! i) = k \<and> k \<noteq> 0 \<and> value_handle (es ! i) = v"
  then show "lookup es k = Some v"
    using chainedD [OF assms] by (auto simp: lookup_def)
qed

lemma lookup_same:
  "probe es k = Some i \<Longrightarrow> k \<noteq> 0 \<Longrightarrow> key_hash e = k \<Longrightarrow>
   lookup (es[i := e]) k = Some (value_handle e)"
proof -
  assume p: "probe es k = Some i" and k: "k \<noteq> 0" and e: "key_hash e = k"
  have i: "i < length es" using p by (rule probe_less)
  have "probe (es[i := e]) k = Some i"
  proof -
    have "\<not> stops (es[i := e]) k (slot es k d)" if d: "d < dist es k i" for d
    proof -
      have "slot es k d \<noteq> i" using d i by (rule slot_before)
      then show ?thesis using p d by (auto simp: probe_Some_iff stops_def)
    qed
    then show ?thesis
      using i e by (auto simp: probe_Some_iff stops_def dist_cong [of "es[i := e]" es]
          slot_cong [of "es[i := e]" es])
  qed
  then show ?thesis using i e k by (simp add: lookup_def)
qed

lemma probe_put:
  assumes p: "probe es k = Some i" and k: "k \<noteq> 0" and e: "key_hash e = k"
    and q: "probe es k' = Some j" and ji: "j \<noteq> i" and k': "k' \<noteq> k"
  shows "probe (es[i := e]) k' = Some j"
proof -
  have i: "i < length es" and j: "j < length es" using p q probe_less by auto
  have "\<not> stops (es[i := e]) k' (slot es k' d)" if d: "d < dist es k' j" for d
  proof (cases "slot es k' d = i")
    case True
    then show ?thesis using i e k k' by (simp add: stops_def)
  next
    case False
    then show ?thesis using q d by (auto simp: probe_Some_iff stops_def)
  qed
  then show ?thesis
    using j q ji by (auto simp: probe_Some_iff stops_def dist_cong [of "es[i := e]" es]
        slot_cong [of "es[i := e]" es])
qed

lemma probe_put_same:
  assumes p: "probe es k = Some i" and e: "key_hash e = k"
  shows "probe (es[i := e]) k = Some i"
proof -
  have i: "i < length es" using p by (rule probe_less)
  have "\<not> stops (es[i := e]) k (slot es k d)" if d: "d < dist es k i" for d
  proof -
    have "slot es k d \<noteq> i" using d i by (rule slot_before)
    then show ?thesis using p d by (auto simp: probe_Some_iff stops_def)
  qed
  then show ?thesis
    using i e by (auto simp: probe_Some_iff stops_def dist_cong [of "es[i := e]" es]
        slot_cong [of "es[i := e]" es])
qed

lemma chained_put:
  assumes c: "chained es" and p: "probe es k = Some i" and k: "k \<noteq> 0" and e: "key_hash e = k"
  shows "chained (es[i := e])"
  unfolding chained_def
proof (intro allI impI)
  fix j assume j: "j < length (es[i := e])" and nz: "key_hash (es[i := e] ! j) \<noteq> 0"
  show "probe (es[i := e]) (key_hash (es[i := e] ! j)) = Some j"
  proof (cases "j = i")
    case True
    then show ?thesis using j e probe_put_same [OF p e] by simp
  next
    case False
    then have q: "probe es (key_hash (es ! j)) = Some j"
      using c j nz by (simp add: chained_def)
    moreover have "key_hash (es ! j) \<noteq> k" using q p False by auto
    ultimately show ?thesis using False probe_put [OF p k e] by simp
  qed
qed

lemma lookup_put:
  assumes c: "chained es" and p: "probe es k = Some i" and k: "k \<noteq> 0" and e: "key_hash e = k"
  shows "lookup (es[i := e]) = (lookup es)(k \<mapsto> value_handle e)"
proof (rule ext)
  fix k'
  show "lookup (es[i := e]) k' = ((lookup es)(k \<mapsto> value_handle e)) k'"
  proof (cases "k' = k")
    case True
    then show ?thesis using lookup_same [OF p k e] by simp
  next
    case False
    have at_i: "key_hash (es ! i) = k \<or> key_hash (es ! i) = 0" and i: "i < length es"
      using p by (auto simp: probe_Some_iff stops_def)
    have "lookup (es[i := e]) k' = Some v \<longleftrightarrow> lookup es k' = Some v" for v
      unfolding lookup_iff [OF c] lookup_iff [OF chained_put [OF c p k e]]
      using False at_i i e by (auto simp: nth_list_update)
    then have "lookup (es[i := e]) k' = lookup es k'"
      by (metis not_None_eq)
    then show ?thesis using False by simp
  qed
qed

section \<open>Emptying a slot\<close>

text \<open>\<open>blocks es i j\<close>: the probe for the entry in slot \<open>j\<close> passes over slot \<open>i\<close>.\<close>

definition blocks :: "map_entry list \<Rightarrow> nat \<Rightarrow> nat \<Rightarrow> bool" where
  "blocks es i j \<longleftrightarrow> dist es (key_hash (es ! j)) i < dist es (key_hash (es ! j)) j"

definition removable :: "map_entry list \<Rightarrow> nat \<Rightarrow> bool" where
  "removable es i \<longleftrightarrow>
     (\<forall>j < length es. j \<noteq> i \<and> key_hash (es ! j) \<noteq> 0 \<longrightarrow> \<not> blocks es i j)"

lemma chained_remove:
  assumes c: "chained es" and i: "i < length es" and r: "removable es i"
  shows "chained (es[i := zero_entry])"
  unfolding chained_def
proof (intro allI impI)
  let ?es = "es[i := zero_entry]"
  fix j assume j: "j < length ?es" and nz: "key_hash (?es ! j) \<noteq> 0"
  then have ji: "j \<noteq> i" using i by (auto simp: zero_entry_def)
  let ?k = "key_hash (es ! j)"
  have q: "probe es ?k = Some j" using c j nz ji by (simp add: chained_def)
  have far: "\<not> dist es ?k i < dist es ?k j"
    using r ji j nz by (auto simp: removable_def blocks_def)
  have "\<not> stops ?es ?k (slot es ?k d)" if d: "d < dist es ?k j" for d
  proof -
    have "d < length es" using d j slot_before [of d es ?k j] by simp
    then have "slot es ?k d \<noteq> i" using d far dist_slot [of d es ?k] by auto
    then show ?thesis using q d by (auto simp: probe_Some_iff stops_def)
  qed
  then show "probe ?es (key_hash (?es ! j)) = Some j"
    using q j ji by (auto simp: probe_Some_iff stops_def dist_cong [of ?es es]
        slot_cong [of ?es es])
qed

lemma lookup_remove:
  assumes c: "chained es" and p: "probe es k = Some i" and nz: "key_hash (es ! i) \<noteq> 0"
    and r: "removable es i"
  shows "lookup (es[i := zero_entry]) = (lookup es)(k := None)"
proof (rule ext)
  fix k'
  have i: "i < length es" and at_i: "key_hash (es ! i) = k"
    using p nz by (auto simp: probe_Some_iff stops_def)
  have uniq: "j = i" if "j < length es" "key_hash (es ! j) = k" for j
    using chainedD [OF c that(1)] that(2) nz at_i p by simp
  show "lookup (es[i := zero_entry]) k' = ((lookup es)(k := None)) k'"
  proof (cases "k' = k")
    case True
    have "lookup (es[i := zero_entry]) k \<noteq> Some v" for v
      unfolding lookup_iff [OF chained_remove [OF c i r]]
      using uniq i by (auto simp: nth_list_update zero_entry_def)
    then show ?thesis using True by (cases "lookup (es[i := zero_entry]) k") auto
  next
    case False
    have "lookup (es[i := zero_entry]) k' = Some v \<longleftrightarrow> lookup es k' = Some v" for v
      unfolding lookup_iff [OF c] lookup_iff [OF chained_remove [OF c i r]]
      using False i at_i by (auto simp: nth_list_update zero_entry_def)
    then have "lookup (es[i := zero_entry]) k' = lookup es k'"
      by (metis not_None_eq)
    then show ?thesis using False by simp
  qed
qed

lemma lookup_blocked:
  assumes i: "i < length es" and j: "j < length es" and b: "blocks es i j"
    and nz: "key_hash (es ! j) \<noteq> 0" and c: "chained es"
  shows "lookup (es[i := zero_entry]) (key_hash (es ! j)) = None"
proof -
  let ?k = "key_hash (es ! j)" and ?es = "es[i := zero_entry]"
  have q: "probe es ?k = Some j" using c j nz by (rule chainedD)
  have d: "dist es ?k i < dist es ?k j" using b by (simp add: blocks_def)
  have "\<not> stops ?es ?k (slot es ?k d')" if d': "d' < dist es ?k i" for d'
  proof -
    have "slot es ?k d' \<noteq> i" using d' i by (rule slot_before)
    then show ?thesis using q d' d by (auto simp: probe_Some_iff stops_def)
  qed
  then have "probe ?es ?k = Some i"
    using i by (simp add: probe_Some_iff dist_cong [of ?es es] slot_cong [of ?es es])
      (simp add: stops_def zero_entry_def)
  then show ?thesis using i by (simp add: lookup_def zero_entry_def)
qed

section \<open>Counting\<close>

lemma finite_occupied [simp]: "finite (occupied es)"
  by (simp add: occupied_def)

lemma card_occupied_le: "card (occupied es) \<le> length es"
proof -
  have "occupied es \<subseteq> {0..<length es}" by (auto simp: occupied_def)
  then show ?thesis using card_mono [of "{0..<length es}" "occupied es"] by simp
qed

lemma occupied_put:
  "i < length es \<Longrightarrow> key_hash e \<noteq> 0 \<Longrightarrow> occupied (es[i := e]) = insert i (occupied es)"
  by (auto simp: occupied_def nth_list_update)

lemma occupied_remove:
  "i < length es \<Longrightarrow> occupied (es[i := zero_entry]) = occupied es - {i}"
  by (auto simp: occupied_def nth_list_update zero_entry_def)

lemma occupied_empty [simp]: "occupied (replicate n zero_entry) = {}"
  by (auto simp: occupied_def zero_entry_def)

lemma chained_empty [simp]: "chained (replicate n zero_entry)"
  by (simp add: chained_def zero_entry_def)

lemma lookup_empty [simp]: "lookup (replicate n zero_entry) = Map.empty"
  by (auto simp: lookup_def probe_Some_iff zero_entry_def fun_eq_iff split: option.splits)

section \<open>Moving to a table of another size\<close>

text \<open>What the resize loop of the code computes: each entry goes to its home slot, unprobed.\<close>

definition reinsert :: "nat \<Rightarrow> map_entry list \<Rightarrow> map_entry \<Rightarrow> map_entry list" where
  "reinsert n ns e = (if key_hash e = 0 then ns else ns[unat (key_hash e) mod n := e])"

definition rehash :: "nat \<Rightarrow> map_entry list \<Rightarrow> map_entry list" where
  "rehash n es = foldl (reinsert n) (replicate n zero_entry) es"

lemma length_reinsert [simp]: "length (reinsert n ns e) = length ns"
  by (simp add: reinsert_def)

lemma length_foldl_reinsert [simp]: "length (foldl (reinsert n) ns es) = length ns"
  by (induction es arbitrary: ns) simp_all

lemma length_rehash [simp]: "length (rehash n es) = n"
  by (simp add: rehash_def)

lemma card_occupied_reinsert: "card (occupied (foldl (reinsert n) ns es)) \<le> card (occupied ns) + length es"
proof (induction es arbitrary: ns)
  case Nil
  then show ?case by simp
next
  case (Cons e es)
  have "occupied (reinsert n ns e) \<subseteq> insert (unat (key_hash e) mod n) (occupied ns)"
    by (auto simp: reinsert_def occupied_def nth_list_update split: if_splits)
  then have "card (occupied (reinsert n ns e)) \<le> card (insert (unat (key_hash e) mod n) (occupied ns))"
    by (rule card_mono [rotated]) simp
  also have "\<dots> \<le> Suc (card (occupied ns))" by (simp add: card_insert_if)
  finally have "card (occupied (reinsert n ns e)) \<le> Suc (card (occupied ns))" .
  then show ?case using Cons.IH [of "reinsert n ns e"] by simp
qed

lemma card_occupied_rehash: "card (occupied (rehash n es)) \<le> length es"
  using card_occupied_reinsert [of n "replicate n zero_entry" es] by (simp add: rehash_def)

section \<open>What survives a rehash\<close>

definition lands :: "nat \<Rightarrow> nat \<Rightarrow> map_entry \<Rightarrow> bool" where
  "lands n i e \<longleftrightarrow> key_hash e \<noteq> 0 \<and> unat (key_hash e) mod n = i"

lemma rehash_snoc: "rehash n (es @ [e]) = reinsert n (rehash n es) e"
  by (simp add: rehash_def)

lemma rehash_nth:
  "i < n \<Longrightarrow> rehash n es ! i = (case List.find (lands n i) (rev es) of None \<Rightarrow> zero_entry | Some e \<Rightarrow> e)"
proof (induction es rule: rev_induct)
  case Nil
  then show ?case by (simp add: rehash_def)
next
  case (snoc e es)
  then show ?case by (auto simp: rehash_snoc reinsert_def lands_def nth_list_update)
qed

lemma find_SomeD: "List.find P xs = Some x \<Longrightarrow> P x \<and> x \<in> set xs"
  by (induction xs) (auto split: if_splits)

lemma rehash_entry:
  assumes "i < n" and "key_hash (rehash n es ! i) \<noteq> 0"
  shows "lands n i (rehash n es ! i)" and "rehash n es ! i \<in> set es"
  using assms
  by (auto simp: rehash_nth zero_entry_def split: option.splits dest!: find_SomeD)

lemma rehash_home: "i < n \<Longrightarrow> key_hash (rehash n es ! i) \<noteq> 0 \<Longrightarrow>
    unat (key_hash (rehash n es ! i)) mod n = i"
  by (drule (1) rehash_entry) (simp add: lands_def)

lemma chained_at_home:
  assumes "\<And>i. i < length es \<Longrightarrow> key_hash (es ! i) \<noteq> 0 \<Longrightarrow> unat (key_hash (es ! i)) mod length es = i"
  shows "chained es"
  unfolding chained_def
proof (intro allI impI)
  fix i assume i: "i < length es" and nz: "key_hash (es ! i) \<noteq> 0"
  let ?k = "key_hash (es ! i)"
  have "home es ?k = i" using i nz assms by (simp add: home_def)
  then have "dist es ?k i = 0" using i by (simp add: dist_def)
  then show "probe es ?k = Some i" using i by (simp add: probe_Some_iff stops_def)
qed

lemma finite_lookup: "finite (dom (lookup es))"
proof (rule finite_subset)
  show "dom (lookup es) \<subseteq> key_hash ` set es"
    by (auto simp: lookup_def image_iff probe_Some_iff stops_def split: option.splits if_splits
        intro: bexI [OF _ nth_mem])
qed simp

text \<open>\<open>at_home es\<close>: every entry is in the slot its hash leads to.\<close>

definition at_home :: "map_entry list \<Rightarrow> bool" where
  "at_home es \<longleftrightarrow> (\<forall>i < length es. key_hash (es ! i) \<noteq> 0 \<longrightarrow> home es (key_hash (es ! i)) = i)"

lemma at_home_empty [simp]: "at_home (replicate n zero_entry)"
  by (simp add: at_home_def zero_entry_def)

lemma at_home_removable: "at_home es \<Longrightarrow> removable es i"
  by (auto simp: at_home_def removable_def blocks_def dist_def)

lemma at_home_remove: "at_home es \<Longrightarrow> at_home (es[i := zero_entry])"
  unfolding at_home_def
proof (intro allI impI)
  fix j assume a: "\<forall>i < length es. key_hash (es ! i) \<noteq> 0 \<longrightarrow> home es (key_hash (es ! i)) = i"
    and j: "j < length (es[i := zero_entry])" "key_hash (es[i := zero_entry] ! j) \<noteq> 0"
  then have "j \<noteq> i" by (auto simp: zero_entry_def)
  then show "home (es[i := zero_entry]) (key_hash (es[i := zero_entry] ! j)) = j"
    using a j by (simp add: home_def)
qed

text \<open>A hash whose home no other stored hash has is probed for at its home.\<close>

lemma at_home_probe:
  assumes a: "at_home es" and c: "chained es" and p: "probe es k = Some i"
    and apart: "\<And>k'. lookup es k' \<noteq> None \<Longrightarrow> home es k' = home es k \<Longrightarrow> k' = k"
  shows "i = home es k"
proof -
  have i: "i < length es" using p by (rule probe_less)
  then have h: "home es k < length es" by (rule home_less)
  have "stops es k (home es k)"
  proof (cases "key_hash (es ! home es k) = 0")
    case False
    then have "home es (key_hash (es ! home es k)) = home es k" using a h by (simp add: at_home_def)
    moreover have "lookup es (key_hash (es ! home es k)) = Some (value_handle (es ! home es k))"
      using h False by (auto simp: lookup_iff [OF c])
    ultimately show ?thesis using apart by (auto simp: stops_def)
  qed (simp add: stops_def)
  moreover have "dist es k (home es k) = 0" using h by (simp add: dist_def)
  moreover have "slot es k 0 = home es k" by (rule slot_0)
  ultimately have "\<not> 0 < dist es k i" using p by (auto simp: probe_Some_iff)
  then show ?thesis using slot_dist [OF i, of k] slot_0 by simp
qed

lemma at_home_put:
  assumes "at_home es" and "chained es" and "probe es (key_hash e) = Some i"
    and "\<And>k'. lookup es k' \<noteq> None \<Longrightarrow> home es k' = home es (key_hash e) \<Longrightarrow> k' = key_hash e"
  shows "at_home (es[i := e])"
  unfolding at_home_def
proof (intro allI impI)
  fix j assume j: "j < length (es[i := e])" "key_hash (es[i := e] ! j) \<noteq> 0"
  show "home (es[i := e]) (key_hash (es[i := e] ! j)) = j"
    using assms(1) at_home_probe [OF assms] j by (cases "j = i") (auto simp: at_home_def home_def)
qed

lemma chained_rehash: "chained (rehash n es)"
  by (rule chained_at_home) (simp add: rehash_home)

lemma card_occupied_rehash_occupied: "card (occupied (rehash n es)) \<le> card (occupied es)"
proof -
  have "occupied (rehash n es) \<subseteq> (\<lambda>j. unat (key_hash (es ! j)) mod n) ` occupied es"
  proof
    fix i assume "i \<in> occupied (rehash n es)"
    then have i: "i < n" and nz: "key_hash (rehash n es ! i) \<noteq> 0" by (auto simp: occupied_def)
    then obtain j where "j < length es" "es ! j = rehash n es ! i"
      using rehash_entry(2) [OF i nz] by (auto simp: in_set_conv_nth)
    then show "i \<in> (\<lambda>j. unat (key_hash (es ! j)) mod n) ` occupied es"
      using nz rehash_home [OF i nz] by (auto simp: occupied_def intro!: image_eqI [of _ _ j])
  qed
  then show ?thesis by (rule surj_card_le [rotated]) simp
qed

lemma lookup_rehash:
  assumes "0 < n"
  shows "lookup (rehash n es) k = Some v \<longleftrightarrow>
    (\<exists>e. List.find (lands n (unat k mod n)) (rev es) = Some e \<and> key_hash e = k \<and> value_handle e = v)"
proof -
  let ?i = "unat k mod n"
  have i: "?i < n" using assms by simp
  have "lookup (rehash n es) k = Some v \<longleftrightarrow>
      key_hash (rehash n es ! ?i) = k \<and> k \<noteq> 0 \<and> value_handle (rehash n es ! ?i) = v"
    unfolding lookup_iff [OF chained_rehash] using i rehash_home by auto
  also have "\<dots> \<longleftrightarrow> (\<exists>e. List.find (lands n ?i) (rev es) = Some e \<and> key_hash e = k \<and> value_handle e = v)"
    using rehash_nth [OF i, of es]
    by (auto simp: lands_def zero_entry_def split: option.splits dest: find_SomeD)
  finally show ?thesis .
qed

lemma submapI: "(\<And>k v. f k = Some v \<Longrightarrow> g k = Some v) \<Longrightarrow> f \<subseteq>\<^sub>m g"
  by (auto simp: map_le_def dom_def)

lemma lookup_rehash_sub:
  assumes "chained es" and "0 < n"
  shows "lookup (rehash n es) \<subseteq>\<^sub>m lookup es"
proof (rule submapI)
  fix k v assume "lookup (rehash n es) k = Some v"
  then obtain e where "e \<in> set es" "key_hash e = k" "value_handle e = v" "k \<noteq> 0"
    by (auto simp: lookup_rehash [OF assms(2)] lands_def dest!: find_SomeD)
  then show "lookup es k = Some v" by (auto simp: lookup_iff [OF assms(1)] in_set_conv_nth)
qed

text \<open>The rehash keeps every entry exactly when no two stored hashes share a home.\<close>

lemma lookup_rehash_eq_iff:
  assumes c: "chained es" and n: "0 < n"
  shows "lookup (rehash n es) = lookup es \<longleftrightarrow> inj_on (\<lambda>k. unat k mod n) (dom (lookup es))"
proof
  assume eq: "lookup (rehash n es) = lookup es"
  show "inj_on (\<lambda>k. unat k mod n) (dom (lookup es))"
  proof (rule inj_onI)
    fix k k' assume "k \<in> dom (lookup es)" "k' \<in> dom (lookup es)" and same: "unat k mod n = unat k' mod n"
    then obtain v v' where "lookup (rehash n es) k = Some v" "lookup (rehash n es) k' = Some v'"
      unfolding eq dom_def by blast
    then show "k = k'" unfolding lookup_rehash [OF n] same by force
  qed
next
  assume inj: "inj_on (\<lambda>k. unat k mod n) (dom (lookup es))"
  have "lookup es \<subseteq>\<^sub>m lookup (rehash n es)"
  proof (rule submapI)
    fix k v assume l: "lookup es k = Some v"
    then obtain i where i: "i < length es" "key_hash (es ! i) = k" "k \<noteq> 0"
      by (auto simp: lookup_iff [OF c])
    then have "List.find (lands n (unat k mod n)) (rev es) \<noteq> None"
      by (auto simp: find_None_iff lands_def intro!: exI [of _ "es ! i"])
    then obtain e where e: "List.find (lands n (unat k mod n)) (rev es) = Some e" by blast
    then have ee: "lands n (unat k mod n) e" "e \<in> set es" by (auto dest: find_SomeD)
    then obtain j where "j < length es" "es ! j = e" by (auto simp: in_set_conv_nth)
    then have m: "lookup es (key_hash e) = Some (value_handle e)"
      using ee(1) by (auto simp: lookup_iff [OF c] lands_def)
    then have "key_hash e = k"
      using inj_onD [OF inj, of "key_hash e" k] ee(1) l by (auto simp: lands_def)
    then show "lookup (rehash n es) k = Some v" using e m l by (auto simp: lookup_rehash [OF n])
  qed
  with lookup_rehash_sub [OF c n] show "lookup (rehash n es) = lookup es"
    by (rule map_le_antisym)
qed

end
