(* ===== verification/Ds_Map_Proofs.thy ===== *)
theory Ds_Map_Proofs
  imports Ds_Map Ds_Probe
begin

text \<open>
  The map of map.c against the reference of Ds_Probe. \<open>map_rep\<close> relates a handle and a state to
  the map structure and the list of entries it stands for; each operation is then an equation on
  such a state, proved once for any allocator whose handles can be read without side effects
  (locale transparent_handles) or that also obeys the allocation laws (owning_allocator).
\<close>

section \<open>The probe loop\<close>

lemma find_entry_loop_eq:
  assumes es: "load_entries p s = Inr (es, s)" and len: "length es = unat ts"
    and start: "unat start = home es k"
    and d: "d < length es" and pos: "unat pos = slot es k d"
    and before: "\<forall>d' < d. \<not> stops es k (slot es k d')"
    and fuel: "fuel = length es - d"
  shows "find_entry_loop fuel p ts k start pos s =
    (case probe es k of Some i \<Rightarrow> Inr (of_nat i, s) | None \<Rightarrow> Inl Assert_fail)"
  using d pos before fuel
proof (induction fuel arbitrary: d pos)
  case 0
  then show ?case by simp
next
  case (Suc fuel)
  let ?i = "slot es k d"
  have i: "?i < length es" using Suc.prems(1) by (rule slot_less)
  have ui: "unat pos = ?i" by (rule Suc.prems(2))
  show ?case
  proof (cases "stops es k ?i")
    case True
    then have "probe es k = Some ?i"
      using i Suc.prems(1,3) by (simp add: probe_Some_iff dist_slot)
    moreover have "of_nat ?i = pos" using ui [symmetric] by simp
    ultimately show ?thesis
      using True i ui by (simp add: cbind_apply load_entry_exec [OF es] stops_def)
  next
    case False
    define pos2 where "pos2 = (if ts \<le> pos + 1 then 0 else pos + 1)"
    have "pos < ts" using i ui len by (simp add: word_less_nat_alt)
    then have up: "unat (pos + 1) = Suc ?i" using ui by (simp add: unat_plus_one)
    then have u2: "unat pos2 = slot es k (Suc d)"
      using len slot_Suc [OF Suc.prems(1), of k] by (simp add: pos2_def word_le_nat_alt)
    have step: "find_entry_loop (Suc fuel) p ts k start pos s =
        (if pos2 \<noteq> start then find_entry_loop fuel p ts k start pos2 s else Inl Assert_fail)"
      using False i ui by (simp add: cbind_apply load_entry_exec [OF es] stops_def Let_def pos2_def)
    show ?thesis
    proof (cases "Suc d < length es")
      case True
      have "slot es k (Suc d) \<noteq> slot es k 0"
        using slot_inj [OF True, of 0 k] True by (metis Suc_neq_Zero gr_zeroI not_less0)
      then have neq: "pos2 \<noteq> start" using u2 start by (auto simp: slot_0)
      have before': "\<forall>d' < Suc d. \<not> stops es k (slot es k d')"
        using Suc.prems(3) False less_Suc_eq by auto
      have "fuel = length es - Suc d" using Suc.prems(4) by simp
      then show ?thesis
        using Suc.IH [OF True u2 before'] step neq by (simp only: if_True simp_thms)
    next
      case last: False
      then have "Suc d = length es" using Suc.prems(1) by simp
      then have "slot es k (Suc d) = home es k" by (rule slot_wraps)
      then have "pos2 = start" using u2 start by (simp add: word_unat_eq_iff)
      moreover have "\<not> stops es k i'" if "i' < length es" for i'
      proof -
        have "dist es k i' < length es" using that by (rule dist_less)
        then have "dist es k i' < d \<or> dist es k i' = d" using last by auto
        then show ?thesis using Suc.prems(3) False slot_dist [OF that, of k] by metis
      qed
      then have "probe es k = None" by (simp add: probe_None_iff)
      ultimately show ?thesis using step by simp
    qed
  qed
qed

section \<open>The map in memory\<close>

text \<open>
  \<open>map_rep A mh m es s\<close>: in state \<open>s\<close> the handle \<open>mh\<close>, from allocator \<open>A\<close>, holds the map
  structure \<open>m\<close>, whose table is the list of entries \<open>es\<close>.
\<close>

definition map_rep ::
  "mem_allocator \<Rightarrow> mem_handle \<Rightarrow> cmap \<Rightarrow> map_entry list \<Rightarrow> cstate \<Rightarrow> bool" where
  "map_rep A mh m es s \<longleftrightarrow>
     h_alloc mh = A \<and> h_alloc (entries_mh m) = A \<and>
     load_map (h_data mh) s = Inr (m, s) \<and>
     load_entries (h_data (entries_mh m)) s = Inr (es, s) \<and>
     pbase (h_data mh) \<noteq> pbase (h_data (entries_mh m)) \<and>
     length es = unat (table_size m) \<and> table_size m \<noteq> 0 \<and>
     (\<exists>b. owned s mh b) \<and> (\<exists>b. owned s (entries_mh m) b)"

definition foot :: "mem_handle \<Rightarrow> cmap \<Rightarrow> 64 word set" where
  "foot mh m = {pbase (h_data mh), pbase (h_data (entries_mh m))}"

lemma map_rep_table:
  assumes "map_rep A mh m es s" and "length es' = length es"
  shows "map_rep A mh m es' (set_content (h_data (entries_mh m)) (Table es') s)"
  using assms
  by (auto simp: map_rep_def heap_set_content intro: load_entries_set load_map_frame
      intro!: owned_set_content)

lemma map_rep_map:
  assumes "map_rep A mh m es s" and "entries_mh m' = entries_mh m"
    and "table_size m' = table_size m"
  shows "map_rep A mh m' es (set_content (h_data mh) (Map_obj m') s)"
  using assms
  by (auto simp: map_rep_def heap_set_content intro: load_map_set load_entries_frame
      intro!: owned_set_content)

context transparent_handles
begin

lemma map_rep_p:
  assumes "map_rep A mh m es s"
  shows "mem_p tb mh = ret (h_data mh)" and "mem_p tb (entries_mh m) = ret (h_data (entries_mh m))"
  using assms by (auto simp: map_rep_def p_law)

lemma find_entry_pos_exec:
  assumes "map_rep A mh m es s"
  shows "find_entry_pos tb mh k s =
    (case probe es k of Some i \<Rightarrow> Inr (of_nat i, s) | None \<Rightarrow> Inl Assert_fail)"
proof -
  have lm: "load_map (h_data mh) s = Inr (m, s)"
    and le: "load_entries (h_data (entries_mh m)) s = Inr (es, s)"
    and len: "length es = unat (table_size m)" and nz: "table_size m \<noteq> 0"
    using assms by (auto simp: map_rep_def)
  have pos: "0 < length es" using len nz by (simp add: unat_gt_0)
  have start: "unat (k mod table_size m) = home es k"
    using len by (simp add: home_def unat_mod_distrib)
  show ?thesis
    using find_entry_loop_eq [OF le len start pos, of "k mod table_size m"] start len nz
    by (simp add: find_entry_pos_def cbind_apply map_rep_p [OF assms] lm Let_def slot_0)
qed

lemma probe_position:
  assumes "map_rep A mh m es s" and "probe es k = Some i"
  shows "i < length es" and "unat (of_nat i :: uint) = i"
proof -
  show i: "i < length es" using assms(2) by (rule probe_less)
  have "length es = unat (table_size m)" using assms(1) by (simp add: map_rep_def)
  moreover have "unat (table_size m) < 2 ^ LENGTH(32)" by (rule unsigned_less)
  ultimately have "i < 2 ^ 32" using i by simp
  then show "unat (of_nat i :: uint) = i" by (simp add: unat_of_nat)
qed

lemma do_get_exec:
  assumes rep: "map_rep A mh m es s" and p: "probe es k = Some i"
  shows "do_get tb mh k s =
    Inr (case lookup es k of None \<Rightarrow> null_handle | Some v \<Rightarrow> v, s)"
proof -
  have "load_map (h_data mh) s = Inr (m, s)"
    "load_entries (h_data (entries_mh m)) s = Inr (es, s)"
    using rep by (auto simp: map_rep_def)
  then show ?thesis
    using probe_position [OF rep p] p
    by (simp add: do_get_def cbind_apply map_rep_p [OF rep] find_entry_pos_exec [OF rep]
        load_entry_exec lookup_def)
qed


lemma do_set_existing:
  assumes rep: "map_rep A mh m es s" and p: "probe es k = Some i"
    and there: "key_hash (es ! i) \<noteq> 0"
  shows "do_set tb mh k v s =
    Inr (True, set_content (h_data (entries_mh m))
      (Table (es[i := \<lparr>key_hash = k, value_handle = v\<rparr>])) s)"
proof -
  note pos = probe_position [OF rep p]
  have lm: "load_map (h_data mh) s = Inr (m, s)"
    and le: "load_entries (h_data (entries_mh m)) s = Inr (es, s)"
    using rep by (auto simp: map_rep_def)
  show ?thesis
    using pos p there
    by (simp add: do_set_def cbind_apply map_rep_p [OF rep] find_entry_pos_exec [OF rep] lm
        load_entry_exec [OF le] update_entry_exec [OF le]
        update_entry_exec [OF load_entries_set [OF le]])
qed

lemma do_set_new:
  assumes rep: "map_rep A mh m es s" and p: "probe es k = Some i"
    and free: "key_hash (es ! i) = 0"
    and room: "\<not> table_size m div 2 < entry_count m + 1"
  shows "do_set tb mh k v s =
    Inr (True, set_content (h_data (entries_mh m))
      (Table (es[i := \<lparr>key_hash = k, value_handle = v\<rparr>]))
      (set_content (h_data mh) (Map_obj (m\<lparr>entry_count := entry_count m + 1\<rparr>)) s))"
proof -
  note pos = probe_position [OF rep p]
  have lm: "load_map (h_data mh) s = Inr (m, s)"
    and le: "load_entries (h_data (entries_mh m)) s = Inr (es, s)"
    using rep by (auto simp: map_rep_def)
  let ?m = "m\<lparr>entry_count := entry_count m + 1\<rparr>"
  let ?t = "set_content (h_data mh) (Map_obj ?m) s"
  have rep': "map_rep A mh ?m es ?t" using rep by (rule map_rep_map) simp_all
  have lm': "load_map (h_data mh) ?t = Inr (?m, ?t)"
    and le': "load_entries (h_data (entries_mh m)) ?t = Inr (es, ?t)"
    using rep' by (auto simp: map_rep_def)
  show ?thesis
    using pos p free room
    by (simp add: do_set_def cbind_apply map_rep_p [OF rep] find_entry_pos_exec [OF rep] lm lm'
        update_map_exec [OF lm] load_entry_exec [OF le] update_entry_exec [OF le']
        update_entry_exec [OF load_entries_set [OF le']])
qed

lemma do_delete_absent:
  assumes rep: "map_rep A mh m es s" and p: "probe es k = Some i"
    and free: "key_hash (es ! i) = 0"
  shows "do_delete tb mh k s = Inr (False, s)"
proof -
  note pos = probe_position [OF rep p]
  have lm: "load_map (h_data mh) s = Inr (m, s)"
    and le: "load_entries (h_data (entries_mh m)) s = Inr (es, s)"
    using rep by (auto simp: map_rep_def)
  show ?thesis
    using pos p free
    by (simp add: do_delete_def cbind_apply map_rep_p [OF rep] find_entry_pos_exec [OF rep] lm
        load_entry_exec [OF le])
qed

lemma do_delete_present:
  assumes rep: "map_rep A mh m es s" and p: "probe es k = Some i"
    and there: "key_hash (es ! i) \<noteq> 0"
    and keep: "\<not> (entry_count m - 1 < table_size m div 4 \<and> INITIAL_TABLE_SIZE < table_size m)"
  shows "do_delete tb mh k s =
    Inr (True, set_content (h_data mh) (Map_obj (m\<lparr>entry_count := entry_count m - 1\<rparr>))
      (set_content (h_data (entries_mh m)) (Table (es[i := zero_entry])) s))"
proof -
  note pos = probe_position [OF rep p]
  have lm: "load_map (h_data mh) s = Inr (m, s)"
    and le: "load_entries (h_data (entries_mh m)) s = Inr (es, s)"
    using rep by (auto simp: map_rep_def)
  let ?t = "set_content (h_data (entries_mh m)) (Table (es[i := zero_entry])) s"
  have "map_rep A mh m (es[i := zero_entry]) ?t" using rep by (rule map_rep_table) simp
  then have lm': "load_map (h_data mh) ?t = Inr (m, ?t)" by (simp add: map_rep_def)
  show ?thesis
    using pos p there keep
    by (auto simp: do_delete_def cbind_apply map_rep_p [OF rep] find_entry_pos_exec [OF rep] lm
        load_entry_exec [OF le] update_entry_exec [OF le]
        update_entry_exec [OF load_entries_set [OF le]] zero_entry_def [symmetric]
        update_map_exec [OF lm'] load_map_set [OF lm'])
qed

end

section \<open>Resizing\<close>

lemma copy_entries_runs:
  assumes "load_entries old s = Inr (es, s)" and "load_entries new s = Inr (ns, s)"
    and "pbase old \<noteq> pbase new" and "length es = unat ts" and "length ns = unat nts"
    and "nts \<noteq> 0"
  shows "runs (copy_entries old new ts nts i) s (\<lambda>_ t.
    load_entries new t = Inr (foldl (reinsert (unat nts)) ns (drop (unat i) es), t)
    \<and> content_upd new s t)"
  using assms
proof (induction "unat ts - unat i" arbitrary: i s ns rule: less_induct)
  case less
  note old = less.prems(1) and new = less.prems(2)
  show ?case
  proof (cases "i < ts")
    case False
    then have "drop (unat i) es = []" using less.prems(4) by (simp add: word_less_nat_alt)
    then show ?thesis using less.prems(2) False
      by (subst copy_entries.simps) (simp add: runs_ret content_upd_def)
  next
    case True
    let ?e = "es ! unat i"
    have i: "unat i < length es" using True less.prems(4) by (simp add: word_less_nat_alt)
    have drop: "drop (unat i) es = ?e # drop (unat (i + 1)) es"
      using i True by (simp add: unat_plus_one Cons_nth_drop_Suc)
    have smaller: "unat ts - unat (i + 1) < unat ts - unat i" using True by simp
    show ?thesis
    proof (cases "key_hash ?e = 0")
      case empty: True
      have "runs (copy_entries old new ts nts (i + 1)) s (\<lambda>_ t.
          load_entries new t = Inr (foldl (reinsert (unat nts)) ns (drop (unat (i + 1)) es), t)
          \<and> content_upd new s t)"
        by (rule less.hyps [OF smaller less.prems])
      then show ?thesis
        using True i empty
        by (subst copy_entries.simps)
          (simp add: runs_def cbind_apply load_entry_exec [OF old] drop reinsert_def)
    next
      case full: False
      let ?ns = "ns[unat (key_hash ?e mod nts) := ?e]"
      let ?t = "set_content new (Table ?ns) s"
      have pos: "unat (key_hash ?e mod nts) < length ns"
        using less.prems(5,6) by (simp add: unat_mod unat_gt_0)
      have "load_entries old ?t = Inr (es, ?t)"
        using old less.prems(3) by (auto simp: heap_set_content intro: load_entries_frame)
      moreover have "load_entries new ?t = Inr (?ns, ?t)" using new by (rule load_entries_set)
      ultimately have "runs (copy_entries old new ts nts (i + 1)) ?t (\<lambda>_ t.
          load_entries new t = Inr (foldl (reinsert (unat nts)) ?ns (drop (unat (i + 1)) es), t)
          \<and> content_upd new ?t t)"
        using less.prems by (intro less.hyps [OF smaller]) simp_all
      then show ?thesis
        using True i full less.prems(6) pos
        by (subst copy_entries.simps)
          (auto simp: runs_def cbind_apply load_entry_exec [OF old] update_entry_exec [OF new]
            drop reinsert_def unat_mod split: sum.splits dest!: content_upd_step)
    qed
  qed
qed

lemma unat_table_bytes:
  "unat (sizeof_map_entry * ucast (n :: uint)) div unat sizeof_map_entry = unat n"
proof -
  have "unat n < 2 ^ LENGTH(32)" by (rule unsigned_less)
  moreover have "unat (ucast n :: size_t) = unat n"
    by (simp add: unsigned_ucast_eq take_bit_nat_eq_self order.strict_trans [OF unsigned_less])
  ultimately have "unat (sizeof_map_entry * ucast n) = 40 * unat n"
    by (simp add: sizeof_map_entry_def unat_word_ariths)
  then show ?thesis by (simp add: sizeof_map_entry_def)
qed

definition table_bytes :: "uint \<Rightarrow> size_t" where
  "table_bytes nts = sizeof_map_entry * ucast nts"

lemma entries_of_cleared:
  "block_at p s = Inr \<lparr>b_size = table_bytes n, b_heap = h, b_content = Zeroed\<rparr> \<Longrightarrow> poff p = 0 \<Longrightarrow>
   load_entries p s = Inr (replicate (unat n) zero_entry, s)"
  by (simp add: load_entries_def load_def entries_of_def table_bytes_def unat_table_bytes)

context owning_allocator
begin

text \<open>Allocation of the new table, and the early return when it fails.\<close>

lemma resize_begin:
  assumes rep: "map_rep A mh m es s" and ns: "new_size (table_size m) g = ret nts"
    and al: "mem_alloc_clear tb A (table_bytes nts) s = Inr (eh, t1)"
    and post: "alloc_post Zeroed A (table_bytes nts) s eh t1"
  shows "resize_entries_table tb mh g s =
      (if h_data eh = NULL then Inr (False, t1)
       else cbind (copy_entries (h_data (entries_mh m)) (h_data eh) (table_size m) nts 0) (\<lambda>_.
         cbind (mem_free tb (entries_mh m)) (\<lambda>_.
         cbind (update_map (h_data mh) (\<lambda>m. m\<lparr>table_size := nts\<rparr>)) (\<lambda>_.
         cbind (update_map (h_data mh) (\<lambda>m. m\<lparr>entries_mh := eh\<rparr>)) (\<lambda>_.
         ret True)))) t1)"
proof -
  have lm: "load_map (h_data mh) s = Inr (m, s)" and A: "h_alloc mh = A"
    using rep by (auto simp: map_rep_def)
  show ?thesis
  proof (cases "h_data eh = NULL")
    case True
    then show ?thesis
      using al by (simp add: resize_entries_table_def cbind_apply map_rep_p [OF rep] lm ns A
          table_bytes_def)
  next
    case False
    then have "h_alloc eh = A" using post by (auto simp: alloc_post_def)
    then show ?thesis
      using False al by (simp add: resize_entries_table_def cbind_apply map_rep_p [OF rep] lm ns A
          p_law table_bytes_def)
  qed
qed

text \<open>The copy into the new table and the release of the old one.\<close>

lemma resize_copy:
  assumes rep: "map_rep A mh m es s" and nz: "nts \<noteq> 0" and a: "a \<noteq> 0" "heap s a = None"
    and eh: "eh = \<lparr>h_data = Ptr a 0, h_size = table_bytes nts, h_alloc = A\<rparr>"
    and h1: "heap t1 =
      (heap s)(a \<mapsto> \<lparr>b_size = table_bytes nts, b_heap = True, b_content = Zeroed\<rparr>)"
    and e1: "env_same s t1"
  obtains u t2 r t3 where
    "copy_entries (h_data (entries_mh m)) (h_data eh) (table_size m) nts 0 t1 = Inr (u, t2)"
    and "mem_free tb (entries_mh m) t2 = Inr (r, t3)" and "env_same s t3"
    and "load_entries (h_data eh) t3 = Inr (rehash (unat nts) es, t3)"
    and "\<exists>b. owned t3 eh b"
    and "\<And>b. b \<noteq> a \<Longrightarrow> heap t3 b = ((heap s)(pbase (h_data (entries_mh m)) := None)) b"
proof -
  have le: "load_entries (h_data (entries_mh m)) s = Inr (es, s)"
    and len: "length es = unat (table_size m)" and A: "h_alloc (entries_mh m) = A"
    using rep by (auto simp: map_rep_def)
  obtain be where be: "owned s (entries_mh m) be" using rep by (auto simp: map_rep_def)
  have apart: "a \<noteq> pbase (h_data (entries_mh m))" using a be by (auto simp: owned_def)
  have le1: "load_entries (h_data (entries_mh m)) t1 = Inr (es, t1)"
    by (rule load_entries_frame [OF le]) (use apart in \<open>simp add: h1\<close>)
  have ln1: "load_entries (h_data eh) t1 = Inr (replicate (unat nts) zero_entry, t1)"
    using a by (intro entries_of_cleared) (simp_all add: block_at_def eh h1)
  have "runs (copy_entries (h_data (entries_mh m)) (h_data eh) (table_size m) nts 0) t1 (\<lambda>_ t.
      load_entries (h_data eh) t = Inr (foldl (reinsert (unat nts)) (replicate (unat nts) zero_entry)
        (drop (unat (0 :: uint)) es), t) \<and> content_upd (h_data eh) t1 t)"
    by (rule copy_entries_runs [OF le1 ln1 _ len _ nz]) (use apart in \<open>simp_all add: eh\<close>)
  then obtain u t2 where copy:
      "copy_entries (h_data (entries_mh m)) (h_data eh) (table_size m) nts 0 t1 = Inr (u, t2)"
      and ln2: "load_entries (h_data eh) t2 = Inr (rehash (unat nts) es, t2)"
      and upd: "content_upd (h_data eh) t1 t2"
    by (rule runsE) (simp add: rehash_def)
  have fr2: "frame {a} t1 t2" using upd eh by (auto dest: content_upd_frame)
  have own2: "owned t2 (entries_mh m) be"
    using be fr2 apart by (auto simp: owned_def frame_def h1)
  obtain r t3 where fre: "mem_free tb (entries_mh m) t2 = Inr (r, t3)" and e3: "env_same t2 t3"
      and h3: "heap t3 = (heap t2)(pbase (h_data (entries_mh m)) := None)"
    using free_law [OF A own2] by (auto elim!: runsE)
  have ln3: "load_entries (h_data eh) t3 = Inr (rehash (unat nts) es, t3)"
    by (rule load_entries_frame [OF ln2]) (use apart eh in \<open>simp add: h3\<close>)
  have "\<exists>b. owned t1 eh b" by (simp add: owned_def eh h1 a)
  then have own3: "\<exists>b. owned t3 eh b"
    using content_upd_owned [OF upd, of eh] apart eh by (auto simp: owned_def h3)
  show ?thesis
    using that [OF copy fre _ ln3 own3] e1 fr2 e3
    by (auto simp: frame_def h1 h3 dest: env_same_trans)
qed

lemma resize_runs:
  assumes rep: "map_rep A mh m es s" and ns: "new_size (table_size m) g = ret nts"
    and nz: "nts \<noteq> 0" and al: "mem_alloc_clear tb A (table_bytes nts) s = Inr (eh, t1)"
  shows "runs (resize_entries_table tb mh g) s (\<lambda>ok t. env_same s t \<and> ok = (h_data eh \<noteq> NULL) \<and>
    (if ok then map_rep A mh (m\<lparr>table_size := nts, entries_mh := eh\<rparr>) (rehash (unat nts) es) t
        \<and> heap s (pbase (h_data eh)) = None \<and> heap t (pbase (h_data (entries_mh m))) = None
        \<and> (\<forall>a. a \<notin> insert (pbase (h_data eh)) (foot mh m) \<longrightarrow> heap t a = heap s a)
     else heap t = heap s))"
proof -
  have post: "alloc_post Zeroed A (table_bytes nts) s eh t1"
    using alloc_clear_law [of "table_bytes nts" s] al by (simp add: runs_def)
  note start = resize_begin [OF rep ns al post]
  show ?thesis
  proof (cases "h_data eh = NULL")
    case True
    then show ?thesis using start post by (auto simp: runs_def alloc_post_def)
  next
    case False
    then obtain a where a: "a \<noteq> 0" "heap s a = None"
        and eh: "eh = \<lparr>h_data = Ptr a 0, h_size = table_bytes nts, h_alloc = A\<rparr>"
        and h1: "heap t1 =
          (heap s)(a \<mapsto> \<lparr>b_size = table_bytes nts, b_heap = True, b_content = Zeroed\<rparr>)"
        and e1: "env_same s t1"
      using post by (auto simp: alloc_post_def)
    obtain u t2 r t3 where steps:
        "copy_entries (h_data (entries_mh m)) (h_data eh) (table_size m) nts 0 t1 = Inr (u, t2)"
        "mem_free tb (entries_mh m) t2 = Inr (r, t3)" and e3: "env_same s t3"
        and ln3: "load_entries (h_data eh) t3 = Inr (rehash (unat nts) es, t3)"
        and own3: "\<exists>b. owned t3 eh b"
        and h3: "\<And>b. b \<noteq> a \<Longrightarrow> heap t3 b = ((heap s)(pbase (h_data (entries_mh m)) := None)) b"
      using resize_copy [OF rep nz a eh h1 e1] by metis
    have lm: "load_map (h_data mh) s = Inr (m, s)" and A: "h_alloc mh = A"
      and ne: "pbase (h_data mh) \<noteq> pbase (h_data (entries_mh m))"
      and own: "\<exists>b. owned s mh b" "\<exists>b. owned s (entries_mh m) b"
      using rep by (auto simp: map_rep_def)
    have apart: "a \<noteq> pbase (h_data mh)" "a \<noteq> pbase (h_data (entries_mh m))"
      using own a by (auto simp: owned_def)
    have lm3: "load_map (h_data mh) t3 = Inr (m, t3)"
      by (rule load_map_frame [OF lm]) (use h3 apart ne in auto)
    let ?m = "m\<lparr>table_size := nts, entries_mh := eh\<rparr>"
    let ?t = "set_content (h_data mh) (Map_obj ?m) t3"
    have res: "resize_entries_table tb mh g s = Inr (True, ?t)"
      using False by (simp add: start cbind_apply steps update_map_exec [OF lm3]
          update_map_exec [OF load_map_set [OF lm3]])
    have ln: "load_entries (h_data eh) ?t = Inr (rehash (unat nts) es, ?t)"
      by (rule load_entries_frame [OF ln3]) (use apart eh in \<open>simp add: heap_set_content\<close>)
    have "\<exists>b. owned t3 mh b" using own(1) h3 apart ne by (auto simp: owned_def)
    then have "map_rep A mh ?m (rehash (unat nts) es) ?t"
      using A apart eh nz ln load_map_set [OF lm3, of ?m] own3
      by (auto simp: map_rep_def intro!: owned_set_content)
    then show ?thesis
      using a eh e3 h3 ne apart by (auto simp: runs_def res heap_set_content foot_def)
  qed
qed

end

lemma unat_double: "n < 0x80000000 \<Longrightarrow> unat (2 * n :: uint) = 2 * unat n"
  by (simp add: unat_word_ariths word_less_nat_alt)

lemma map_rep_heap: "map_rep A mh m es s \<Longrightarrow> heap t = heap s \<Longrightarrow> map_rep A mh m es t"
  by (auto simp: map_rep_def owned_def intro: load_map_frame load_entries_frame)

lemma fresh_answer_set_content [simp]: "fresh_answer (set_content p c s) = fresh_answer s"
  by (auto simp: fresh_answer_def heap_set_content Let_def)

lemma plain_alloc_clear_null:
  assumes "mem_alloc_clear tb MEM_ALLOCATOR_PLAIN n s = Inr (h, t)"
  shows "h_data h = NULL \<longleftrightarrow> fresh_answer s = 0"
  using assms
  by (auto simp: mem_alloc_clear_def mem_alloc_plain plain_alloc_def cbind_Inr_iff sigint_guard_def
      signal_int_def malloc_def fresh_answer_def log_event_def put_block_def Let_def mem_is_valid_def
      split: if_splits)

context owning_allocator
begin

text \<open>
  Growth. The copy of the entries pointer that do_set took before the resize still points at the
  table the resize released, so the store of the new entry is an access to freed memory.
\<close>

lemma do_set_growth:
  assumes rep: "map_rep A mh m es s" and p: "probe es k = Some i"
    and free: "key_hash (es ! i) = 0"
    and full: "table_size m div 2 < entry_count m + 1" and small: "table_size m < 0x80000000"
    and s1: "s1 = set_content (h_data mh) (Map_obj (m\<lparr>entry_count := entry_count m + 1\<rparr>)) s"
    and al: "mem_alloc_clear tb A (table_bytes (2 * table_size m)) s1 = Inr (eh, t1)"
  shows "h_data eh \<noteq> NULL \<Longrightarrow> do_set tb mh k v s = Inl Dangling"
    and "h_data eh = NULL \<Longrightarrow> runs (do_set tb mh k v) s (\<lambda>ok t. \<not> ok \<and> env_same s t \<and>
           heap t = heap s1 \<and> map_rep A mh (m\<lparr>entry_count := entry_count m + 1\<rparr>) es t)"
proof -
  note pos = probe_position [OF rep p]
  let ?m = "m\<lparr>entry_count := entry_count m + 1\<rparr>"
  have lm: "load_map (h_data mh) s = Inr (m, s)"
    and le: "load_entries (h_data (entries_mh m)) s = Inr (es, s)"
    and len: "length es = unat (table_size m)" and nz: "table_size m \<noteq> 0"
    and base: "pbase (h_data (entries_mh m)) \<noteq> 0"
    using rep by (auto simp: map_rep_def owned_def)
  have rep1: "map_rep A mh ?m es s1" unfolding s1 using rep by (rule map_rep_map) simp_all
  have lm1: "load_map (h_data mh) s1 = Inr (?m, s1)" using rep1 by (simp add: map_rep_def)
  have ns: "new_size (table_size ?m) True = ret (2 * table_size m)"
    using small by (simp add: new_size_def)
  have nz2: "2 * table_size m \<noteq> 0"
    using unat_double [OF small] nz by (metis mult_is_0 unat_eq_zero zero_neq_numeral unat_0)
  have start: "do_set tb mh k v s = (case resize_entries_table tb mh True s1 of
      Inl e \<Rightarrow> Inl e
    | Inr (ok, t) \<Rightarrow> if \<not> ok then Inr (False, t)
        else cbind (find_entry_pos tb mh k) (\<lambda>pos.
          cbind (update_entry (h_data (entries_mh m)) (unat pos) (\<lambda>e. e\<lparr>key_hash := k\<rparr>)) (\<lambda>_.
          cbind (update_entry (h_data (entries_mh m)) (unat pos) (\<lambda>e. e\<lparr>value_handle := v\<rparr>)) (\<lambda>_.
          ret True))) t)"
    using pos p free full lm1
    by (simp add: do_set_def cbind_apply map_rep_p [OF rep] find_entry_pos_exec [OF rep] lm
        update_map_exec [OF lm] load_entry_exec [OF le] flip: s1 split: sum.splits)
  obtain ok t where rs: "resize_entries_table tb mh True s1 = Inr (ok, t)"
      and post: "env_same s1 t" "ok = (h_data eh \<noteq> NULL)"
        "if ok then map_rep A mh (?m\<lparr>table_size := 2 * table_size m, entries_mh := eh\<rparr>)
              (rehash (unat (2 * table_size m)) es) t
            \<and> heap s1 (pbase (h_data eh)) = None \<and> heap t (pbase (h_data (entries_mh ?m))) = None
            \<and> (\<forall>a. a \<notin> insert (pbase (h_data eh)) (foot mh ?m) \<longrightarrow> heap t a = heap s1 a)
         else heap t = heap s1"
    using resize_runs [OF rep1 ns nz2 al] by (auto elim!: runsE)
  show "do_set tb mh k v s = Inl Dangling" if "h_data eh \<noteq> NULL"
  proof -
    have rep2: "map_rep A mh (?m\<lparr>table_size := 2 * table_size m, entries_mh := eh\<rparr>)
          (rehash (unat (2 * table_size m)) es) t"
      and gone: "heap t (pbase (h_data (entries_mh m))) = None"
      using post that by simp_all
    have "0 < unat (table_size m)" using nz by (simp add: unat_gt_0)
    then have "length es < unat (2 * table_size m)"
      by (simp add: unat_double [OF small] len)
    with card_occupied_rehash
    have "card (occupied (rehash (unat (2 * table_size m)) es)) < unat (2 * table_size m)"
      by (rule le_less_trans)
    then obtain j where "probe (rehash (unat (2 * table_size m)) es) k = Some j"
      using probe_empty_slot [of "rehash (unat (2 * table_size m)) es" k] by auto
    then have "find_entry_pos tb mh k t = Inr (of_nat j, t)"
      by (simp add: find_entry_pos_exec [OF rep2])
    then show ?thesis
      using that post(2) by (simp add: start rs cbind_apply update_entry_dangling [OF base gone])
  qed
  show "runs (do_set tb mh k v) s (\<lambda>ok t. \<not> ok \<and> env_same s t \<and> heap t = heap s1 \<and>
      map_rep A mh ?m es t)" if "h_data eh = NULL"
    using that post start rs rep1 s1
    by (auto simp: runs_def intro: map_rep_heap elim: env_same_trans [rotated])
qed

end

end
