(* ===== verification/Ds_Map_Spec.thy ===== *)
theory Ds_Map_Spec
  imports Ds_Map_Proofs
begin

text \<open>
  The contract of the map. \<open>map_ok\<close> is the invariant of a map that has not lost an entry: its
  table is chained (every entry can be probed), the entry count bounds the number of occupied
  slots, and at most half of the slots are occupied. The abstract value of a map is the partial
  function \<open>lookup es\<close> from hashes to values.
\<close>

definition counted :: "cmap \<Rightarrow> map_entry list \<Rightarrow> bool" where
  "counted m es \<longleftrightarrow>
     card (occupied es) \<le> unat (entry_count m) \<and> 2 * card (occupied es) \<le> unat (table_size m)"

definition map_ok ::
  "mem_allocator \<Rightarrow> mem_handle \<Rightarrow> cmap \<Rightarrow> map_entry list \<Rightarrow> cstate \<Rightarrow> bool" where
  "map_ok A mh m es s \<longleftrightarrow> map_rep A mh m es s \<and> chained es \<and> counted m es"

lemma map_okD:
  assumes "map_ok A mh m es s"
  shows "map_rep A mh m es s" and "chained es" and "counted m es"
  using assms by (auto simp: map_ok_def)

lemma counted_room:
  assumes "map_rep A mh m es s" and "counted m es"
  shows "card (occupied es) < length es"
proof -
  have "0 < unat (table_size m)" "length es = unat (table_size m)"
    using assms(1) by (auto simp: map_rep_def unat_gt_0)
  then show ?thesis using assms(2) by (simp add: counted_def)
qed

lemma map_rep_probe:
  assumes "map_rep A mh m es s" and "counted m es"
  obtains i where "probe es k = Some i"
  using probe_empty_slot [OF counted_room [OF assms]] by auto

lemma lookup_empty_slot: "probe es k = Some i \<Longrightarrow> lookup es k = None \<longleftrightarrow> key_hash (es ! i) = 0"
  by (simp add: lookup_def)

lemma counted_put_same:
  "counted m es \<Longrightarrow> i < length es \<Longrightarrow> key_hash (es ! i) \<noteq> 0 \<Longrightarrow> key_hash e \<noteq> 0 \<Longrightarrow>
   counted m (es[i := e])"
proof -
  assume c: "counted m es" and i: "i < length es" and e: "key_hash (es ! i) \<noteq> 0" "key_hash e \<noteq> 0"
  have "i \<in> occupied es" using i e by (simp add: occupied_def)
  then have "occupied (es[i := e]) = occupied es" using i e by (simp add: occupied_put insert_absorb)
  then show ?thesis using c by (simp add: counted_def)
qed

lemma counted_put_new:
  assumes c: "counted m es" and i: "i < length es" and e: "key_hash (es ! i) = 0" "key_hash e \<noteq> 0"
    and room: "2 * (unat (entry_count m) + 1) \<le> unat (table_size m)"
  shows "counted (m\<lparr>entry_count := entry_count m + 1\<rparr>) (es[i := e])"
    and "unat (entry_count m + 1) = unat (entry_count m) + 1"
    and "\<not> table_size m div 2 < entry_count m + 1"
proof -
  have "unat (table_size m) < 2 ^ LENGTH(32)" by (rule unsigned_less)
  then have "unat (entry_count m) + 1 < 2 ^ LENGTH(32)" using room by simp
  then show up: "unat (entry_count m + 1) = unat (entry_count m) + 1"
    by (simp add: unat_word_ariths)
  show "\<not> table_size m div 2 < entry_count m + 1"
    using room up by (simp add: word_less_nat_alt unat_div)
  have "i \<notin> occupied es" using e by (simp add: occupied_def)
  then show "counted (m\<lparr>entry_count := entry_count m + 1\<rparr>) (es[i := e])"
    using c i e room up by (simp add: counted_def occupied_put)
qed

lemma counted_remove:
  assumes c: "counted m es" and i: "i < length es" and e: "key_hash (es ! i) \<noteq> 0"
  shows "counted (m\<lparr>entry_count := entry_count m - 1\<rparr>) (es[i := zero_entry])"
    and "unat (entry_count m - 1) = unat (entry_count m) - 1" and "entry_count m \<noteq> 0"
proof -
  have occ: "i \<in> occupied es" using i e by (simp add: occupied_def)
  then have "card (occupied es) \<noteq> 0" by (metis card_0_eq empty_iff finite_occupied)
  then have "unat (entry_count m) \<noteq> 0" using c unfolding counted_def by linarith
  then show nz: "entry_count m \<noteq> 0" by (metis unat_0)
  then show down: "unat (entry_count m - 1) = unat (entry_count m) - 1"
    by (rule unat_minus_one)
  have "card (occupied (es[i := zero_entry])) = card (occupied es) - 1"
    using occ i by (simp add: occupied_remove)
  moreover have "unat (entry_count (m\<lparr>entry_count := entry_count m - 1\<rparr>)) = unat (entry_count m) - 1"
    and "unat (table_size (m\<lparr>entry_count := entry_count m - 1\<rparr>)) = unat (table_size m)"
    using down by simp_all
  ultimately show "counted (m\<lparr>entry_count := entry_count m - 1\<rparr>) (es[i := zero_entry])"
    using c unfolding counted_def by linarith
qed

lemma map_rep_foot:
  "map_rep A mh m es s \<Longrightarrow> \<forall>a \<in> foot mh m. heap t a = heap s a \<Longrightarrow> map_rep A mh m es t"
  unfolding map_rep_def foot_def
  by (auto simp: owned_def intro: load_map_frame load_entries_frame)

lemma map_ok_foot:
  "map_ok A mh m es s \<Longrightarrow> \<forall>a \<in> foot mh m. heap t a = heap s a \<Longrightarrow> map_ok A mh m es t"
  by (auto simp: map_ok_def intro: map_rep_foot)

section \<open>The operations refine the abstract map\<close>

context transparent_handles
begin

lemma map_is_valid_exec: "map_rep A mh m es s \<Longrightarrow> map_is_valid tb mh s = Inr (True, s)"
proof -
  assume rep: "map_rep A mh m es s"
  then have "h_data mh \<noteq> NULL" "h_data (entries_mh m) \<noteq> NULL" "load_map (h_data mh) s = Inr (m, s)"
    by (auto simp: map_rep_def owned_def)
  then show ?thesis by (simp add: map_is_valid_def mem_is_valid_def cbind_apply map_rep_p [OF rep])
qed

lemma do_get_refines:
  assumes ok: "map_ok A mh m es s"
  shows "do_get tb mh k s = Inr (case lookup es k of None \<Rightarrow> null_handle | Some v \<Rightarrow> v, s)"
proof -
  obtain i where "probe es k = Some i" using map_okD [OF ok] by (auto intro: map_rep_probe)
  then show ?thesis by (rule do_get_exec [OF map_okD(1) [OF ok]])
qed

text \<open>The table after a do_set is the old one with the new entry in the slot the probe finds.\<close>

lemma do_set_at:
  assumes ok: "map_ok A mh m es s" and k: "k \<noteq> 0"
    and room: "lookup es k = None \<Longrightarrow> 2 * (unat (entry_count m) + 1) \<le> unat (table_size m)"
  shows "runs (do_set tb mh k v) s (\<lambda>r t. r \<and> frame (foot mh m) s t \<and>
    (\<exists>m' es'. map_ok A mh m' es' t \<and> lookup es' = (lookup es)(k \<mapsto> v) \<and>
       entries_mh m' = entries_mh m \<and> table_size m' = table_size m \<and>
       entry_count m' = (if lookup es k = None then entry_count m + 1 else entry_count m) \<and>
       (\<exists>i. probe es k = Some i \<and> es' = es[i := \<lparr>key_hash = k, value_handle = v\<rparr>])))"
proof -
  note rep = map_okD(1) [OF ok] and ch = map_okD(2) [OF ok] and ct = map_okD(3) [OF ok]
  obtain i where p: "probe es k = Some i" using rep ct by (rule map_rep_probe)
  have i: "i < length es" using p by (rule probe_less)
  let ?e = "\<lparr>key_hash = k, value_handle = v\<rparr>"
  have ch': "chained (es[i := ?e])" and lk: "lookup (es[i := ?e]) = (lookup es)(k \<mapsto> v)"
    using chained_put [OF ch p k, of ?e] lookup_put [OF ch p k, of ?e] by simp_all
  show ?thesis
  proof (cases "key_hash (es ! i) = 0")
    case True
    then have new: "lookup es k = None" using p by (simp add: lookup_empty_slot)
    note put = counted_put_new [OF ct i True, of ?e] room [OF new]
    let ?m = "m\<lparr>entry_count := entry_count m + 1\<rparr>"
    let ?t = "set_content (h_data (entries_mh m)) (Table (es[i := ?e]))
                (set_content (h_data mh) (Map_obj ?m) s)"
    have rep1: "map_rep A mh ?m es (set_content (h_data mh) (Map_obj ?m) s)"
      using rep by (rule map_rep_map) simp_all
    have rep2: "map_rep A mh ?m (es[i := ?e]) ?t"
      using map_rep_table [OF rep1, of "es[i := ?e]"] by simp
    have "frame (foot mh m) s ?t" by (auto simp: foot_def intro!: frame_set_content)
    moreover have "map_ok A mh ?m (es[i := ?e]) ?t" using rep2 ch' put k by (simp add: map_ok_def)
    ultimately show ?thesis
      using do_set_new [OF rep p True, of v] put k lk new p
      by (auto simp: runs_def intro!: exI [of _ ?m] exI [of _ "es[i := ?e]"])
  next
    case False
    then have old: "lookup es k \<noteq> None" using p by (simp add: lookup_empty_slot)
    let ?t = "set_content (h_data (entries_mh m)) (Table (es[i := ?e])) s"
    have "map_rep A mh m (es[i := ?e]) ?t" using map_rep_table [OF rep, of "es[i := ?e]"] by simp
    then have "map_ok A mh m (es[i := ?e]) ?t"
      using ch' counted_put_same [OF ct i False, of ?e] k by (simp add: map_ok_def)
    moreover have "frame (foot mh m) s ?t" by (auto simp: foot_def intro!: frame_set_content)
    ultimately show ?thesis
      using do_set_existing [OF rep p False, of v] lk old p
      by (auto simp: runs_def intro!: exI [of _ m] exI [of _ "es[i := ?e]"])
  qed
qed

lemma do_set_slots:
  assumes "map_ok A mh m es s" and "k \<noteq> 0"
    and "lookup es k = None \<Longrightarrow> 2 * (unat (entry_count m) + 1) \<le> unat (table_size m)"
  shows "runs (do_set tb mh k v) s (\<lambda>r t. r \<and> frame (foot mh m) s t \<and>
    (\<exists>m' es'. map_ok A mh m' es' t \<and> lookup es' = (lookup es)(k \<mapsto> v) \<and>
       entries_mh m' = entries_mh m \<and> table_size m' = table_size m \<and>
       entry_count m' = (if lookup es k = None then entry_count m + 1 else entry_count m) \<and>
       set es' \<subseteq> insert \<lparr>key_hash = k, value_handle = v\<rparr> (set es)))"
  by (rule runs_conseq, rule do_set_at [OF assms(1,2)], erule assms(3))
    (metis set_update_subset_insert)

lemma do_set_refines:
  assumes "map_ok A mh m es s" and "k \<noteq> 0"
    and "lookup es k = None \<Longrightarrow> 2 * (unat (entry_count m) + 1) \<le> unat (table_size m)"
  shows "runs (do_set tb mh k v) s (\<lambda>r t. r \<and> frame (foot mh m) s t \<and>
    (\<exists>m' es'. map_ok A mh m' es' t \<and> lookup es' = (lookup es)(k \<mapsto> v) \<and>
       entries_mh m' = entries_mh m \<and> table_size m' = table_size m \<and>
       entry_count m' = (if lookup es k = None then entry_count m + 1 else entry_count m)))"
  by (rule runs_conseq, rule do_set_slots [OF assms(1,2)], erule assms(3)) blast

lemma do_delete_slots:
  assumes ok: "map_ok A mh m es s"
    and keep: "\<not> (unat (entry_count m) \<le> unat (table_size m) div 4 \<and> 32 < unat (table_size m))"
    and far: "\<And>i. probe es k = Some i \<Longrightarrow> removable es i"
  shows "runs (do_delete tb mh k) s (\<lambda>r t. (r \<longleftrightarrow> lookup es k \<noteq> None) \<and> frame (foot mh m) s t \<and>
    (\<exists>m' es'. map_ok A mh m' es' t \<and> lookup es' = (lookup es)(k := None) \<and>
       entries_mh m' = entries_mh m \<and> table_size m' = table_size m \<and>
       entry_count m' = (if lookup es k = None then entry_count m else entry_count m - 1) \<and>
       (lookup es k = None \<and> es' = es \<or> (\<exists>i. probe es k = Some i \<and> es' = es[i := zero_entry]))))"
proof -
  note rep = map_okD(1) [OF ok] and ch = map_okD(2) [OF ok] and ct = map_okD(3) [OF ok]
  obtain i where p: "probe es k = Some i" using rep ct by (rule map_rep_probe)
  have i: "i < length es" using p by (rule probe_less)
  show ?thesis
  proof (cases "key_hash (es ! i) = 0")
    case True
    then have "lookup es k = None" using p by (simp add: lookup_empty_slot)
    moreover from this have "(lookup es)(k := None) = lookup es" by (rule fun_upd_idem)
    ultimately show ?thesis using do_delete_absent [OF rep p True] ok
      by (auto simp: runs_def intro!: exI [of _ m] exI [of _ es])
  next
    case False
    then have old: "lookup es k \<noteq> None" using p by (simp add: lookup_empty_slot)
    let ?es = "es[i := zero_entry]" and ?m = "m\<lparr>entry_count := entry_count m - 1\<rparr>"
    let ?t = "set_content (h_data mh) (Map_obj ?m)
                (set_content (h_data (entries_mh m)) (Table ?es) s)"
    note ct' = counted_remove [OF ct i False]
    have "0 < unat (entry_count m)" using ct' by (simp add: unat_gt_0)
    then have nosh: "\<not> (entry_count m - 1 < table_size m div 4 \<and> INITIAL_TABLE_SIZE < table_size m)"
      using keep ct' by (auto simp: word_less_nat_alt INITIAL_TABLE_SIZE_def unat_div)
    have rep1: "map_rep A mh m ?es (set_content (h_data (entries_mh m)) (Table ?es) s)"
      by (rule map_rep_table [OF rep]) simp
    have "map_rep A mh ?m ?es ?t" using rep1 by (rule map_rep_map) simp_all
    then have "map_ok A mh ?m ?es ?t"
      using ct' chained_remove [OF ch i far [OF p]] by (simp add: map_ok_def)
    moreover have "frame (foot mh m) s ?t" by (auto simp: foot_def intro!: frame_set_content)
    ultimately show ?thesis
      using do_delete_present [OF rep p False nosh] old lookup_remove [OF ch p False far [OF p]] p
      by (auto simp: runs_def intro!: exI [of _ ?m] exI [of _ ?es])
  qed
qed

lemma do_delete_refines:
  assumes "map_ok A mh m es s"
    and "\<not> (unat (entry_count m) \<le> unat (table_size m) div 4 \<and> 32 < unat (table_size m))"
    and "\<And>i. probe es k = Some i \<Longrightarrow> removable es i"
  shows "runs (do_delete tb mh k) s (\<lambda>r t. (r \<longleftrightarrow> lookup es k \<noteq> None) \<and> frame (foot mh m) s t \<and>
    (\<exists>m' es'. map_ok A mh m' es' t \<and> lookup es' = (lookup es)(k := None) \<and>
       entries_mh m' = entries_mh m \<and> table_size m' = table_size m \<and>
       entry_count m' = (if lookup es k = None then entry_count m else entry_count m - 1)))"
  by (rule runs_conseq [OF do_delete_slots [OF assms]]) blast+

end

lemma resized_counted:
  assumes "counted m es" and "2 * card (occupied es) \<le> unat nts"
  shows "counted (m\<lparr>table_size := nts, entries_mh := eh\<rparr>) (rehash n es)"
  using assms card_occupied_rehash_occupied [of n es] by (simp add: counted_def)

text \<open>
  What the deletion of a stored key leaves. A table that kept its size has lost the key and nothing
  else; one that shrunk holds nothing new, and all the other entries exactly if the remaining hashes
  have different homes in the smaller table.
\<close>

definition due_to_shrink :: "cmap \<Rightarrow> bool" where
  "due_to_shrink m \<longleftrightarrow> unat (entry_count m) \<le> unat (table_size m) div 4 \<and> 32 < unat (table_size m)"

definition deletes :: "uint \<Rightarrow> cmap \<Rightarrow> map_entry list \<Rightarrow> bool \<Rightarrow> cmap \<Rightarrow> map_entry list \<Rightarrow> bool" where
  "deletes k m es shrunk m' es' \<longleftrightarrow> entry_count m' = entry_count m - 1 \<and>
     lookup es' \<subseteq>\<^sub>m (lookup es)(k := None) \<and>
     (if shrunk then table_size m' = table_size m div 2 \<and>
        (lookup es' = (lookup es)(k := None) \<longleftrightarrow>
         inj_on (\<lambda>h. unat h mod unat (table_size m')) (dom ((lookup es)(k := None))))
      else table_size m' = table_size m \<and> entries_mh m' = entries_mh m \<and>
        lookup es' = (lookup es)(k := None))"

lemma deletes_same:
  "entry_count m' = entry_count m - 1 \<Longrightarrow> table_size m' = table_size m \<Longrightarrow> entries_mh m' = entries_mh m \<Longrightarrow>
   lookup es' = (lookup es)(k := None) \<Longrightarrow> deletes k m es False m' es'"
  by (simp add: deletes_def)

lemma deletes_lookup: "deletes k m es False m' es' \<Longrightarrow> lookup es' = (lookup es)(k := None)"
  by (simp add: deletes_def)

context owning_allocator
begin

text \<open>
  Resizing a map that satisfies the invariant: it fails and changes nothing, or the map holds the
  rehashed table. No entry is lost exactly when no two stored hashes share a slot of the new size.
\<close>

lemma resize_refines:
  assumes rep: "map_rep A mh m es s" and ct: "counted m es"
    and ns: "new_size (table_size m) g = ret nts"
    and nz: "nts \<noteq> 0" and fits: "2 * card (occupied es) \<le> unat nts"
  shows "runs (resize_entries_table tb mh g) s (\<lambda>r t. env_same s t \<and>
    (if r then (\<exists>eh. map_ok A mh (m\<lparr>table_size := nts, entries_mh := eh\<rparr>) (rehash (unat nts) es) t \<and>
           heap s (pbase (h_data eh)) = None \<and> heap t (pbase (h_data (entries_mh m))) = None \<and>
           (\<forall>a. a \<notin> insert (pbase (h_data eh)) (foot mh m) \<longrightarrow> heap t a = heap s a))
     else heap t = heap s))"
proof -
  obtain eh t1 where al: "mem_alloc_clear tb A (table_bytes nts) s = Inr (eh, t1)"
    using alloc_clear_law [of "table_bytes nts" s] by (auto elim: runsE)
  show ?thesis
    using resize_runs [OF rep ns nz al] resized_counted [OF ct fits, of eh "unat nts"] chained_rehash
    by (auto simp: map_ok_def elim!: runs_conseq split: if_splits)
qed

lemma do_delete_shrinking:
  assumes rep: "map_rep A mh m es s" and p: "probe es k = Some i"
    and there: "key_hash (es ! i) \<noteq> 0"
    and shrink: "entry_count m - 1 < table_size m div 4" "INITIAL_TABLE_SIZE < table_size m"
  shows "do_delete tb mh k s = resize_entries_table tb mh False
    (set_content (h_data mh) (Map_obj (m\<lparr>entry_count := entry_count m - 1\<rparr>))
      (set_content (h_data (entries_mh m)) (Table (es[i := zero_entry])) s))"
proof -
  note pos = probe_position [OF rep p]
  have lm: "load_map (h_data mh) s = Inr (m, s)"
    and le: "load_entries (h_data (entries_mh m)) s = Inr (es, s)"
    using rep by (auto simp: map_rep_def)
  let ?t = "set_content (h_data (entries_mh m)) (Table (es[i := zero_entry])) s"
  have "map_rep A mh m (es[i := zero_entry]) ?t" using rep by (rule map_rep_table) simp
  then have lm': "load_map (h_data mh) ?t = Inr (m, ?t)" by (simp add: map_rep_def)
  show ?thesis
    using pos p there shrink
    by (simp add: do_delete_def cbind_apply map_rep_p [OF rep] find_entry_pos_exec [OF rep] lm
        load_entry_exec [OF le] update_entry_exec [OF le]
        update_entry_exec [OF load_entries_set [OF le]] zero_entry_def [symmetric]
        update_map_exec [OF lm'] load_map_set [OF lm'])
qed

text \<open>
  Deleting an entry no other entry was probed over from a table that is due to shrink: the entry is
  gone either way, and the result says whether the smaller table could be allocated.
\<close>

lemma do_delete_shrinks:
  assumes ok: "map_ok A mh m es s" and p: "probe es k = Some i" and there: "key_hash (es ! i) \<noteq> 0"
    and far: "removable es i" and due: "due_to_shrink m"
    and al: "mem_alloc_clear tb A (table_bytes (table_size m div 2))
      (set_content (h_data mh) (Map_obj (m\<lparr>entry_count := entry_count m - 1\<rparr>))
        (set_content (h_data (entries_mh m)) (Table (es[i := zero_entry])) s)) = Inr (eh, u)"
  shows "runs (do_delete tb mh k) s (\<lambda>r t. env_same s t \<and> r = (h_data eh \<noteq> NULL) \<and>
    (\<forall>a. heap s a \<noteq> None \<and> a \<notin> foot mh m \<longrightarrow> heap t a = heap s a) \<and>
    (r \<longrightarrow> heap t (pbase (h_data (entries_mh m))) = None) \<and>
    (\<exists>m' es'. map_ok A mh m' es' t \<and> deletes k m es r m' es'))"
proof -
  note rep = map_okD(1) [OF ok] and ch = map_okD(2) [OF ok] and ct = map_okD(3) [OF ok]
  have i: "i < length es" using p by (rule probe_less)
  let ?es = "es[i := zero_entry]" and ?m = "m\<lparr>entry_count := entry_count m - 1\<rparr>"
  let ?t = "set_content (h_data mh) (Map_obj ?m) (set_content (h_data (entries_mh m)) (Table ?es) s)"
  let ?n = "table_size m div 2"
  let ?m' = "?m\<lparr>table_size := ?n, entries_mh := eh\<rparr>"
  note ct' = counted_remove [OF ct i there]
  have big: "unat (entry_count m) \<le> unat (table_size m) div 4" "32 < unat (table_size m)"
    using due by (simp_all add: due_to_shrink_def)
  have "0 < unat (entry_count m)" using ct' by (simp add: unat_gt_0)
  then have "entry_count m - 1 < table_size m div 4" "INITIAL_TABLE_SIZE < table_size m"
    using big ct' by (auto simp: word_less_nat_alt INITIAL_TABLE_SIZE_def unat_div)
  then have run: "do_delete tb mh k s = resize_entries_table tb mh False ?t"
    by (rule do_delete_shrinking [OF rep p there])
  have "map_rep A mh m ?es (set_content (h_data (entries_mh m)) (Table ?es) s)"
    by (rule map_rep_table [OF rep]) simp
  then have rep2: "map_rep A mh ?m ?es ?t" by (rule map_rep_map) simp_all
  have ch2: "chained ?es" using ch i far by (rule chained_remove)
  have lk: "lookup ?es = (lookup es)(k := None)" using ch p there far by (rule lookup_remove)
  have half: "unat ?n = unat (table_size m) div 2" by (simp add: unat_div)
  then have pos: "0 < unat ?n" using big by simp
  then have nz: "?n \<noteq> 0" by (metis less_irrefl unat_0)
  have "card (occupied ?es) \<le> unat (entry_count m) - 1" using ct' unfolding counted_def by simp
  then have fits: "2 * card (occupied ?es) \<le> unat ?n" using big half by linarith
  have ns: "new_size (table_size ?m) False = ret ?n" by (simp add: new_size_def)
  have small: "map_ok A mh ?m' (rehash (unat ?n) ?es) v" if "map_rep A mh ?m' (rehash (unat ?n) ?es) v" for v
    using that resized_counted [OF ct'(1) fits] chained_rehash by (simp add: map_ok_def)
  have shrunk: "deletes k m es True ?m' (rehash (unat ?n) ?es)"
    using lookup_rehash_sub [OF ch2 pos] lookup_rehash_eq_iff [OF ch2 pos] lk by (simp add: deletes_def)
  have same: "deletes k m es False ?m ?es" by (rule deletes_same) (simp_all add: lk)
  have live: "heap ?t a = heap s a" if "a \<notin> foot mh m" for a
    using that by (auto simp: foot_def heap_set_content)
  have dom: "heap ?t a = None \<longleftrightarrow> heap s a = None" for a by (auto simp: heap_set_content)
  obtain r t where step: "resize_entries_table tb mh False ?t = Inr (r, t)" and e: "env_same ?t t"
      and r: "r = (h_data eh \<noteq> NULL)" and post: "if r then map_rep A mh ?m' (rehash (unat ?n) ?es) t
        \<and> heap ?t (pbase (h_data eh)) = None \<and> heap t (pbase (h_data (entries_mh ?m))) = None
        \<and> (\<forall>a. a \<notin> insert (pbase (h_data eh)) (foot mh ?m) \<longrightarrow> heap t a = heap ?t a) else heap t = heap ?t"
    using resize_runs [OF rep2 ns nz al] by (rule runsE) blast
  have "env_same s t" using e by (simp add: env_same_def)
  moreover have "\<forall>a. heap s a \<noteq> None \<and> a \<notin> foot mh m \<longrightarrow> heap t a = heap s a"
  proof (intro allI impI, elim conjE)
    fix a assume a: "heap s a \<noteq> None" "a \<notin> foot mh m"
    then have "heap t a = heap ?t a" using post dom by (cases "a = pbase (h_data eh)") (auto simp: foot_def split: if_splits)
    then show "heap t a = heap s a" using live [OF a(2)] by simp
  qed
  moreover have "r \<longrightarrow> heap t (pbase (h_data (entries_mh m))) = None" using post by (auto split: if_splits)
  moreover have "\<exists>m' es'. map_ok A mh m' es' t \<and> deletes k m es r m' es'"
  proof (cases r)
    case True
    then have "map_ok A mh ?m' (rehash (unat ?n) ?es) t" using post small by simp
    moreover have "deletes k m es r ?m' (rehash (unat ?n) ?es)" using shrunk True by simp
    ultimately show ?thesis by blast
  next
    case False
    then have "map_rep A mh ?m ?es t" using post by (intro map_rep_heap [OF rep2]) simp
    then have "map_ok A mh ?m ?es t" using ct'(1) ch2 by (simp add: map_ok_def)
    moreover have "deletes k m es r ?m ?es" using same False by simp
    ultimately show ?thesis by blast
  qed
  ultimately show ?thesis using r by (simp add: runs_def run step)
qed

end

section \<open>The public operations on pointer keys\<close>

context transparent_handles
begin

lemma map_get_ptr_exec:
  assumes ok: "map_ok A mh m es s"
  shows "map_get_ptr tb mh key s =
    Inr (case lookup es (hash_ptr key) of None \<Rightarrow> null_handle | Some v \<Rightarrow> v, s)"
  by (simp add: map_get_ptr_def cbind_apply map_is_valid_exec [OF map_okD(1) [OF ok]]
      do_get_refines [OF ok])

lemma map_set_ptr_exec:
  assumes "map_ok A mh m es s" and "h_data v \<noteq> NULL"
  shows "map_set_ptr tb mh key v s = do_set tb mh (hash_ptr key) v s"
  using assms
  by (simp add: map_set_ptr_def cbind_apply map_is_valid_exec [OF map_okD(1)] mem_is_valid_def)

text \<open>A deletion that empties a slot another entry was probed over.\<close>

lemma do_delete_blocked:
  assumes ok: "map_ok A mh m es s" and p: "probe es k = Some i"
    and there: "key_hash (es ! i) \<noteq> 0" and b: "j < length es" "blocks es i j" "key_hash (es ! j) \<noteq> 0"
    and keep: "\<not> (entry_count m - 1 < table_size m div 4 \<and> INITIAL_TABLE_SIZE < table_size m)"
  shows "runs (do_delete tb mh k) s (\<lambda>r t. r \<and> do_get tb mh (key_hash (es ! j)) t = Inr (null_handle, t))"
proof -
  note rep = map_okD(1) [OF ok] and ch = map_okD(2) [OF ok] and ct = map_okD(3) [OF ok]
  have i: "i < length es" using p by (rule probe_less)
  let ?es = "es[i := zero_entry]" and ?m = "m\<lparr>entry_count := entry_count m - 1\<rparr>"
  let ?t = "set_content (h_data mh) (Map_obj ?m) (set_content (h_data (entries_mh m)) (Table ?es) s)"
  have "map_rep A mh m ?es (set_content (h_data (entries_mh m)) (Table ?es) s)"
    by (rule map_rep_table [OF rep]) simp
  then have rep': "map_rep A mh ?m ?es ?t" by (rule map_rep_map) simp_all
  then obtain q where "probe ?es (key_hash (es ! j)) = Some q"
    using counted_remove(1) [OF ct i there] by (rule map_rep_probe)
  then have "do_get tb mh (key_hash (es ! j)) ?t = Inr (null_handle, ?t)"
    using lookup_blocked [OF i b ch] by (simp add: do_get_exec [OF rep'])
  then show ?thesis by (simp add: runs_def do_delete_present [OF rep p there keep])
qed

text \<open>A key whose hash is 0 is counted but never found.\<close>

lemma do_set_zero:
  assumes ok: "map_ok A mh m es s" and room: "2 * (unat (entry_count m) + 1) \<le> unat (table_size m)"
  shows "runs (do_set tb mh 0 v) s (\<lambda>r t. r \<and>
    (\<exists>m' es'. map_ok A mh m' es' t \<and> lookup es' = lookup es \<and> entry_count m' = entry_count m + 1))"
proof -
  note rep = map_okD(1) [OF ok] and ch = map_okD(2) [OF ok] and ct = map_okD(3) [OF ok]
  obtain i where p: "probe es 0 = Some i" using rep ct by (rule map_rep_probe)
  have i: "i < length es" and e: "key_hash (es ! i) = 0" using p by (auto simp: probe_Some_iff stops_def)
  let ?e = "\<lparr>key_hash = 0, value_handle = v\<rparr>"
  let ?m = "m\<lparr>entry_count := entry_count m + 1\<rparr>" and ?es = "es[i := ?e]"
  let ?t = "set_content (h_data (entries_mh m)) (Table ?es) (set_content (h_data mh) (Map_obj ?m) s)"
  note up = counted_put_new [OF ct i e, of "?e\<lparr>key_hash := 1\<rparr>"] room
  have key: "key_hash (?es ! j) = key_hash (es ! j)" for j using e i by (auto simp: nth_list_update)
  have "slot ?es k = slot es k" for k by (rule ext) (simp add: slot_def home_def)
  then have pr: "probe ?es k = probe es k" for k by (simp add: probe_def stops_def key)
  have "card (occupied ?es) = card (occupied es)" by (simp add: occupied_def key)
  then have "counted ?m ?es" using ct up room unfolding counted_def by simp
  moreover have "chained ?es" using ch by (simp add: chained_def key pr)
  moreover have "map_rep A mh ?m es (set_content (h_data mh) (Map_obj ?m) s)"
    using rep by (rule map_rep_map) simp_all
  then have "map_rep A mh ?m ?es ?t" using map_rep_table [of A mh ?m es _ ?es] by simp
  moreover have "lookup ?es = lookup es"
  proof (rule ext)
    fix k show "lookup ?es k = lookup es k"
      using i e by (auto simp: lookup_def pr key nth_list_update split: option.splits)
  qed
  ultimately show ?thesis
    using do_set_new [OF rep p e, of v] up
    by (auto simp: runs_def map_ok_def intro!: exI [of _ ?m] exI [of _ ?es])
qed

end

section \<open>Histories\<close>

text \<open>A client session on one map, and the same session on the abstract value.\<close>

datatype map_call = Set_call ptr mem_handle | Get_call ptr

fun perform :: "table_ops \<Rightarrow> mem_handle \<Rightarrow> map_call \<Rightarrow> mem_handle option prog" where
  "perform tb mh (Set_call key v) = cbind (map_set_ptr tb mh key v) (\<lambda>ok. ret (if ok then Some v else None))"
| "perform tb mh (Get_call key) = cbind (map_get_ptr tb mh key) (\<lambda>v. ret (Some v))"

fun perform_all :: "table_ops \<Rightarrow> mem_handle \<Rightarrow> map_call list \<Rightarrow> mem_handle option list prog" where
  "perform_all tb mh [] = ret []"
| "perform_all tb mh (c # cs) =
     cbind (perform tb mh c) (\<lambda>r. cbind (perform_all tb mh cs) (\<lambda>rs. ret (r # rs)))"

fun answers_of :: "(uint \<rightharpoonup> mem_handle) \<Rightarrow> map_call list \<Rightarrow> mem_handle option list" where
  "answers_of f [] = []"
| "answers_of f (Set_call key v # cs) = Some v # answers_of (f(hash_ptr key \<mapsto> v)) cs"
| "answers_of f (Get_call key # cs) =
     Some (case f (hash_ptr key) of None \<Rightarrow> null_handle | Some v \<Rightarrow> v) # answers_of f cs"

fun sets_of :: "map_call list \<Rightarrow> nat" where
  "sets_of [] = 0"
| "sets_of (Set_call key v # cs) = Suc (sets_of cs)"
| "sets_of (Get_call key # cs) = sets_of cs"

fun proper_call :: "map_call \<Rightarrow> bool" where
  "proper_call (Set_call key v) \<longleftrightarrow> hash_ptr key \<noteq> 0 \<and> h_data v \<noteq> NULL"
| "proper_call (Get_call key) \<longleftrightarrow> True"

context transparent_handles
begin

lemma room_step: "2 * (c + Suc n) \<le> (N :: nat) \<Longrightarrow> c' \<le> c + 1 \<Longrightarrow> 2 * (c' + n) \<le> N"
  by simp

lemma perform_all_refines:
  assumes "map_ok A mh m es s" and "list_all proper_call cs"
    and "2 * (unat (entry_count m) + sets_of cs) \<le> unat (table_size m)"
  shows "runs (perform_all tb mh cs) s (\<lambda>rs t. rs = answers_of (lookup es) cs \<and> frame (foot mh m) s t)"
  using assms
proof (induction cs arbitrary: m es s)
  case Nil
  then show ?case by (simp add: runs_def)
next
  case (Cons c cs)
  show ?case
  proof (cases c)
    case (Get_call key)
    then show ?thesis using Cons.IH [OF Cons.prems(1)] Cons.prems
      by (auto simp: runs_cbind runs_ret cbind_apply map_get_ptr_exec runs_def split: sum.splits)
  next
    case (Set_call key v)
    let ?k = "hash_ptr key"
    have k: "?k \<noteq> 0" and v: "h_data v \<noteq> NULL" using Cons.prems(2) Set_call by simp_all
    have room: "2 * (unat (entry_count m) + Suc (sets_of cs)) \<le> unat (table_size m)"
      using Cons.prems(3) Set_call by simp
    have "unat (table_size m) < 2 ^ LENGTH(32)" by (rule unsigned_less)
    with room have up: "unat (entry_count m + 1) = unat (entry_count m) + 1"
      by (simp add: unat_word_ariths)
    have "runs (do_set tb mh ?k v) s (\<lambda>r t. r \<and> frame (foot mh m) s t \<and>
      (\<exists>m' es'. map_ok A mh m' es' t \<and> lookup es' = (lookup es)(?k \<mapsto> v) \<and>
         entries_mh m' = entries_mh m \<and> table_size m' = table_size m \<and>
         entry_count m' = (if lookup es ?k = None then entry_count m + 1 else entry_count m)))"
      using room by (intro do_set_refines [OF Cons.prems(1) k]) simp
    then obtain t m' es' where set: "do_set tb mh ?k v s = Inr (True, t)"
        and fr: "frame (foot mh m) s t" and ok: "map_ok A mh m' es' t"
        and lk: "lookup es' = (lookup es)(?k \<mapsto> v)"
        and m': "entries_mh m' = entries_mh m" "table_size m' = table_size m"
          "unat (entry_count m') \<le> unat (entry_count m) + 1"
      using up by (auto elim!: runsE split: if_splits)
    have "2 * (unat (entry_count m') + sets_of cs) \<le> unat (table_size m')"
      unfolding m'(2) by (rule room_step [OF room m'(3)])
    then have "runs (perform_all tb mh cs) t
        (\<lambda>rs u. rs = answers_of (lookup es') cs \<and> frame (foot mh m') t u)"
      using Cons.prems(2) by (intro Cons.IH [OF ok]) simp_all
    then show ?thesis
      using fr m' lk Set_call
      by (auto simp: runs_def cbind_apply map_set_ptr_exec [OF Cons.prems(1) v] set foot_def
          dest: frame_trans split: sum.splits)
  qed
qed

end

section \<open>Creation and destruction\<close>

definition empty_map :: "mem_handle \<Rightarrow> cmap" where
  "empty_map eh = \<lparr>entries_mh = eh, entry_count = 0, table_size = 32\<rparr>"

definition created ::
  "mem_allocator \<Rightarrow> cstate \<Rightarrow> mem_handle \<Rightarrow> cstate \<Rightarrow> bool" where
  "created A s mh t \<longleftrightarrow>
     (\<exists>eh. map_ok A mh (empty_map eh) (replicate 32 zero_entry) t \<and> h_size mh = sizeof_map \<and>
        heap s (pbase (h_data mh)) = None \<and> heap s (pbase (h_data eh)) = None \<and>
        (\<forall>a. a \<notin> foot mh (empty_map eh) \<longrightarrow> heap t a = heap s a))"

context owning_allocator
begin

lemma map_create_runs:
  "runs (map_create tb A) s (\<lambda>mh t. env_same s t \<and>
     (if h_data mh = NULL then mh = null_handle \<and> heap t = heap s else created A s mh t))"
proof -
  obtain mh t1 where al: "mem_alloc tb A sizeof_map s = Inr (mh, t1)"
      and post: "alloc_post Fresh A sizeof_map s mh t1"
    using alloc_law by (rule runsE)
  show ?thesis
  proof (cases "h_data mh = NULL")
    case True
    then show ?thesis using al post
      by (auto simp: map_create_def cbind_apply mem_is_valid_def runs_def alloc_post_def)
  next
    case False
    then obtain a where a: "a \<noteq> 0" "heap s a = None"
        and mh: "mh = \<lparr>h_data = Ptr a 0, h_size = sizeof_map, h_alloc = A\<rparr>"
        and h1: "heap t1 = (heap s)(a \<mapsto> \<lparr>b_size = sizeof_map, b_heap = True, b_content = Fresh\<rparr>)"
        and e1: "env_same s t1"
      using post by (auto simp: alloc_post_def)
    let ?m1 = "zero_map\<lparr>table_size := INITIAL_TABLE_SIZE\<rparr>"
    let ?t2 = "set_content (Ptr a 0) (Map_obj ?m1) t1"
    have b: "block_at (Ptr a 0) t1 = Inr \<lparr>b_size = sizeof_map, b_heap = True, b_content = Fresh\<rparr>"
      using a h1 by (simp add: block_at_Inr_iff)
    have zero: "zero_map\<lparr>entry_count := 0\<rparr> = zero_map" by (simp add: zero_map_def)
    have u1: "update_map (Ptr a 0) (\<lambda>m. m\<lparr>entry_count := 0\<rparr>) t1
        = Inr ((), set_content (Ptr a 0) (Map_obj zero_map) t1)"
      and l1: "load_map (Ptr a 0) (set_content (Ptr a 0) (Map_obj zero_map) t1)
        = Inr (zero_map, set_content (Ptr a 0) (Map_obj zero_map) t1)"
      using update_struct_fresh [OF b, of sizeof_map the_map Map_obj "\<lambda>m. m\<lparr>entry_count := 0\<rparr>" zero_map]
      by (simp_all add: update_map_def load_map_def zero)
    obtain eh t3 where al2: "mem_alloc_clear tb A (table_bytes 32) ?t2 = Inr (eh, t3)"
        and post2: "alloc_post Zeroed A (table_bytes 32) ?t2 eh t3"
      using alloc_clear_law by (rule runsE)
    have l2: "load_map (Ptr a 0) ?t2 = Inr (?m1, ?t2)"
      using load_map_set [OF l1, of ?m1] by simp
    have apart: "h_data eh \<noteq> NULL \<Longrightarrow> pbase (h_data eh) \<noteq> a"
      using post2 h1 by (auto simp: alloc_post_def heap_set_content)
    have keep: "heap t3 a = heap ?t2 a"
      using post2 apart by (auto simp: alloc_post_def)
    then have l3: "load_map (Ptr a 0) t3 = Inr (?m1, t3)" by (intro load_map_frame [OF l2]) simp
    let ?m = "?m1\<lparr>entries_mh := eh\<rparr>"
    let ?t = "set_content (Ptr a 0) (Map_obj ?m) t3"
    have l4: "load_map (Ptr a 0) ?t = Inr (?m, ?t)" by (rule load_map_set [OF l3])
    have m: "?m = empty_map eh" by (simp add: empty_map_def zero_map_def INITIAL_TABLE_SIZE_def)
    have bytes: "sizeof_map_entry * ucast INITIAL_TABLE_SIZE = table_bytes 32"
      by (simp add: table_bytes_def INITIAL_TABLE_SIZE_def)
    have p: "mem_p tb mh = ret (Ptr a 0)" by (simp add: p_law mh)
    have run: "map_create tb A s = (if h_data eh = NULL then cbind (mem_free tb mh) (\<lambda>_. ret null_handle) ?t
        else Inr (mh, ?t))"
      using a by (simp add: map_create_def cbind_apply al mh mem_is_valid_def p [unfolded mh] u1
          update_map_exec [OF l1] bytes al2 update_map_exec [OF l3] l4)
    have ht: "heap ?t = (heap t3)(a \<mapsto> \<lparr>b_size = sizeof_map, b_heap = True, b_content = Map_obj ?m\<rparr>)"
      using keep h1 by (auto simp: heap_set_content fun_eq_iff)
    show ?thesis
    proof (cases "h_data eh = NULL")
      case True
      have "owned ?t mh \<lparr>b_size = sizeof_map, b_heap = True, b_content = Map_obj ?m\<rparr>"
        using a ht by (simp add: owned_def mh)
      then have "runs (mem_free tb mh) ?t (\<lambda>r t. r = null_handle \<and> env_same ?t t \<and> heap t = (heap ?t)(a := None))"
        using free_law [of mh ?t] by (simp add: mh)
      moreover have "(heap ?t)(a := None) = heap s"
        using True post2 a h1 ht by (auto simp: alloc_post_def heap_set_content fun_eq_iff)
      moreover have "env_same s ?t" using e1 post2 by (auto simp: alloc_post_def dest: env_same_trans)
      ultimately show ?thesis
        using True by (auto simp: run runs_def cbind_apply split: sum.splits dest: env_same_trans)
    next
      case False
      then obtain a2 where a2: "a2 \<noteq> 0" "heap ?t2 a2 = None"
          and eh: "eh = \<lparr>h_data = Ptr a2 0, h_size = table_bytes 32, h_alloc = A\<rparr>"
          and h3: "heap t3 = (heap ?t2)(a2 \<mapsto> \<lparr>b_size = table_bytes 32, b_heap = True, b_content = Zeroed\<rparr>)"
          and e3: "env_same ?t2 t3"
        using post2 by (auto simp: alloc_post_def)
      have ne: "a2 \<noteq> a" using apart False eh by simp
      have "load_entries (Ptr a2 0) ?t = Inr (replicate (unat (32 :: uint)) zero_entry, ?t)"
        using a2 ne h3 ht by (intro entries_of_cleared) (simp_all add: block_at_Inr_iff)
      then have "map_rep A mh (empty_map eh) (replicate 32 zero_entry) ?t"
        using l4 a ne a2 h3 ht
        by (simp add: map_rep_def mh eh m [symmetric] owned_def)
          (simp add: m empty_map_def zero_map_def INITIAL_TABLE_SIZE_def)
      then have "map_ok A mh (empty_map eh) (replicate 32 zero_entry) ?t"
        by (simp add: map_ok_def counted_def)
      moreover have "heap s a2 = None" "\<forall>b. b \<notin> foot mh (empty_map eh) \<longrightarrow> heap ?t b = heap s b"
        using a2 ne h1 h3 ht by (auto simp: foot_def mh eh empty_map_def heap_set_content)
      moreover have "env_same s ?t" using e1 e3 by (auto dest: env_same_trans)
      ultimately show ?thesis
        using False a by (auto simp: runs_def run created_def mh eh)
    qed
  qed
qed

lemma map_destroy_runs:
  assumes rep: "map_rep A mh m es s"
  shows "runs (map_destroy tb mh) s (\<lambda>_ t. env_same s t \<and>
    heap t = (heap s)(pbase (h_data (entries_mh m)) := None, pbase (h_data mh) := None))"
proof -
  obtain b b2 where o: "owned s (entries_mh m) b" "owned s mh b2" using rep by (auto simp: map_rep_def)
  have A: "h_alloc (entries_mh m) = A" "h_alloc mh = A" and lm: "load_map (h_data mh) s = Inr (m, s)"
    and ne: "pbase (h_data mh) \<noteq> pbase (h_data (entries_mh m))"
    using rep by (auto simp: map_rep_def)
  obtain r t where f1: "mem_free tb (entries_mh m) s = Inr (r, t)" and e1: "env_same s t"
      and h1: "heap t = (heap s)(pbase (h_data (entries_mh m)) := None)"
    using free_law [OF A(1) o(1)] by (auto elim!: runsE)
  have "owned t mh b2" using o(2) ne h1 by (simp add: owned_def)
  from free_law [OF A(2) this]
  show ?thesis
    using e1 h1 f1
    by (auto simp: runs_def map_destroy_def cbind_apply map_is_valid_exec [OF rep] map_rep_p [OF rep] lm
        split: sum.splits dest: env_same_trans)
qed

end

end
