(* ===== verification/Ds_Map_Props.thy ===== *)
theory Ds_Map_Props
  imports Ds_Map_Spec Ds_Memtbl
begin

text \<open>
  The properties of the map operations, on maps of the plain allocator. The examples use a map
  with the hashes 1 to \<open>n\<close> in a table of 32 slots, as map_create makes it.
\<close>

section \<open>An example map\<close>

definition sample_mh :: mem_handle where
  "sample_mh = \<lparr>h_data = Ptr 0x1000 0, h_size = sizeof_map, h_alloc = MEM_ALLOCATOR_PLAIN\<rparr>"

definition sample_table_mh :: mem_handle where
  "sample_table_mh =
     \<lparr>h_data = Ptr 0x2000 0, h_size = table_bytes 32, h_alloc = MEM_ALLOCATOR_PLAIN\<rparr>"

definition sample_value :: mem_handle where
  "sample_value = mem_handle_from_ptr (Ptr 0x3000 0) 1"

definition sample_entries :: "nat \<Rightarrow> map_entry list" where
  "sample_entries n =
     map (\<lambda>i. if 1 \<le> i \<and> i \<le> n then \<lparr>key_hash = of_nat i, value_handle = sample_value\<rparr>
               else zero_entry) [0..<32]"

definition sample_map :: "nat \<Rightarrow> cmap" where
  "sample_map c = \<lparr>entries_mh = sample_table_mh, entry_count = of_nat c, table_size = 32\<rparr>"

definition sample_heap :: "map_entry list \<Rightarrow> nat \<Rightarrow> 64 word \<rightharpoonup> block" where
  "sample_heap es c =
     [0x1000 \<mapsto> \<lparr>b_size = sizeof_map, b_heap = True, b_content = Map_obj (sample_map c)\<rparr>,
      0x2000 \<mapsto> \<lparr>b_size = table_bytes 32, b_heap = True, b_content = Table es\<rparr>]"

definition sample_state :: "map_entry list \<Rightarrow> nat \<Rightarrow> (nat \<Rightarrow> 64 word) \<Rightarrow> cstate" where
  "sample_state es c ans =
     \<lparr>heap = sample_heap es c, sigint = SIG_DFL, answers = ans, calls = 0, realloc0_frees = False,
      trace = [], str_cstr_buffer = NULL\<rparr>"

lemma sample_map_fields [simp]:
  "table_size (sample_map c) = 32" "entry_count (sample_map c) = of_nat c"
  "entries_mh (sample_map c) = sample_table_mh"
  by (simp_all add: sample_map_def)

lemma sample_answers [simp]: "fresh_answer (sample_state es c (\<lambda>_. 0)) = 0"
  by (simp add: fresh_answer_def sample_state_def Let_def)

lemma sample_ok_gen:
  assumes "length es = 32" and "chained es" and "card (occupied es) \<le> c" and "c \<le> 16"
  shows "map_ok MEM_ALLOCATOR_PLAIN sample_mh (sample_map c) es (sample_state es c ans)"
proof -
  have "unat (of_nat c :: uint) = c" using assms by (simp add: unat_of_nat)
  then have "counted (sample_map c) es" using assms by (simp add: counted_def)
  moreover have "map_rep MEM_ALLOCATOR_PLAIN sample_mh (sample_map c) es (sample_state es c ans)"
    using assms
    by (simp add: map_rep_def sample_mh_def sample_map_def sample_table_mh_def sample_state_def
        sample_heap_def load_map_def load_struct_def load_Inr_iff block_at_Inr_iff struct_of_def
        load_entries_def entries_of_def owned_def)
  ultimately show ?thesis using assms by (simp add: map_ok_def)
qed

lemma sample_nth [simp]:
  "i < 32 \<Longrightarrow> sample_entries n ! i =
     (if 1 \<le> i \<and> i \<le> n then \<lparr>key_hash = of_nat i, value_handle = sample_value\<rparr> else zero_entry)"
  by (simp add: sample_entries_def)

lemma sample_length [simp]: "length (sample_entries n) = 32"
  by (simp add: sample_entries_def)

lemma unat_small [simp]: "i < 64 \<Longrightarrow> unat (of_nat i :: uint) = i"
  by (simp add: unat_of_nat)

lemma of_nat_small_nonzero [simp]: "1 \<le> i \<Longrightarrow> i < 64 \<Longrightarrow> (of_nat i :: uint) \<noteq> 0"
  using unat_small [of i] by (metis not_one_le_zero unat_0)

lemma sample_chained: "chained (sample_entries n)"
  by (rule chained_at_home) (auto simp: zero_entry_def split: if_splits)

lemma sample_occupied: "card (occupied (sample_entries n)) \<le> n"
proof -
  have "occupied (sample_entries n) \<subseteq> {1..n}"
    by (auto simp: occupied_def zero_entry_def split: if_splits)
  then have "card (occupied (sample_entries n)) \<le> card {1..n}" by (intro card_mono) simp_all
  then show ?thesis by simp
qed

lemma sample_lookup:
  assumes "n < 32"
  shows "lookup (sample_entries n) k = (if 0 < unat k \<and> unat k \<le> n then Some sample_value else None)"
proof -
  have zero: "unat k = 0 \<longleftrightarrow> k = 0" by (simp add: unat_eq_0)
  have "lookup (sample_entries n) k = Some v \<longleftrightarrow> 0 < unat k \<and> unat k \<le> n \<and> v = sample_value" for v
    unfolding lookup_iff [OF sample_chained]
    using assms zero
    by (auto simp: zero_entry_def intro!: exI [of _ "unat k"] split: if_splits)
  then show ?thesis
    by (cases "0 < unat k \<and> unat k \<le> n") (simp, simp only: if_False, metis not_None_eq)
qed

lemma sample_ok: "n \<le> 16 \<Longrightarrow>
    map_ok MEM_ALLOCATOR_PLAIN sample_mh (sample_map n) (sample_entries n) (sample_state (sample_entries n) n ans)"
  by (rule sample_ok_gen) (simp_all add: sample_chained sample_occupied)

definition create_state :: cstate where
  "create_state = sample_state [] 0 (\<lambda>i. if i = 0 then 0x5000 else 0x6000)"

lemma create_sample:
  "runs (map_create (memtbl_ops 0) MEM_ALLOCATOR_PLAIN) create_state (\<lambda>mh t. h_data mh \<noteq> NULL)"
  by code_simp

section \<open>Sessions\<close>

text \<open>
  C6. A session on a newly created map, of any number of lookups of pointer keys and at most 16
  insertions of valid values under pointer keys whose hash is not 0, never faults and answers every
  call as the abstract map from hashes to values does.
\<close>

theorem map_session_refines:
  "runs (map_create tb MEM_ALLOCATOR_PLAIN) s (\<lambda>mh t. h_data mh \<noteq> NULL \<longrightarrow>
     (\<forall>cs. list_all proper_call cs \<and> sets_of cs \<le> 16 \<longrightarrow>
        runs (perform_all tb mh cs) t (\<lambda>rs u. rs = answers_of Map.empty cs)))"
proof (rule runs_conseq [OF plain.map_create_runs], intro impI allI, elim conjE)
  fix mh t cs
  assume "if h_data mh = NULL then mh = null_handle \<and> heap t = heap s
      else created MEM_ALLOCATOR_PLAIN s mh t"
    and "h_data mh \<noteq> NULL" and cs: "list_all proper_call cs" "sets_of cs \<le> 16"
  then obtain eh where "map_ok MEM_ALLOCATOR_PLAIN mh (empty_map eh) (replicate 32 zero_entry) t"
    by (auto simp: created_def)
  from plain.perform_all_refines [OF this cs(1), of tb] cs(2)
  show "runs (perform_all tb mh cs) t (\<lambda>rs u. rs = answers_of Map.empty cs)"
    by (auto simp: empty_map_def runs_def split: sum.splits)
qed

theorem map_session_refines_witness:
  "runs (map_create (memtbl_ops 0) MEM_ALLOCATOR_PLAIN) create_state
     (\<lambda>mh t. runs (perform_all (memtbl_ops 0) mh
        [Set_call (Ptr 0x3000 0) sample_value, Get_call (Ptr 0x3000 0), Get_call (Ptr 0x4000 0)]) t
      (\<lambda>rs u. rs = [Some sample_value, Some sample_value, Some null_handle]))"
proof -
  let ?cs = "[Set_call (Ptr 0x3000 0) sample_value, Get_call (Ptr 0x3000 0), Get_call (Ptr 0x4000 0)]"
  have hashes: "hash_ptr (Ptr 0x3000 0) \<noteq> 0" "hash_ptr (Ptr 0x4000 0) \<noteq> hash_ptr (Ptr 0x3000 0)"
    by code_simp+
  show ?thesis
    using map_session_refines [of "memtbl_ops 0" create_state] hashes create_sample
    by (auto simp: runs_def sample_value_def mem_handle_from_ptr_def split: sum.splits
        dest!: spec [of _ ?cs])
qed

section \<open>Lookup, insertion and deletion\<close>

text \<open>
  C7. The probe loop of find_entry_pos terminates on a map at most half full, without reaching
  its assertion, and returns the first slot of the probe sequence that holds the hash or is empty.
\<close>

theorem find_entry_pos_probes:
  assumes "map_rep MEM_ALLOCATOR_PLAIN mh m es s" and "counted m es"
  shows "\<exists>i < length es. find_entry_pos tb mh k s = Inr (of_nat i, s) \<and> unat (of_nat i :: uint) = i \<and>
    stops es k i \<and> (\<forall>d < dist es k i. \<not> stops es k (slot es k d))"
proof -
  obtain i where p: "probe es k = Some i" using assms by (rule map_rep_probe)
  then have "find_entry_pos tb mh k s = Inr (of_nat i, s)"
    by (simp add: plain.find_entry_pos_exec [OF assms(1)])
  then show ?thesis
    using plain.probe_position [OF assms(1) p] p by (auto simp: probe_Some_iff)
qed

theorem find_entry_pos_probes_witness:
  "\<exists>i < 32. find_entry_pos (memtbl_ops 0) sample_mh 7 (sample_state (sample_entries 3) 3 (\<lambda>_. 0))
     = Inr (of_nat i, sample_state (sample_entries 3) 3 (\<lambda>_. 0))"
proof -
  have "map_ok MEM_ALLOCATOR_PLAIN sample_mh (sample_map 3) (sample_entries 3)
      (sample_state (sample_entries 3) 3 (\<lambda>_. 0))"
    by (rule sample_ok) simp
  from find_entry_pos_probes [OF map_okD(1) [OF this] map_okD(3) [OF this], of "memtbl_ops 0" 7]
  show ?thesis by auto
qed

text \<open>
  map_get on a pointer key returns the value stored under the hash of the key, an invalid
  handle if there is none, and changes nothing.
\<close>

theorem map_get_ptr_lookup:
  assumes "map_ok MEM_ALLOCATOR_PLAIN mh m es s"
  shows "map_get_ptr tb mh key s =
    Inr (case lookup es (hash_ptr key) of None \<Rightarrow> null_handle | Some v \<Rightarrow> v, s)"
  using assms by (rule plain.map_get_ptr_exec)

theorem map_get_ptr_lookup_witness:
  "map_get_ptr (memtbl_ops 0) sample_mh (Ptr 0x4000 0) (sample_state (sample_entries 3) 3 (\<lambda>_. 0)) =
     Inr (null_handle, sample_state (sample_entries 3) 3 (\<lambda>_. 0))"
proof -
  have "3 < hash_ptr (Ptr 0x4000 0)" by code_simp
  then have "\<not> unat (hash_ptr (Ptr 0x4000 0)) \<le> 3" by (simp add: word_less_nat_alt)
  then have "lookup (sample_entries 3) (hash_ptr (Ptr 0x4000 0)) = None" by (simp add: sample_lookup)
  then show ?thesis
    using map_get_ptr_lookup [OF sample_ok, of 3 "memtbl_ops 0" "Ptr 0x4000 0"] by simp
qed

text \<open>
  C8. map_set of a valid value under a pointer key whose hash is not 0 refines the update of the
  abstract map while the table has room (the hash is stored already, or the table is at most half
  full with one more entry): it succeeds, the invariant is kept, every other hash keeps its value, a
  new hash is counted once, and only the two blocks of the map change.
\<close>

theorem map_set_ptr_updates:
  assumes "map_ok MEM_ALLOCATOR_PLAIN mh m es s" and "hash_ptr key \<noteq> 0" and "h_data v \<noteq> NULL"
    and "lookup es (hash_ptr key) = None \<Longrightarrow> 2 * (unat (entry_count m) + 1) \<le> unat (table_size m)"
  shows "runs (map_set_ptr tb mh key v) s (\<lambda>r t. r \<and> frame (foot mh m) s t \<and>
    (\<exists>m' es'. map_ok MEM_ALLOCATOR_PLAIN mh m' es' t \<and> lookup es' = (lookup es)(hash_ptr key \<mapsto> v) \<and>
       entries_mh m' = entries_mh m \<and> table_size m' = table_size m \<and>
       entry_count m' =
         (if lookup es (hash_ptr key) = None then entry_count m + 1 else entry_count m)))"
  using plain.do_set_refines [OF assms(1,2,4), of tb v]
  by (simp add: runs_def plain.map_set_ptr_exec [OF assms(1,3)])

theorem map_set_ptr_updates_witness:
  "runs (map_set_ptr (memtbl_ops 0) sample_mh (Ptr 0x4000 0) sample_value) (sample_state (sample_entries 3) 3 (\<lambda>_. 0))
     (\<lambda>r t. r \<and> (\<exists>m' es'. map_ok MEM_ALLOCATOR_PLAIN sample_mh m' es' t \<and>
        lookup es' = (lookup (sample_entries 3))(hash_ptr (Ptr 0x4000 0) \<mapsto> sample_value)))"
proof -
  have "hash_ptr (Ptr 0x4000 0) \<noteq> 0" by code_simp
  then show ?thesis
    by (intro runs_conseq [OF map_set_ptr_updates [OF sample_ok]])
      (auto simp: sample_value_def mem_handle_from_ptr_def)
qed

lemma do_delete_stays:
  assumes ok: "map_ok MEM_ALLOCATOR_PLAIN mh m es s" and far: "\<And>i. probe es k = Some i \<Longrightarrow> removable es i"
    and stored: "lookup es k \<noteq> None" and stays: "\<not> due_to_shrink m"
  shows "runs (do_delete tb mh k) s (\<lambda>r t. r \<and> frame (foot mh m) s t \<and>
    (\<exists>m' es'. map_ok MEM_ALLOCATOR_PLAIN mh m' es' t \<and> deletes k m es False m' es'))"
  using plain.do_delete_refines [OF ok _ far, where tb = tb and k = k] stored stays
  by (auto simp: due_to_shrink_def intro: deletes_same elim!: runs_conseq)

text \<open>
  C9. Deleting a hash whose slot no other entry was probed over. A hash that is not stored is
  reported as such and nothing changes. A stored one is removed, the entry count goes down by one,
  the invariant is kept and no live block but the two of the map changes. While the table is not due
  to shrink the deletion succeeds and removes nothing else. A table that is due to shrink is replaced
  by one of half its size exactly if the allocator grants it, and this is what the result says; the
  old table is released then, and no other entry is lost exactly if the remaining hashes have
  different homes in the smaller table. If the allocator refuses, the entry is removed all the same,
  the table keeps its size and nothing else is lost.
\<close>

theorem do_delete_removes:
  assumes "map_ok MEM_ALLOCATOR_PLAIN mh m es s" and "\<And>i. probe es k = Some i \<Longrightarrow> removable es i"
  shows "runs (do_delete tb mh k) s (\<lambda>r t. env_same s t \<and>
    (if lookup es k = None then \<not> r \<and> t = s
     else (r \<longleftrightarrow> \<not> due_to_shrink m \<or> fresh_answer s \<noteq> 0) \<and>
       (\<forall>a. heap s a \<noteq> None \<and> a \<notin> foot mh m \<longrightarrow> heap t a = heap s a) \<and>
       (due_to_shrink m \<and> r \<longrightarrow> heap t (pbase (h_data (entries_mh m))) = None) \<and>
       (\<exists>m' es'. map_ok MEM_ALLOCATOR_PLAIN mh m' es' t \<and> deletes k m es (due_to_shrink m \<and> r) m' es')))"
proof -
  note rep = map_okD(1) [OF assms(1)]
  obtain i where p: "probe es k = Some i" using rep map_okD(3) [OF assms(1)] by (rule map_rep_probe)
  show ?thesis
  proof (cases "lookup es k = None")
    case True
    then have "do_delete tb mh k s = Inr (False, s)"
      using p by (intro plain.do_delete_absent [OF rep p]) (simp add: lookup_empty_slot)
    then show ?thesis using True by (simp add: runs_def)
  next
    case there: False
    show ?thesis
    proof (cases "due_to_shrink m")
      case False
      then show ?thesis
        using there by (intro runs_conseq [OF do_delete_stays [OF assms]]) (auto simp: frame_def)
    next
      case True
      have "key_hash (es ! i) \<noteq> 0" using there p by (simp add: lookup_empty_slot)
      moreover obtain eh u where al: "mem_alloc_clear tb MEM_ALLOCATOR_PLAIN (table_bytes (table_size m div 2))
          (set_content (h_data mh) (Map_obj (m\<lparr>entry_count := entry_count m - 1\<rparr>))
            (set_content (h_data (entries_mh m)) (Table (es[i := zero_entry])) s)) = Inr (eh, u)"
        using plain.alloc_clear_law by (rule runsE)
      ultimately show ?thesis
        using there True plain_alloc_clear_null [OF al]
        by (intro runs_conseq [OF plain.do_delete_shrinks [OF assms(1) p _ assms(2) [OF p] True al]]) auto
    qed
  qed
qed

theorem do_delete_removes_witness:
  "runs (do_delete (memtbl_ops 0) sample_mh 2) (sample_state (sample_entries 3) 3 (\<lambda>_. 0))
     (\<lambda>r t. r \<and> (\<exists>m' es'. map_ok MEM_ALLOCATOR_PLAIN sample_mh m' es' t \<and>
        lookup es' = (lookup (sample_entries 3))(2 := None)))"
proof -
  have "probe (sample_entries 3) 2 = Some 2"
    using chainedD [OF sample_chained, of 2 3] by simp
  moreover have "removable (sample_entries 3) 2"
    by (auto simp: removable_def blocks_def dist_def home_def zero_entry_def split: if_splits)
  moreover have "lookup (sample_entries 3) 2 = Some sample_value" "\<not> due_to_shrink (sample_map 3)"
    by (simp_all add: sample_lookup due_to_shrink_def)
  ultimately have "runs (do_delete (memtbl_ops 0) sample_mh 2) (sample_state (sample_entries 3) 3 (\<lambda>_. 0))
      (\<lambda>r t. r \<and> (\<exists>m' es'. map_ok MEM_ALLOCATOR_PLAIN sample_mh m' es' t \<and>
        deletes 2 (sample_map 3) (sample_entries 3) False m' es'))"
    by (intro runs_conseq [OF do_delete_removes [OF sample_ok]]) simp_all
  then show ?thesis by (rule runs_conseq) (use deletes_lookup in blast)
qed

text \<open>
  C10. Deleting an entry that another one was probed over, in a table that the deletion does not
  shrink, makes the other one unreachable: its lookup, which gave its value before, gives an invalid
  handle after a deletion that reports success (the code neither moves entries back nor marks the
  slot as deleted).
\<close>

theorem do_delete_hides_probed_entry:
  assumes "map_ok MEM_ALLOCATOR_PLAIN mh m es s" and "probe es k = Some i"
    and "key_hash (es ! i) \<noteq> 0" and "j < length es" and "blocks es i j" and "key_hash (es ! j) \<noteq> 0"
    and "\<not> (entry_count m - 1 < table_size m div 4 \<and> INITIAL_TABLE_SIZE < table_size m)"
  shows "do_get tb mh (key_hash (es ! j)) s = Inr (value_handle (es ! j), s) \<and>
    runs (do_delete tb mh k) s
      (\<lambda>r t. r \<and> do_get tb mh (key_hash (es ! j)) t = Inr (null_handle, t))"
proof -
  have "lookup es (key_hash (es ! j)) = Some (value_handle (es ! j))"
    using assms by (auto simp: lookup_iff [OF map_okD(2) [OF assms(1)]] dest: chainedD [OF map_okD(2)])
  then show ?thesis
    using plain.do_get_refines [OF assms(1)] plain.do_delete_blocked [OF assms(1-7)] by simp
qed

theorem do_delete_hides_probed_entry_witness:
  "runs (do_delete (memtbl_ops 0) sample_mh 1)
     (sample_state ((sample_entries 1)[2 := \<lparr>key_hash = 33, value_handle = sample_value\<rparr>]) 2 (\<lambda>_. 0))
     (\<lambda>r t. r \<and> do_get (memtbl_ops 0) sample_mh 33 t = Inr (null_handle, t))"
proof -
  let ?es = "(sample_entries 1)[2 := \<lparr>key_hash = 33, value_handle = sample_value\<rparr>]"
  have p: "probe (sample_entries 1) 33 = Some 2"
    by (simp add: probe_Some_iff stops_def dist_def slot_def home_def zero_entry_def)
  then have ch: "chained ?es" by (intro chained_put) (simp_all add: sample_chained)
  have "card (occupied ?es) \<le> 2"
    using sample_occupied [of 1] by (simp add: occupied_put card_insert_if)
  then have ok: "map_ok MEM_ALLOCATOR_PLAIN sample_mh (sample_map 2) ?es (sample_state ?es 2 (\<lambda>_. 0))"
    using ch by (intro sample_ok_gen) simp_all
  have "probe ?es 1 = Some 1" using chainedD [OF ch, of 1] by simp
  moreover have "blocks ?es 1 2" by (simp add: blocks_def dist_def home_def)
  ultimately show ?thesis
    using do_delete_hides_probed_entry [OF ok, of 1 1 2 "memtbl_ops 0"]
    by (simp add: INITIAL_TABLE_SIZE_def)
qed

section \<open>Growing and shrinking the table\<close>

text \<open>
  C11. resize_entries_table either fails and changes nothing, or it installs a fresh table of the
  new size, releases the old one and keeps the invariant. The new map stores no entry the old one
  did not, and all of them exactly when their hashes have different homes in the new table: the
  copying loop does not probe, so an entry that meets another one is overwritten.
\<close>

theorem resize_entries_table_effect:
  assumes "map_ok MEM_ALLOCATOR_PLAIN mh m es s" and "new_size (table_size m) g = ret nts"
    and "nts \<noteq> 0" and "2 * card (occupied es) \<le> unat nts"
  shows "runs (resize_entries_table tb mh g) s (\<lambda>r t. env_same s t \<and>
    (if r then \<exists>m' es'. map_ok MEM_ALLOCATOR_PLAIN mh m' es' t \<and> table_size m' = nts \<and>
         heap t (pbase (h_data (entries_mh m))) = None \<and>
         lookup es' \<subseteq>\<^sub>m lookup es \<and>
         (lookup es' = lookup es \<longleftrightarrow> inj_on (\<lambda>k. unat k mod unat nts) (dom (lookup es)))
     else heap t = heap s))"
proof -
  note ch = map_okD(2) [OF assms(1)]
  have pos: "0 < unat nts" using assms(3) by (simp add: unat_gt_0)
  show ?thesis
  proof (rule runs_conseq [OF plain.resize_refines [OF map_okD(1,3) [OF assms(1)] assms(2-4)]],
      elim conjE, intro conjI)
    fix r t
    assume *: "if r then \<exists>eh. map_ok MEM_ALLOCATOR_PLAIN mh (m\<lparr>table_size := nts, entries_mh := eh\<rparr>)
          (rehash (unat nts) es) t \<and> heap s (pbase (h_data eh)) = None \<and>
          heap t (pbase (h_data (entries_mh m))) = None \<and>
          (\<forall>a. a \<notin> insert (pbase (h_data eh)) (foot mh m) \<longrightarrow> heap t a = heap s a)
        else heap t = heap s"
    show "if r then \<exists>m' es'. map_ok MEM_ALLOCATOR_PLAIN mh m' es' t \<and> table_size m' = nts \<and>
         heap t (pbase (h_data (entries_mh m))) = None \<and> lookup es' \<subseteq>\<^sub>m lookup es \<and>
         (lookup es' = lookup es \<longleftrightarrow> inj_on (\<lambda>k. unat k mod unat nts) (dom (lookup es)))
       else heap t = heap s"
    proof (cases r)
      case True
      with * obtain eh where "map_ok MEM_ALLOCATOR_PLAIN mh (m\<lparr>table_size := nts, entries_mh := eh\<rparr>)
          (rehash (unat nts) es) t" "heap t (pbase (h_data (entries_mh m))) = None"
        by auto
      then show ?thesis
        using True lookup_rehash_eq_iff [OF ch pos] lookup_rehash_sub [OF ch pos]
        by (simp only: if_True) (intro exI conjI, assumption, simp_all)
    qed (use * in simp)
  qed
qed

theorem resize_entries_table_effect_witness:
  "runs (resize_entries_table (memtbl_ops 0) sample_mh True)
     (sample_state (sample_entries 16) 16 (\<lambda>_. 0x5000))
     (\<lambda>r t. r \<longrightarrow> (\<exists>m' es'. map_ok MEM_ALLOCATOR_PLAIN sample_mh m' es' t \<and> table_size m' = 64 \<and>
        lookup es' = lookup (sample_entries 16)))"
proof -
  have ok: "map_ok MEM_ALLOCATOR_PLAIN sample_mh (sample_map 16) (sample_entries 16)
      (sample_state (sample_entries 16) 16 (\<lambda>_. 0x5000))"
    by (rule sample_ok) simp
  have inj: "inj_on (\<lambda>k. unat k mod 64) (dom (lookup (sample_entries 16)))"
    by (auto simp: inj_on_def sample_lookup word_unat_eq_iff split: if_splits)
  have "2 * card (occupied (sample_entries 16)) \<le> unat (64 :: uint)"
    using sample_occupied [of 16] by simp
  then show ?thesis
    using inj
    by (intro runs_conseq [OF resize_entries_table_effect [OF ok, of True 64]])
      (auto simp: new_size_def split: if_splits)
qed

text \<open>
  C12. Inserting a new hash into a map that is due to grow is a use after free: do_set keeps the
  address of the old table across the resize, which releases it, and stores the new entry there.
\<close>

theorem do_set_growth_use_after_free:
  assumes "map_ok MEM_ALLOCATOR_PLAIN mh m es s" and "lookup es k = None"
    and "table_size m div 2 < entry_count m + 1" and "table_size m < 0x80000000"
    and "fresh_answer s \<noteq> 0"
  shows "do_set tb mh k v s = Inl Dangling"
proof -
  note rep = map_okD(1) [OF assms(1)]
  obtain i where p: "probe es k = Some i" using rep map_okD(3) [OF assms(1)] by (rule map_rep_probe)
  have free: "key_hash (es ! i) = 0" using assms(2) p by (simp add: lookup_empty_slot)
  let ?s1 = "set_content (h_data mh) (Map_obj (m\<lparr>entry_count := entry_count m + 1\<rparr>)) s"
  obtain eh t where al:
      "mem_alloc_clear tb MEM_ALLOCATOR_PLAIN (table_bytes (2 * table_size m)) ?s1 = Inr (eh, t)"
    using plain.alloc_clear_law by (rule runsE)
  then have "h_data eh \<noteq> NULL" using assms(5) by (simp add: plain_alloc_clear_null)
  then show ?thesis by (rule plain.do_set_growth(1) [OF rep p free assms(3,4) refl al])
qed

theorem do_set_growth_use_after_free_witness:
  "do_set (memtbl_ops 0) sample_mh 17 sample_value
     (sample_state (sample_entries 16) 16 (\<lambda>_. 0x5000)) = Inl Dangling"
proof -
  have "fresh_answer (sample_state (sample_entries 16) 16 (\<lambda>_. 0x5000)) \<noteq> 0"
    by (simp add: fresh_answer_def sample_state_def sample_heap_def Let_def)
  then show ?thesis
    using do_set_growth_use_after_free [OF sample_ok, of 16 17 "\<lambda>_. 0x5000"]
    by (simp add: sample_lookup)
qed

text \<open>
  C13. When the allocation of the larger table fails, the insertion reports failure and the
  stored entries stay as they are, but the entry count has gone up by one.
\<close>

theorem do_set_growth_failure:
  assumes "map_ok MEM_ALLOCATOR_PLAIN mh m es s" and "lookup es k = None"
    and "table_size m div 2 < entry_count m + 1" and "table_size m < 0x80000000"
    and "fresh_answer s = 0" and "entry_count m + 1 \<noteq> 0"
  shows "runs (do_set tb mh k v) s (\<lambda>r t. \<not> r \<and> env_same s t \<and>
    (\<forall>a. a \<noteq> pbase (h_data mh) \<longrightarrow> heap t a = heap s a) \<and>
    map_ok MEM_ALLOCATOR_PLAIN mh (m\<lparr>entry_count := entry_count m + 1\<rparr>) es t)"
proof -
  note rep = map_okD(1) [OF assms(1)]
  obtain i where p: "probe es k = Some i" using rep map_okD(3) [OF assms(1)] by (rule map_rep_probe)
  have free: "key_hash (es ! i) = 0" using assms(2) p by (simp add: lookup_empty_slot)
  let ?m = "m\<lparr>entry_count := entry_count m + 1\<rparr>"
  let ?s1 = "set_content (h_data mh) (Map_obj ?m) s"
  obtain eh t where al:
      "mem_alloc_clear tb MEM_ALLOCATOR_PLAIN (table_bytes (2 * table_size m)) ?s1 = Inr (eh, t)"
    using plain.alloc_clear_law by (rule runsE)
  then have null: "h_data eh = NULL" using assms(5) by (simp add: plain_alloc_clear_null)
  have "unat (entry_count m + 1) = unat (entry_count m) + 1"
    using assms(6) by (simp add: unatSuc add.commute)
  then have "counted ?m es" using map_okD(3) [OF assms(1)] by (simp add: counted_def)
  then show ?thesis
    using map_okD(2) [OF assms(1)]
    by (intro runs_conseq [OF plain.do_set_growth(2) [OF rep p free assms(3,4) refl al null]])
      (auto simp: map_ok_def heap_set_content)
qed

theorem do_set_growth_failure_witness:
  "runs (do_set (memtbl_ops 0) sample_mh 17 sample_value) (sample_state (sample_entries 16) 16 (\<lambda>_. 0))
     (\<lambda>r t. \<not> r \<and> map_ok MEM_ALLOCATOR_PLAIN sample_mh ((sample_map 16)\<lparr>entry_count := 17\<rparr>) (sample_entries 16) t)"
  by (rule runs_conseq [OF do_set_growth_failure [OF sample_ok]]) (simp_all add: sample_lookup)

section \<open>Creation, destruction and invalid arguments\<close>

text \<open>
  map_create either returns an invalid handle and leaves no allocation behind, or a map that
  is empty, satisfies the invariant and occupies exactly two fresh blocks.
\<close>

theorem map_create_empty:
  "runs (map_create tb MEM_ALLOCATOR_PLAIN) s (\<lambda>mh t. env_same s t \<and>
     (if h_data mh = NULL then mh = null_handle \<and> heap t = heap s
      else \<exists>eh es. map_ok MEM_ALLOCATOR_PLAIN mh (empty_map eh) es t \<and> lookup es = Map.empty \<and>
         heap s (pbase (h_data mh)) = None \<and> heap s (pbase (h_data eh)) = None \<and>
         (\<forall>a. a \<notin> foot mh (empty_map eh) \<longrightarrow> heap t a = heap s a)))"
proof (rule runs_conseq [OF plain.map_create_runs], elim conjE, intro conjI)
  fix mh t
  assume "if h_data mh = NULL then mh = null_handle \<and> heap t = heap s
      else created MEM_ALLOCATOR_PLAIN s mh t"
  then show "if h_data mh = NULL then mh = null_handle \<and> heap t = heap s
      else \<exists>eh es. map_ok MEM_ALLOCATOR_PLAIN mh (empty_map eh) es t \<and> lookup es = Map.empty \<and>
         heap s (pbase (h_data mh)) = None \<and> heap s (pbase (h_data eh)) = None \<and>
         (\<forall>a. a \<notin> foot mh (empty_map eh) \<longrightarrow> heap t a = heap s a)"
    unfolding created_def using lookup_empty [of 32] by (cases "h_data mh = NULL") (simp, fastforce)
qed

theorem map_create_empty_witness:
  "runs (map_create (memtbl_ops 0) MEM_ALLOCATOR_PLAIN) create_state
     (\<lambda>mh t. \<exists>eh es. map_ok MEM_ALLOCATOR_PLAIN mh (empty_map eh) es t \<and> lookup es = Map.empty)"
  by (rule runs_conseq [OF runs_conj [OF map_create_empty, of _ _ "\<lambda>mh t. h_data mh \<noteq> NULL"]])
    (use create_sample in \<open>auto simp: runs_def sure_def split: sum.splits\<close>)

text \<open>
  map_destroy releases the two blocks of a map and nothing else.
\<close>

theorem map_destroy_releases:
  assumes "map_rep MEM_ALLOCATOR_PLAIN mh m es s"
  shows "runs (map_destroy tb mh) s (\<lambda>_ t. env_same s t \<and>
    heap t = (heap s)(pbase (h_data (entries_mh m)) := None, pbase (h_data mh) := None))"
  using assms by (rule plain.map_destroy_runs)

theorem map_destroy_releases_witness:
  "runs (map_destroy (memtbl_ops 0) sample_mh) (sample_state (sample_entries 3) 3 (\<lambda>_. 0))
     (\<lambda>_ t. heap t = Map.empty)"
proof -
  have "map_ok MEM_ALLOCATOR_PLAIN sample_mh (sample_map 3) (sample_entries 3)
      (sample_state (sample_entries 3) 3 (\<lambda>_. 0))"
    by (rule sample_ok) simp
  from map_destroy_releases [OF map_okD(1) [OF this]]
  show ?thesis
    by (rule runs_conseq)
      (auto simp: sample_state_def sample_heap_def sample_mh_def sample_table_mh_def fun_eq_iff)
qed

text \<open>
  C14. On an invalid map handle, insertion and lookup fail softly and change nothing, and so does
  insertion of an invalid value; deletion does not check the handle and dereferences null.
\<close>

theorem map_invalid_arguments:
  assumes "h_data bad = NULL" and "map_rep MEM_ALLOCATOR_PLAIN mh m es s"
  shows "map_set_ptr tb bad key v s = Inr (False, s) \<and> map_set_str tb bad k v s = Inr (False, s) \<and>
    map_get_ptr tb bad key s = Inr (null_handle, s) \<and> map_get_str tb bad k s = Inr (null_handle, s) \<and>
    map_set_ptr tb mh key bad s = Inr (False, s) \<and> map_set_str tb mh k bad s = Inr (False, s) \<and>
    map_delete_ptr tb bad key s = Inl Null_deref"
  using assms plain.map_is_valid_exec [OF assms(2), of tb]
  by (simp add: map_set_ptr_def map_set_str_def map_get_ptr_def map_get_str_def map_is_valid_def
      map_delete_ptr_def do_delete_def mem_is_valid_def cbind_apply load_map_def load_struct_def
      load_def block_at_def)

theorem map_invalid_arguments_witness:
  "map_set_ptr (memtbl_ops 0) null_handle (Ptr 0x4000 0) sample_value (sample_state (sample_entries 3) 3 (\<lambda>_. 0))
     = Inr (False, sample_state (sample_entries 3) 3 (\<lambda>_. 0)) \<and>
   map_delete_ptr (memtbl_ops 0) null_handle (Ptr 0x4000 0) (sample_state (sample_entries 3) 3 (\<lambda>_. 0))
     = Inl Null_deref"
proof -
  have "map_ok MEM_ALLOCATOR_PLAIN sample_mh (sample_map 3) (sample_entries 3)
      (sample_state (sample_entries 3) 3 (\<lambda>_. 0))"
    by (rule sample_ok) simp
  from map_invalid_arguments [OF null_handle_data map_okD(1) [OF this]] show ?thesis by simp
qed

text \<open>
  C15. A valid value that is set under a pointer key whose hash is 0, in a map whose table is at most
  half full with one more entry, is lost: the insertion reports success and raises the entry count,
  but no lookup changes, because a hash of 0 marks a slot as empty.
\<close>

theorem map_set_ptr_zero_hash_lost:
  assumes "map_ok MEM_ALLOCATOR_PLAIN mh m es s" and "hash_ptr key = 0" and "h_data v \<noteq> NULL"
    and "2 * (unat (entry_count m) + 1) \<le> unat (table_size m)"
  shows "runs (map_set_ptr tb mh key v) s (\<lambda>r t. r \<and>
    (\<exists>m' es'. map_ok MEM_ALLOCATOR_PLAIN mh m' es' t \<and> lookup es' = lookup es \<and>
       entry_count m' = entry_count m + 1))"
  using plain.do_set_zero [OF assms(1,4), of tb v] plain.map_set_ptr_exec [OF assms(1,3), of tb key]
  by (simp add: runs_def assms(2))

theorem map_set_ptr_zero_hash_lost_witness:
  "runs (map_set_ptr (memtbl_ops 0) sample_mh (Ptr 0x55a345fd1eb0 0) sample_value)
     (sample_state (sample_entries 3) 3 (\<lambda>_. 0))
     (\<lambda>r t. r \<and> (\<exists>m' es'. map_ok MEM_ALLOCATOR_PLAIN sample_mh m' es' t \<and>
        lookup es' = lookup (sample_entries 3) \<and> entry_count m' = 4))"
proof -
  have "hash_ptr (Ptr 0x55a345fd1eb0 0) = 0" by code_simp
  then show ?thesis
    by (intro runs_conseq [OF map_set_ptr_zero_hash_lost [OF sample_ok]])
      (auto simp: sample_value_def mem_handle_from_ptr_def)
qed

end
