(* ===== verification/Ds_Key_Props.thy ===== *)
theory Ds_Key_Props
  imports Ds_Hash Ds_Map_Props
begin

text \<open>
  The properties of the hash functions and of the map operations on str keys.
\<close>

text \<open>The example map together with two copies of a text.\<close>

definition text_block :: "byte list \<Rightarrow> block" where
  "text_block cs =
     \<lparr>b_size = of_nat (length cs), b_heap = False, b_content = Bytes (map Some cs)\<rparr>"

definition sample_texts :: "byte list \<Rightarrow> cstate" where
  "sample_texts cs = (sample_state (sample_entries 3) 3 (\<lambda>_. 0))
     \<lparr>heap := (sample_heap (sample_entries 3) 3)(0x7000 \<mapsto> text_block cs, 0x8000 \<mapsto> text_block cs)\<rparr>"

lemma sample_texts_map:
  "map_ok MEM_ALLOCATOR_PLAIN sample_mh (sample_map 3) (sample_entries 3) (sample_texts cs)"
  by (rule map_ok_foot [OF sample_ok [of 3 "\<lambda>_. 0"]])
    (simp_all add: foot_def sample_mh_def sample_table_mh_def sample_texts_def sample_state_def)

lemma sample_texts_str:
  "length cs < 2 ^ 64 \<Longrightarrow> a = 0x7000 \<or> a = 0x8000 \<Longrightarrow>
   str_rep (mem_handle_from_ptr (Ptr a 0) (of_nat (length cs))) cs (sample_texts cs)"
  by (auto simp: str_rep_def transparent_def mem_handle_from_ptr_def chars_at_def block_bytes_def
      sample_texts_def text_block_def unat_of_nat)

section \<open>Hash values\<close>

text \<open>
  C16. The hash of a str of fewer than 2^32 characters is the FNV-1a hash of a zero byte (the key
  type) followed by the text, if the text is ASCII: the shifts and additions of the code are the
  multiplication by the FNV prime, and the loop terminates and reads each character once.
\<close>

theorem hash_str_fnv1a:
  assumes "str_rep key cs s" and "length cs < 2 ^ 32" and "\<forall>c \<in> set cs. c < 128"
  shows "hash_str tb key s = Inr (fnv1a (0 # cs), s)"
  using hash_str_exec [OF assms(1,2)] foldl_fnv_ascii [of "0 # cs"] assms(3)
  by (simp add: fnv1a_def)

theorem hash_str_fnv1a_witness:
  "hash_str (memtbl_ops 0) (mem_handle_from_ptr (Ptr 0x7000 0) 3) (sample_texts [72, 101, 108])
     = Inr (0x3b132754, sample_texts [72, 101, 108])"
proof -
  have "fnv1a [0, 72, 101, 108] = 0x3b132754" by code_simp
  then show ?thesis
    using hash_str_fnv1a [OF sample_texts_str [of "[72, 101, 108]" "0x7000"]] by simp
qed

text \<open>
  C17. One round of hash_str is the round of FNV-1a exactly on the bytes below 128: on the others it
  gives another hash value, because the code sign-extends the char before the exclusive or.
\<close>

theorem fnv_step_fnv1a_iff: "fnv_step h c = fnv_round h c \<longleftrightarrow> c < 128"
  by (rule fnv_step_round_iff)

text \<open>
  Two addresses whose bytes differ in exactly one place have different hashes.
\<close>

theorem hash_ptr_one_byte:
  assumes "address_bytes 8 (uintptr p) = xs @ c # ys" and "address_bytes 8 (uintptr q) = xs @ d # ys"
    and "c \<noteq> d"
  shows "hash_ptr p \<noteq> hash_ptr q"
  using assms by (simp add: hash_ptr_bytes foldl_fnv_inject fnv_step_inject)

theorem hash_ptr_one_byte_witness:
  "hash_ptr (Ptr 0x55a345fd1eb0 0) \<noteq> hash_ptr (Ptr 0x55a345fd1eb0 0x100)"
  by (rule hash_ptr_one_byte [where xs = "[176]" and c = 30 and d = 31
        and ys = "[253, 69, 163, 85, 0, 0]"]; code_simp)

section \<open>The operations on str keys\<close>

text \<open>
  A value stored under a str key is found again under every str with the same text, wherever
  its characters are, if they are not in the blocks of the map and the hash is not 0.
\<close>

theorem map_str_roundtrip:
  assumes "map_ok MEM_ALLOCATOR_PLAIN mh m es s" and "str_rep k cs s" and "str_rep k' cs s"
    and "length cs < 2 ^ 32" and "pbase (h_data k') \<notin> foot mh m"
    and "foldl fnv_step FNV_OFFSET (0 # cs) \<noteq> 0" and "transparent v" and "h_data v \<noteq> NULL"
    and "2 * (unat (entry_count m) + 1) \<le> unat (table_size m)"
  shows "runs (map_set_str tb mh k v) s (\<lambda>r t. r \<and> map_get_str tb mh k' t = Inr (v, t))"
proof -
  define h where "h = foldl fnv_step FNV_OFFSET (0 # cs)"
  note ok = assms(1)
  have "runs (do_set tb mh h v) s (\<lambda>r t. r \<and> frame (foot mh m) s t \<and>
      (\<exists>m' es'. map_ok MEM_ALLOCATOR_PLAIN mh m' es' t \<and> lookup es' = (lookup es)(h \<mapsto> v)))"
    by (rule runs_conseq [OF plain.do_set_refines [OF ok]]) (use assms(6,9) in \<open>auto simp: h_def\<close>)
  then obtain t where set: "do_set tb mh h v s = Inr (True, t)" and post: "frame (foot mh m) s t \<and>
      (\<exists>m' es'. map_ok MEM_ALLOCATOR_PLAIN mh m' es' t \<and> lookup es' = (lookup es)(h \<mapsto> v))"
    by (rule runs_TrueE)
  then obtain m' es' where ok': "map_ok MEM_ALLOCATOR_PLAIN mh m' es' t"
      and lk: "lookup es' = (lookup es)(h \<mapsto> v)" by blast
  have fr: "frame (foot mh m) s t" using post by (rule conjunct1)
  have "str_rep k' cs t" using fr assms(5) by (intro str_rep_frame [OF assms(3)]) (simp add: frame_def)
  then have "hash_str tb k' t = Inr (h, t)" unfolding h_def by (rule hash_str_exec [OF _ assms(4)])
  then have "map_get_str tb mh k' t = Inr (v, t)"
    using plain.do_get_refines [OF ok', of tb] plain.map_is_valid_exec [OF map_okD(1) [OF ok'], of tb] lk
    by (simp add: map_get_str_def cbind_apply)
  moreover have "map_set_str tb mh k v s = Inr (True, t)"
    using hash_str_exec [OF assms(2,4), of tb, folded h_def] plain.map_is_valid_exec [OF map_okD(1) [OF ok], of tb] set
      assms(7,8)
    by (simp add: map_set_str_def cbind_apply transparent_p)
  ultimately show ?thesis by (simp add: runs_def)
qed

theorem map_str_roundtrip_witness:
  "runs (map_set_str (memtbl_ops 0) sample_mh (mem_handle_from_ptr (Ptr 0x7000 0) 3) sample_value)
     (sample_texts [72, 101, 108])
     (\<lambda>r t. r \<and> map_get_str (memtbl_ops 0) sample_mh (mem_handle_from_ptr (Ptr 0x8000 0) 3) t
        = Inr (sample_value, t))"
proof -
  have "foldl fnv_step FNV_OFFSET [0, 72, 101, 108] \<noteq> 0" by code_simp
  then show ?thesis
    using map_str_roundtrip [OF sample_texts_map [of "[72, 101, 108]"]
        sample_texts_str [of "[72, 101, 108]" "0x7000"] sample_texts_str [of "[72, 101, 108]" "0x8000"],
        of sample_value]
    by (simp add: mem_handle_from_ptr_def foot_def sample_mh_def sample_table_mh_def
        sample_value_def transparent_def)
qed

end
