(* ===== verification/Ds_Mem_Props.thy ===== *)
theory Ds_Mem_Props
  imports Ds_Key_Props Ds_Strbuf
begin

text \<open>
  The functional properties of the memory handle layer, for handles of the plain allocator and
  for handles that own no memory.
\<close>

section \<open>Reallocation keeps bytes\<close>

context owning_allocator
begin

lemma mem_realloc_chars:
  assumes A: "A = MEM_ALLOCATOR_PLAIN" "h_alloc h = A" and own: "owned s h b"
    and ch: "chars_at (h_data h) cs s" and n: "n \<noteq> 0"
  shows "runs (mem_realloc tb h n) s (\<lambda>r t. env_same s t \<and>
    (if h_data r = NULL then heap t = heap s
     else chars_at (h_data r) (take (unat n) cs) t \<and> h_size r = n \<and> h_alloc r = A \<and>
       (\<exists>b'. owned t r b' \<and> b_size b' = n) \<and>
       (\<forall>a. a \<noteq> pbase (h_data r) \<and> a \<noteq> pbase (h_data h) \<longrightarrow> heap t a = heap s a)))"
proof -
  obtain bs where bs: "block_bytes b = Inr bs" "length cs \<le> length bs"
      "take (length cs) bs = map Some cs"
    using ch own by (auto simp: chars_at_def owned_def)
  then have "bytes_of (b_size b) (b_content b) = Some bs"
    by (auto simp: block_bytes_def split: option.splits)
  then obtain c' bs' where c': "resize_content (b_size b) n (b_content b) = Inr c'"
      "bytes_of n c' = Some bs'" "length bs' = unat n" "take (length bs) bs' = take (unat n) bs"
    by (rule resize_bytes)
  have keep: "take (length (take (unat n) cs)) bs' = map Some (take (unat n) cs)"
  proof -
    have "take (length (take (unat n) cs)) bs' = take (min (unat n) (length cs)) (take (length bs) bs')"
      using bs(2) by (simp add: min_def)
    also have "\<dots> = take (unat n) (take (length cs) bs)" using c'(4) by (simp add: min.commute)
    finally show ?thesis using bs(3) by (simp add: take_map)
  qed
  show ?thesis
  proof (rule runs_conseq [OF realloc_law [OF A(2) own n c'(1)]])
    fix r t assume "realloc_post b h n s r t"
    then show "env_same s t \<and> (if h_data r = NULL then heap t = heap s
     else chars_at (h_data r) (take (unat n) cs) t \<and> h_size r = n \<and> h_alloc r = A \<and>
       (\<exists>b'. owned t r b' \<and> b_size b' = n) \<and>
       (\<forall>a. a \<noteq> pbase (h_data r) \<and> a \<noteq> pbase (h_data h) \<longrightarrow> heap t a = heap s a))"
      using c' keep A
      by (auto simp: realloc_post_def chars_at_def block_bytes_def owned_def)
  qed
qed

end

section \<open>Properties\<close>

text \<open>
  mem_alloc_clear on the plain allocator either reports failure with an invalid handle and
  changes nothing, or returns a fresh block of the wanted size whose bytes are all zero.
\<close>

theorem mem_alloc_clear_zeroes:
  "runs (mem_alloc_clear tb MEM_ALLOCATOR_PLAIN n) s (\<lambda>r t. env_same s t \<and>
     (if h_data r = NULL then heap t = heap s
      else chars_at (h_data r) (replicate (unat n) 0) t \<and> h_size r = n \<and>
        h_alloc r = MEM_ALLOCATOR_PLAIN \<and> heap s (pbase (h_data r)) = None \<and>
        (\<forall>a. a \<noteq> pbase (h_data r) \<longrightarrow> heap t a = heap s a)))"
  by (rule runs_conseq [OF plain.alloc_clear_law])
    (auto simp: alloc_post_def chars_at_def block_bytes_def)

theorem mem_alloc_clear_zeroes_witness:
  "runs (mem_alloc_clear (memtbl_ops 0) MEM_ALLOCATOR_PLAIN 4) (sample_texts [72])
     (\<lambda>r t. h_data r = NULL \<longrightarrow> heap t = heap (sample_texts [72]))"
  by (rule runs_conseq [OF mem_alloc_clear_zeroes]) simp

text \<open>
  C27. str_duplicate_str of any str with a plain or static text returns an invalid handle with
  nothing allocated, or a str with the same text in fresh memory of its own.
\<close>

theorem str_duplicate_str_copies:
  assumes "str_rep h cs s"
  shows "runs (str_duplicate_str tb h) s (\<lambda>r t. env_same s t \<and>
    (if h_data r = NULL then r = null_handle \<and> heap t = heap s
     else str_rep r cs t \<and> h_alloc r = MEM_ALLOCATOR_PLAIN \<and> h_size r = h_size h \<and>
       (\<exists>b. owned t r b) \<and> heap s (pbase (h_data r)) = None \<and>
       (\<forall>a. a \<noteq> pbase (h_data r) \<longrightarrow> heap t a = heap s a)))"
proof -
  have "str_duplicate_str tb h = mem_duplicate_with_allocator tb MEM_ALLOCATOR_PLAIN h"
    using str_repD(1,4) [OF assms]
    by (auto simp: str_duplicate_str_def str_is_valid_def mem_is_valid_def transparent_def
        str_duplicate_str_with_allocator_def MEM_ALLOCATOR_PLAIN_def MEM_ALLOCATOR_PLAIN_SPEC_def
        MEM_ALLOCATOR_NOT_ALLOCATED_def MEM_ALLOCATOR_NOT_ALLOCATED_SPEC_def)
  then show ?thesis using plain.mem_duplicate_chars [OF assms refl, of tb] by simp
qed

theorem str_duplicate_str_copies_witness:
  "runs (str_duplicate_str (memtbl_ops 0) (mem_handle_from_ptr (Ptr 0x7000 0) 3))
     (sample_texts [72, 101, 108])
     (\<lambda>r t. h_data r \<noteq> NULL \<longrightarrow> str_rep r [72, 101, 108] t)"
  using sample_texts_str [of "[72, 101, 108]" "0x7000"]
  by (intro runs_conseq [OF str_duplicate_str_copies]) (auto split: if_splits)

text \<open>
  C26. mem_realloc of a plain handle to a nonzero size either returns an invalid handle and leaves
  the old block as it is, or a handle to a block of the new size that starts with the old bytes,
  as far as they fit.
\<close>

theorem mem_realloc_keeps_bytes:
  assumes "h_alloc h = MEM_ALLOCATOR_PLAIN" and "owned s h b" and "chars_at (h_data h) cs s" and "n \<noteq> 0"
  shows "runs (mem_realloc tb h n) s (\<lambda>r t. env_same s t \<and>
    (if h_data r = NULL then heap t = heap s
     else chars_at (h_data r) (take (unat n) cs) t \<and> h_size r = n \<and>
       h_alloc r = MEM_ALLOCATOR_PLAIN \<and> (\<exists>b'. owned t r b' \<and> b_size b' = n) \<and>
       (\<forall>a. a \<noteq> pbase (h_data r) \<and> a \<noteq> pbase (h_data h) \<longrightarrow> heap t a = heap s a)))"
  using assms by (intro plain.mem_realloc_chars refl)

definition owned_text :: "byte list \<Rightarrow> cstate" where
  "owned_text cs = (sample_state [] 0 (\<lambda>_. 0x5000))\<lparr>heap := [0x4000 \<mapsto>
     \<lparr>b_size = of_nat (length cs), b_heap = True, b_content = Bytes (map Some cs)\<rparr>]\<rparr>"

definition owned_handle :: mem_handle where
  "owned_handle = \<lparr>h_data = Ptr 0x4000 0, h_size = 3, h_alloc = MEM_ALLOCATOR_PLAIN\<rparr>"

theorem mem_realloc_keeps_bytes_witness:
  "runs (mem_realloc (memtbl_ops 0) owned_handle 2) (owned_text [72, 101, 108])
     (\<lambda>r t. h_data r \<noteq> NULL \<longrightarrow> chars_at (h_data r) [72, 101] t)"
proof -
  let ?b = "\<lparr>b_size = 3, b_heap = True, b_content = Bytes (map Some [72, 101, 108])\<rparr>"
  have "owned (owned_text [72, 101, 108]) owned_handle ?b"
    by (simp add: owned_def owned_text_def owned_handle_def)
  moreover have "chars_at (h_data owned_handle) [72, 101, 108] (owned_text [72, 101, 108])"
    by (simp add: chars_at_def owned_text_def owned_handle_def block_bytes_def)
  ultimately show ?thesis
    by (intro runs_conseq [OF mem_realloc_keeps_bytes]) (auto simp: owned_handle_def split: if_splits)
qed

text \<open>
  A plain allocation that is freed again leaves the heap exactly as it was, and freeing the
  handle a second time is the undefined behaviour of a double free.
\<close>

theorem mem_alloc_free_roundtrip:
  "runs (mem_alloc tb MEM_ALLOCATOR_PLAIN n) s (\<lambda>h t. h_data h \<noteq> NULL \<longrightarrow>
     runs (mem_free tb h) t (\<lambda>r u. r = null_handle \<and> heap u = heap s \<and> mem_free tb h u = Inl Bad_free))"
proof (rule runs_conseq [OF plain.alloc_law], intro impI)
  fix h t assume "alloc_post Fresh MEM_ALLOCATOR_PLAIN n s h t" and "h_data h \<noteq> NULL"
  then obtain a where a: "a \<noteq> 0" "heap s a = None"
      and h: "h = \<lparr>h_data = Ptr a 0, h_size = n, h_alloc = MEM_ALLOCATOR_PLAIN\<rparr>"
      and ht: "heap t = (heap s)(a \<mapsto> \<lparr>b_size = n, b_heap = True, b_content = Fresh\<rparr>)"
    by (auto simp: alloc_post_def)
  then have "owned t h \<lparr>b_size = n, b_heap = True, b_content = Fresh\<rparr>" by (simp add: owned_def)
  from plain.free_law [OF _ this, of tb]
  show "runs (mem_free tb h) t (\<lambda>r u. r = null_handle \<and> heap u = heap s \<and> mem_free tb h u = Inl Bad_free)"
    using a h ht
    by (auto simp: runs_def mem_free_plain plain_free_def libc_defs cbind_apply fun_upd_idem
        split: sum.splits)
qed

theorem mem_alloc_free_roundtrip_witness:
  "runs (mem_alloc (memtbl_ops 0) MEM_ALLOCATOR_PLAIN 8) create_state
     (\<lambda>h t. runs (mem_free (memtbl_ops 0) h) t (\<lambda>r u. heap u = heap create_state))"
proof -
  have "runs (mem_alloc (memtbl_ops 0) MEM_ALLOCATOR_PLAIN 8) create_state (\<lambda>h t. h_data h \<noteq> NULL)"
    by code_simp
  then show ?thesis
    using mem_alloc_free_roundtrip [of "memtbl_ops 0" 8 create_state]
    by (auto simp: runs_def split: sum.splits)
qed

text \<open>
  Freeing, reallocating or duplicating an invalid handle, freeing or reallocating a handle
  that owns no memory, and allocating from the allocator that owns no memory do nothing and return
  an invalid handle.
\<close>

theorem mem_nothing_to_do:
  assumes "h_data bad = NULL" and "h_alloc h = MEM_ALLOCATOR_NOT_ALLOCATED"
  shows "mem_free tb bad s = Inr (null_handle, s) \<and> mem_realloc tb bad n s = Inr (null_handle, s) \<and>
    mem_duplicate tb bad s = Inr (null_handle, s) \<and> mem_p tb bad s = Inr (NULL, s) \<and>
    mem_free tb h s = Inr (null_handle, s) \<and> mem_realloc tb h n s = Inr (null_handle, s) \<and>
    mem_alloc tb MEM_ALLOCATOR_NOT_ALLOCATED n s = Inr (null_handle, s)"
  using assms
  by (simp add: mem_free_def mem_realloc_def mem_duplicate_def mem_duplicate_with_allocator_def
      mem_alloc_def mem_is_valid_def MEM_ALLOCATOR_NOT_ALLOCATED_def
      MEM_ALLOCATOR_NOT_ALLOCATED_SPEC_def)

theorem mem_nothing_to_do_witness:
  "mem_free (memtbl_ops 0) (mem_handle_from_ptr (Ptr 0x7000 0) 3) (sample_texts [72])
     = Inr (null_handle, sample_texts [72])"
  using mem_nothing_to_do [of null_handle "mem_handle_from_ptr (Ptr 0x7000 0) 3" "memtbl_ops 0"]
  by (simp add: mem_handle_from_ptr_def)

end
