(* ===== verification/Ds_Memtbl_Proofs.thy ===== *)
theory Ds_Memtbl_Proofs
  imports Ds_Mem_Props
begin

text \<open>
  The memory table against what it needs of its map: the locale \<open>handle_store\<close> is that
  interface, interpreted on the map of map.c at its initial size.
\<close>

section \<open>The store a memory table relies on\<close>

text \<open>
  What memtbl.c needs of its map: a store of handles keyed by the hash of an address. \<open>store f n s\<close>
  says that the store holds \<open>f\<close> and has room for \<open>n\<close> more entries, \<open>area\<close> is the set of its
  blocks, \<open>fits k\<close> that an entry with hash \<open>k\<close> may be added, and \<open>deletable k s\<close> that the entry of
  hash \<open>k\<close> can be removed without hiding another.
\<close>

locale handle_store =
  fixes tb :: table_ops and mh :: mem_handle
    and store :: "(uint \<rightharpoonup> mem_handle) \<Rightarrow> nat \<Rightarrow> cstate \<Rightarrow> bool"
    and area :: "64 word set" and fits :: "uint \<Rightarrow> bool" and deletable :: "uint \<Rightarrow> cstate \<Rightarrow> bool"
  assumes valid_law: "store f n s \<Longrightarrow> h_data mh \<noteq> NULL"
    and live_law: "store f n s \<Longrightarrow> a \<in> area \<Longrightarrow> heap s a \<noteq> None"
    and frame_law: "store f n s \<Longrightarrow> \<forall>a \<in> area. heap t a = heap s a \<Longrightarrow> store f n t"
    and deletable_law: "deletable k s \<Longrightarrow> store f n s \<Longrightarrow> \<forall>a \<in> area. heap t a = heap s a \<Longrightarrow> deletable k t"
    and get_law: "store f n s \<Longrightarrow>
      map_get_ptr tb mh p s = Inr (case f (hash_ptr p) of None \<Rightarrow> null_handle | Some v \<Rightarrow> v, s)"
    and set_law: "store f (Suc n) s \<Longrightarrow> fits (hash_ptr p) \<Longrightarrow> h_data v \<noteq> NULL \<Longrightarrow>
      runs (map_set_ptr tb mh p v) s
        (\<lambda>r t. r \<and> frame area s t \<and> store (f(hash_ptr p \<mapsto> v)) n t)"
    and absent_law: "store f n s \<Longrightarrow> f (hash_ptr p) = None \<Longrightarrow> map_delete_ptr tb mh p s = Inr (False, s)"
    and delete_law: "store f n s \<Longrightarrow> f (hash_ptr p) = Some v \<Longrightarrow> deletable (hash_ptr p) s \<Longrightarrow>
      runs (map_delete_ptr tb mh p) s
        (\<lambda>r t. r \<and> frame area s t \<and> store (f(hash_ptr p := None)) n t)"

definition table_at :: "mem_handle \<Rightarrow> mem_handle \<Rightarrow> cstate \<Rightarrow> bool" where
  "table_at mth mh s \<longleftrightarrow> load_memtbl (h_data mth) s = Inr (\<lparr>mem_map_handle = mh\<rparr>, s)"

lemma table_at_frame:
  "table_at mth mh s \<Longrightarrow> heap t (pbase (h_data mth)) = heap s (pbase (h_data mth)) \<Longrightarrow> table_at mth mh t"
  unfolding table_at_def by (rule load_memtbl_frame)

lemma table_at_valid: "table_at mth mh s \<Longrightarrow> h_data mth \<noteq> NULL"
  by (auto simp: table_at_def load_memtbl_def load_struct_def load_Inr_iff block_at_Inr_iff)

lemma mem_allocator_memtbl_data [simp]: "allocator_data (mem_allocator_memtbl mth) = h_data mth"
  by (simp add: mem_allocator_memtbl_def)

lemma malloc_runs:
  "runs (malloc n) s (\<lambda>p t. env_same s t \<and>
     (if p = NULL then heap t = heap s
      else p = Ptr (fresh_answer s) 0 \<and> fresh_answer s \<noteq> 0 \<and> heap s (fresh_answer s) = None \<and>
        heap t = (heap s)(fresh_answer s \<mapsto> \<lparr>b_size = n, b_heap = True, b_content = Fresh\<rparr>)))"
  by (auto simp: malloc_def runs_def libc_defs Let_def env_same_def)

lemma free_runs:
  "heap s (pbase p) = Some b \<Longrightarrow> b_heap b \<Longrightarrow> poff p = 0 \<Longrightarrow> p \<noteq> NULL \<Longrightarrow>
   runs (free p) s (\<lambda>_ t. env_same s t \<and> heap t = (heap s)(pbase p := None))"
  by (auto simp: free_def runs_def libc_defs env_same_def)

lemma free_NULL: "runs (free NULL) s (\<lambda>_ t. env_same s t \<and> heap t = heap s)"
  by (auto simp: free_def runs_def libc_defs env_same_def)

lemma realloc_runs:
  assumes "owned s h b" and "n \<noteq> 0" and "resize_content (b_size b) n (b_content b) = Inr c"
  defines "a \<equiv> answers s (calls s)"
  shows "runs (realloc (h_data h) n) s (\<lambda>p t. env_same s t \<and>
    (if p = NULL then heap t = heap s
     else p = Ptr a 0 \<and> a \<noteq> 0 \<and> (a = pbase (h_data h) \<or> heap s a = None) \<and>
       heap t = (heap s)(pbase (h_data h) := None, a \<mapsto> \<lparr>b_size = n, b_heap = True, b_content = c\<rparr>)))"
  using assms by (auto simp: realloc_def runs_def libc_defs Let_def env_same_def owned_def ptr_null_iff)

context handle_store
begin

lemma table_map_exec:
  "table_at mth mh s \<Longrightarrow> store f n s \<Longrightarrow> table_map (h_data mth) s = Inr (Some mh, s)"
  using valid_law [of f n s] table_at_valid [of mth mh s]
  by (simp add: table_map_def table_at_def cbind_apply mem_is_valid_def)

lemma memtbl_p_exec:
  assumes "table_at mth mh s" and "store f n s" and "h_alloc h = mem_allocator_memtbl mth"
    and "h_data h \<noteq> NULL"
  shows "memtbl_p tb h s =
    Inr (case f (hash_ptr (h_data h)) of None \<Rightarrow> NULL | Some v \<Rightarrow> h_data v, s)"
  using assms
  by (simp add: memtbl_p_def mem_is_valid_def cbind_apply table_map_exec get_law split: option.splits)

lemma memtbl_alloc_runs:
  assumes tab: "table_at mth mh s" and st: "store f (Suc n) s" and sep: "pbase (h_data mth) \<notin> area"
    and key: "fresh_answer s \<noteq> 0 \<longrightarrow> fits (hash_ptr (Ptr (fresh_answer s) 0))"
  shows "runs (memtbl_alloc tb (mem_allocator_memtbl mth) sz) s (\<lambda>r t. env_same s t \<and> table_at mth mh t \<and>
    (if h_data r = NULL then r = null_handle \<and> heap t = heap s \<and> store f (Suc n) t
     else r = \<lparr>h_data = Ptr (fresh_answer s) 0, h_size = sz, h_alloc = mem_allocator_memtbl mth\<rparr> \<and>
       heap s (fresh_answer s) = None \<and>
       heap t (fresh_answer s) = Some \<lparr>b_size = sz, b_heap = True, b_content = Fresh\<rparr> \<and>
       store (f(hash_ptr (h_data r) \<mapsto> r)) n t \<and>
       (\<forall>a. a \<notin> insert (fresh_answer s) area \<longrightarrow> heap t a = heap s a)))"
proof -
  let ?a = "fresh_answer s"
  let ?r = "\<lparr>h_data = Ptr ?a 0, h_size = sz, h_alloc = mem_allocator_memtbl mth\<rparr>"
  obtain p t1 where m: "malloc sz s = Inr (p, t1)" and e: "env_same s t1"
      and post: "if p = NULL then heap t1 = heap s
      else p = Ptr ?a 0 \<and> ?a \<noteq> 0 \<and> heap s ?a = None \<and>
        heap t1 = (heap s)(?a \<mapsto> \<lparr>b_size = sz, b_heap = True, b_content = Fresh\<rparr>)"
    using malloc_runs [of sz s] by (auto elim!: runsE)
  have start: "memtbl_alloc tb (mem_allocator_memtbl mth) sz s =
      (if p = NULL then Inr (null_handle, t1)
       else cbind (map_set_ptr tb mh p \<lparr>h_data = p, h_size = sz, h_alloc = mem_allocator_memtbl mth\<rparr>) (\<lambda>ok. if \<not> ok then cbind (free p) (\<lambda>_. ret null_handle)
          else ret \<lparr>h_data = p, h_size = sz, h_alloc = mem_allocator_memtbl mth\<rparr>) t1)"
    by (auto simp: memtbl_alloc_def cbind_apply table_map_exec [OF tab st] m Let_def)
  show ?thesis
  proof (cases "p = NULL")
    case True
    then show ?thesis
      using start e post frame_law [OF st, of t1] table_at_frame [OF tab, of t1]
      by (simp add: runs_def)
  next
    case False
    then have p: "p = Ptr ?a 0" "?a \<noteq> 0" "heap s ?a = None"
      and h1: "heap t1 = (heap s)(?a \<mapsto> \<lparr>b_size = sz, b_heap = True, b_content = Fresh\<rparr>)"
      using post by simp_all
    have out: "?a \<notin> area" using live_law [OF st, of ?a] p(3) by auto
    then have "\<forall>a \<in> area. heap t1 a = heap s a" using h1 by auto
    then have "store f (Suc n) t1" by (rule frame_law [OF st])
    then have "runs (map_set_ptr tb mh (Ptr ?a 0) ?r) t1
        (\<lambda>r t. r \<and> frame area t1 t \<and> store (f(hash_ptr (Ptr ?a 0) \<mapsto> ?r)) n t)"
      using key p(2) by (intro set_law) simp_all
    then obtain t where set: "map_set_ptr tb mh (Ptr ?a 0) ?r t1 = Inr (True, t)"
        and st2: "frame area t1 t \<and> store (f(hash_ptr (Ptr ?a 0) \<mapsto> ?r)) n t"
      by (rule runs_TrueE)
    then have heap: "\<forall>a. a \<notin> area \<longrightarrow> heap t a = heap t1 a" and e2: "env_same t1 t"
      by (auto simp: frame_def)
    have mth: "pbase (h_data mth) \<noteq> ?a"
      using tab p(3) by (auto simp: table_at_def load_memtbl_def load_struct_def load_Inr_iff block_at_Inr_iff)
    have run: "memtbl_alloc tb (mem_allocator_memtbl mth) sz s = Inr (?r, t)"
      using False start set p by (simp add: cbind_apply)
    have "table_at mth mh t" using heap sep mth h1 by (intro table_at_frame [OF tab]) simp
    then show ?thesis
      using run p out heap h1 st2 env_same_trans [OF e e2] by (simp add: runs_def)
  qed
qed

lemma self_p_exec:
  assumes "table_at mth mh s" and "store f n s" and "h_alloc h = mem_allocator_memtbl mth"
    and "h_data h \<noteq> NULL"
  shows "self_p tb h s =
    Inr (case f (hash_ptr (h_data h)) of None \<Rightarrow> NULL | Some v \<Rightarrow> h_data v, s)"
  using memtbl_p_exec [OF assms] assms(3,4)
  by (simp add: self_p_def mem_p_def mem_is_valid_def mem_allocator_memtbl_def MEMTBL_ALLOCATOR_SPEC_def)

lemma memtbl_free_unfold:
  assumes "table_at mth mh s" and "store f n s" and "h_alloc h = mem_allocator_memtbl mth"
    and "h_data h \<noteq> NULL" and "f (hash_ptr (h_data h)) = Some v" and "h_data v = h_data h"
  shows "memtbl_free tb h s =
    cbind (map_delete_ptr tb mh (h_data h)) (\<lambda>_. cbind (free (h_data h)) (\<lambda>_. ret null_handle)) s"
  using self_p_exec [OF assms(1-4)] assms
  by (simp add: memtbl_free_def mem_is_valid_def cbind_apply table_map_exec [OF assms(1,2)])

text \<open>Freeing a handle the table knows releases its block and forgets it.\<close>

lemma memtbl_free_runs:
  assumes tab: "table_at mth mh s" and st: "store f n s" and sep: "pbase (h_data mth) \<notin> area"
    and h: "h_alloc h = mem_allocator_memtbl mth" and own: "owned s h b"
    and reg: "f (hash_ptr (h_data h)) = Some v" "h_data v = h_data h"
    and del: "deletable (hash_ptr (h_data h)) s"
    and out: "pbase (h_data h) \<notin> area" "pbase (h_data h) \<noteq> pbase (h_data mth)"
  shows "runs (memtbl_free tb h) s (\<lambda>r t. r = null_handle \<and> env_same s t \<and> table_at mth mh t \<and>
    store (f(hash_ptr (h_data h) := None)) n t \<and> heap t (pbase (h_data h)) = None \<and>
    (\<forall>a. a \<notin> insert (pbase (h_data h)) area \<longrightarrow> heap t a = heap s a))"
proof -
  have nn: "h_data h \<noteq> NULL" using own by (rule owned_not_null)
  obtain t1 where d: "map_delete_ptr tb mh (h_data h) s = Inr (True, t1)"
      and post: "frame area s t1 \<and> store (f(hash_ptr (h_data h) := None)) n t1"
    using delete_law [OF st reg(1) del] by (rule runs_TrueE)
  then have e1: "env_same s t1" and h1: "\<forall>a. a \<notin> area \<longrightarrow> heap t1 a = heap s a"
    and st1: "store (f(hash_ptr (h_data h) := None)) n t1"
    by (auto simp: frame_def)
  have b: "heap t1 (pbase (h_data h)) = Some b" "b_heap b" "poff (h_data h) = 0"
    using own h1 out(1) by (auto simp: owned_def)
  obtain u t where fr: "free (h_data h) t1 = Inr (u, t)" and e2: "env_same t1 t"
      and h2: "heap t = (heap t1)(pbase (h_data h) := None)"
    using free_runs [OF b nn] by (auto elim!: runsE)
  have "memtbl_free tb h s = Inr (null_handle, t)"
    by (simp add: memtbl_free_unfold [OF tab st h nn reg] cbind_apply d fr)
  moreover have "store (f(hash_ptr (h_data h) := None)) n t"
    by (rule frame_law [OF st1]) (use h2 out(1) in auto)
  moreover have "table_at mth mh t"
    by (rule table_at_frame [OF tab]) (use h1 h2 sep out(2) in auto)
  ultimately show ?thesis
    using h1 h2 env_same_trans [OF e1 e2] by (simp add: runs_def)
qed

text \<open>Freeing a handle the table does not know does nothing.\<close>

lemma memtbl_free_unknown:
  assumes tab: "table_at mth mh s" and st: "store f n s"
    and h: "h_alloc h = mem_allocator_memtbl mth" and nn: "h_data h \<noteq> NULL"
    and un: "f (hash_ptr (h_data h)) = None" "f (hash_ptr NULL) = None"
  shows "runs (memtbl_free tb h) s (\<lambda>r t. r = null_handle \<and> env_same s t \<and> heap t = heap s)"
  using free_NULL [of s] nn self_p_exec [OF tab st h nn] un absent_law [OF st un(2)]
  by (auto simp: memtbl_free_def mem_is_valid_def cbind_apply h table_map_exec [OF tab st] runs_def
      split: sum.splits)

text \<open>
  Resizing a handle the table knows: refused, done in place (the table keeps the handle it had), or
  moved to a new address, under which the table then knows the new handle.
\<close>

lemma memtbl_realloc_runs:
  assumes tab: "table_at mth mh s" and st: "store f (Suc n) s" and sep: "pbase (h_data mth) \<notin> area"
    and h: "h_alloc h = mem_allocator_memtbl mth" and own: "owned s h b"
    and reg: "f (hash_ptr (h_data h)) = Some v" "h_data v = h_data h"
    and out: "pbase (h_data h) \<notin> area" "pbase (h_data h) \<noteq> pbase (h_data mth)"
    and sz: "sz \<noteq> 0" and rc: "resize_content (b_size b) sz (b_content b) = Inr c"
  defines "a \<equiv> answers s (calls s)"
  defines "r \<equiv> \<lparr>h_data = Ptr a 0, h_size = sz, h_alloc = mem_allocator_memtbl mth\<rparr>"
  assumes key: "a \<noteq> 0 \<Longrightarrow> heap s a = None \<Longrightarrow>
      fits (hash_ptr (Ptr a 0)) \<and> hash_ptr (Ptr a 0) \<noteq> hash_ptr (h_data h)"
    and del: "\<And>g k t. store g k t \<Longrightarrow> g (hash_ptr (h_data h)) \<noteq> None \<Longrightarrow> deletable (hash_ptr (h_data h)) t"
  shows "runs (memtbl_realloc tb h sz) s (\<lambda>x t. env_same s t \<and> table_at mth mh t \<and>
    (if h_data x = NULL then x = null_handle \<and> heap t = heap s
     else x = r \<and> a \<noteq> 0 \<and> (a = pbase (h_data h) \<or> heap s a = None) \<and>
       (if a = pbase (h_data h) then store f (Suc n) t
        else store (f(hash_ptr (Ptr a 0) \<mapsto> r, hash_ptr (h_data h) := None)) n t) \<and>
       (\<forall>y. y \<notin> area \<longrightarrow> heap t y = ((heap s)(pbase (h_data h) := None,
          a \<mapsto> \<lparr>b_size = sz, b_heap = True, b_content = c\<rparr>)) y)))"
proof -
  have nn: "h_data h \<noteq> NULL" using own by (rule owned_not_null)
  obtain p t1 where rl: "realloc (h_data h) sz s = Inr (p, t1)" and e1: "env_same s t1"
      and post: "if p = NULL then heap t1 = heap s
      else p = Ptr a 0 \<and> a \<noteq> 0 \<and> (a = pbase (h_data h) \<or> heap s a = None) \<and>
        heap t1 = (heap s)(pbase (h_data h) := None, a \<mapsto> \<lparr>b_size = sz, b_heap = True, b_content = c\<rparr>)"
    using realloc_runs [OF own sz rc] unfolding a_def by (auto elim!: runsE)
  have start: "memtbl_realloc tb h sz s = (if p = NULL then Inr (null_handle, t1)
      else if p \<noteq> h_data h then cbind (map_set_ptr tb mh p \<lparr>h_data = p, h_size = sz, h_alloc = mem_allocator_memtbl mth\<rparr>) (\<lambda>ok.
          cbind (if \<not> ok then ret False else map_delete_ptr tb mh (h_data h)) (\<lambda>ok.
          if \<not> ok then cbind (free p) (\<lambda>_. ret null_handle)
          else ret \<lparr>h_data = p, h_size = sz, h_alloc = mem_allocator_memtbl mth\<rparr>)) t1
      else Inr (\<lparr>h_data = p, h_size = sz, h_alloc = mem_allocator_memtbl mth\<rparr>, t1))"
    using self_p_exec [OF tab st h nn] reg nn
    by (simp add: memtbl_realloc_def mem_is_valid_def cbind_apply h table_map_exec [OF tab st] rl Let_def)
  show ?thesis
  proof (cases "p = NULL")
    case True
    then show ?thesis
      using start e1 post table_at_frame [OF tab, of t1] by (simp add: runs_def)
  next
    case False
    then have p: "p = Ptr a 0" "a \<noteq> 0" "a = pbase (h_data h) \<or> heap s a = None"
      and h1: "heap t1 = (heap s)(pbase (h_data h) := None, a \<mapsto> \<lparr>b_size = sz, b_heap = True, b_content = c\<rparr>)"
      using post by simp_all
    have off: "poff (h_data h) = 0" using own by (simp add: owned_def)
    have live: "heap s (pbase (h_data mth)) \<noteq> None"
      using tab by (auto simp: table_at_def load_memtbl_def load_struct_def load_Inr_iff block_at_Inr_iff)
    then have mth: "pbase (h_data mth) \<noteq> a" using p(3) out(2) by auto
    have a_out: "a \<notin> area" using p(3) out(1) live_law [OF st, of a] by auto
    have same: "\<forall>y \<in> area. heap t1 y = heap s y" using h1 a_out out(1) by auto
    then have st1: "store f (Suc n) t1" by (rule frame_law [OF st])
    have tab1: "table_at mth mh t1" using mth out(2) by (intro table_at_frame [OF tab]) (simp add: h1)
    show ?thesis
    proof (cases "a = pbase (h_data h)")
      case True
      then have "p = h_data h" using p(1) off by (cases "h_data h") simp
      then show ?thesis
        using start False e1 tab1 st1 True p h1 by (simp add: runs_def r_def)
    next
      case moved: False
      then have ne: "p \<noteq> h_data h" using p(1) by (metis ptr.sel(1))
      have k: "fits (hash_ptr p)" "hash_ptr p \<noteq> hash_ptr (h_data h)" using key p moved by auto
      have "runs (map_set_ptr tb mh p r) t1 (\<lambda>x t. x \<and> frame area t1 t \<and> store (f(hash_ptr p \<mapsto> r)) n t)"
        using set_law [OF st1 k(1), of r] p(1,2) by (simp add: r_def)
      then obtain t2 where set: "map_set_ptr tb mh p r t1 = Inr (True, t2)"
          and P2: "frame area t1 t2 \<and> store (f(hash_ptr p \<mapsto> r)) n t2" by (rule runs_TrueE)
      have fr2: "frame area t1 t2" and st2: "store (f(hash_ptr p \<mapsto> r)) n t2" using P2 by simp_all
      have old: "(f(hash_ptr p \<mapsto> r)) (hash_ptr (h_data h)) = Some v" using reg(1) k(2) by simp
      have "runs (map_delete_ptr tb mh (h_data h)) t2 (\<lambda>x t. x \<and> frame area t2 t \<and>
          store (f(hash_ptr p \<mapsto> r, hash_ptr (h_data h) := None)) n t)"
        by (rule delete_law [OF st2 old del [OF st2]]) (simp add: reg)
      then obtain t3 where dl: "map_delete_ptr tb mh (h_data h) t2 = Inr (True, t3)"
          and P3: "frame area t2 t3 \<and> store (f(hash_ptr p \<mapsto> r, hash_ptr (h_data h) := None)) n t3"
        by (rule runs_TrueE)
      have fr: "frame area t1 t3" using P3 frame_trans [OF fr2] by blast
      have "table_at mth mh t3" using fr sep by (intro table_at_frame [OF tab1]) (simp add: frame_def)
      moreover have "env_same s t3" using e1 fr by (auto simp: frame_def dest: env_same_trans)
      moreover have "memtbl_realloc tb h sz s = Inr (r, t3)"
        using start False ne set dl p(1) by (simp add: cbind_apply r_def)
      moreover have "\<forall>y. y \<notin> area \<longrightarrow> heap t3 y = heap t1 y" using fr by (simp add: frame_def)
      ultimately show ?thesis
        using P3 moved p h1 by (simp add: runs_def r_def)
    qed
  qed
qed

end

section \<open>The map of map.c as that store\<close>

text \<open>A map at its initial size, whose table is the block of \<open>eh\<close>.\<close>

definition map_store ::
  "mem_handle \<Rightarrow> mem_handle \<Rightarrow> (uint \<rightharpoonup> mem_handle) \<Rightarrow> nat \<Rightarrow> cstate \<Rightarrow> bool" where
  "map_store mh eh f n s \<longleftrightarrow> (\<exists>m es. map_ok MEM_ALLOCATOR_PLAIN mh m es s \<and> entries_mh m = eh \<and>
     f = lookup es \<and> table_size m = 32 \<and> unat (entry_count m) + n \<le> 16)"

definition map_deletable :: "mem_handle \<Rightarrow> mem_handle \<Rightarrow> uint \<Rightarrow> cstate \<Rightarrow> bool" where
  "map_deletable mh eh k s \<longleftrightarrow> (\<forall>m es i. map_ok MEM_ALLOCATOR_PLAIN mh m es s \<and> entries_mh m = eh \<and>
     probe es k = Some i \<and> key_hash (es ! i) \<noteq> 0 \<longrightarrow> removable es i)"

lemma map_storeE:
  assumes "map_store mh eh f n s"
  obtains m es where "map_ok MEM_ALLOCATOR_PLAIN mh m es s" "entries_mh m = eh" "f = lookup es"
    "table_size m = 32" "unat (entry_count m) + n \<le> 16" "foot mh m = {pbase (h_data mh), pbase (h_data eh)}"
  using assms by (auto simp: map_store_def foot_def)

lemma map_storeI:
  "map_ok MEM_ALLOCATOR_PLAIN mh m es s \<Longrightarrow> entries_mh m = eh \<Longrightarrow> f = lookup es \<Longrightarrow>
   table_size m = 32 \<Longrightarrow> unat (entry_count m) + n \<le> 16 \<Longrightarrow> map_store mh eh f n s"
  by (auto simp: map_store_def)

lemma map_store_set:
  assumes "map_store mh eh f (Suc n) s" and "hash_ptr p \<noteq> 0" and "h_data v \<noteq> NULL"
  shows "runs (map_set_ptr tb mh p v) s (\<lambda>r t. r \<and> frame {pbase (h_data mh), pbase (h_data eh)} s t \<and>
    map_store mh eh (f(hash_ptr p \<mapsto> v)) n t)"
proof -
  obtain m es where ok: "map_ok MEM_ALLOCATOR_PLAIN mh m es s" and m: "entries_mh m = eh"
      "f = lookup es" "table_size m = 32" "unat (entry_count m) + Suc n \<le> 16"
      "foot mh m = {pbase (h_data mh), pbase (h_data eh)}"
    using assms(1) by (rule map_storeE)
  have room: "2 * (unat (entry_count m) + 1) \<le> unat (table_size m)" using m(4) by (simp add: m(3))
  have up: "unat (entry_count m + 1) = unat (entry_count m) + 1"
    using m(4) by (simp add: unat_word_ariths)
  have "runs (do_set tb mh (hash_ptr p) v) s (\<lambda>r t. r \<and> frame (foot mh m) s t \<and>
      (\<exists>m' es'. map_ok MEM_ALLOCATOR_PLAIN mh m' es' t \<and> lookup es' = (lookup es)(hash_ptr p \<mapsto> v) \<and>
        entries_mh m' = entries_mh m \<and> table_size m' = table_size m \<and>
        entry_count m' = (if lookup es (hash_ptr p) = None then entry_count m + 1 else entry_count m)))"
    using room by (rule plain.do_set_refines [OF ok assms(2)])
  then have "runs (do_set tb mh (hash_ptr p) v) s (\<lambda>r t. r \<and>
      frame {pbase (h_data mh), pbase (h_data eh)} s t \<and> map_store mh eh (f(hash_ptr p \<mapsto> v)) n t)"
  proof (rule runs_conseq, elim conjE exE, intro conjI)
    fix r t m' es'
    assume "frame (foot mh m) s t" and ok': "map_ok MEM_ALLOCATOR_PLAIN mh m' es' t"
      and m': "lookup es' = (lookup es)(hash_ptr p \<mapsto> v)" "entries_mh m' = entries_mh m"
        "table_size m' = table_size m"
        "entry_count m' = (if lookup es (hash_ptr p) = None then entry_count m + 1 else entry_count m)"
    then show "frame {pbase (h_data mh), pbase (h_data eh)} s t" by (simp only: m(5))
    have "unat (entry_count m') + n \<le> 16" using m(4) m'(4) up by (auto split: if_splits)
    then show "map_store mh eh (f(hash_ptr p \<mapsto> v)) n t"
      using m m' by (intro map_storeI [OF ok']) simp_all
  qed
  then show ?thesis by (simp add: runs_def plain.map_set_ptr_exec [OF ok assms(3)])
qed

lemma map_store_delete:
  assumes st: "map_store mh eh f n s" and v: "f (hash_ptr p) = Some v"
    and del: "map_deletable mh eh (hash_ptr p) s"
  shows "runs (map_delete_ptr tb mh p) s (\<lambda>r t. r \<and> frame {pbase (h_data mh), pbase (h_data eh)} s t \<and>
    map_store mh eh (f(hash_ptr p := None)) n t)"
proof -
  obtain m es where ok: "map_ok MEM_ALLOCATOR_PLAIN mh m es s" and m: "entries_mh m = eh"
      "f = lookup es" "table_size m = 32" "unat (entry_count m) + n \<le> 16"
      "foot mh m = {pbase (h_data mh), pbase (h_data eh)}"
    using st by (rule map_storeE)
  have there: "key_hash (es ! i) \<noteq> 0" if "probe es (hash_ptr p) = Some i" for i
    using that v m(2) lookup_empty_slot [OF that] by auto
  then have far: "removable es i" if "probe es (hash_ptr p) = Some i" for i
    using that del ok m(1) by (auto simp: map_deletable_def)
  have small: "\<not> (unat (entry_count m) \<le> unat (table_size m) div 4 \<and> 32 < unat (table_size m))"
    by (simp add: m(3))
  have dec: "unat (entry_count m - 1) \<le> unat (entry_count m) \<or> entry_count m = 0"
    by (metis diff_le_self unat_minus_one)
  have pos: "entry_count m \<noteq> 0"
  proof -
    obtain i where p: "probe es (hash_ptr p) = Some i"
      using map_okD(1,3) [OF ok] by (rule map_rep_probe)
    show ?thesis using counted_remove(3) [OF map_okD(3) [OF ok] probe_less [OF p] there [OF p]] .
  qed
  have "runs (do_delete tb mh (hash_ptr p)) s (\<lambda>r t. (r \<longleftrightarrow> lookup es (hash_ptr p) \<noteq> None) \<and>
      frame (foot mh m) s t \<and> (\<exists>m' es'. map_ok MEM_ALLOCATOR_PLAIN mh m' es' t \<and>
        lookup es' = (lookup es)(hash_ptr p := None) \<and> entries_mh m' = entries_mh m \<and>
        table_size m' = table_size m \<and>
        entry_count m' = (if lookup es (hash_ptr p) = None then entry_count m else entry_count m - 1)))"
    using far by (rule plain.do_delete_refines [OF ok small])
  then show ?thesis
    unfolding map_delete_ptr_def
  proof (rule runs_conseq, elim conjE exE, intro conjI)
    fix r t m' es'
    assume r: "r \<longleftrightarrow> lookup es (hash_ptr p) \<noteq> None" and "frame (foot mh m) s t"
      and ok': "map_ok MEM_ALLOCATOR_PLAIN mh m' es' t"
      and m': "lookup es' = (lookup es)(hash_ptr p := None)" "entries_mh m' = entries_mh m"
        "table_size m' = table_size m"
        "entry_count m' = (if lookup es (hash_ptr p) = None then entry_count m else entry_count m - 1)"
    then show "frame {pbase (h_data mh), pbase (h_data eh)} s t" by (simp only: m(5))
    show r using r v m(2) by simp
    have "unat (entry_count m') \<le> unat (entry_count m)" using m'(4) dec pos by (auto split: if_splits)
    then have "unat (entry_count m') + n \<le> 16" using m(4) by simp
    then show "map_store mh eh (f(hash_ptr p := None)) n t"
      using m m' by (intro map_storeI [OF ok']) simp_all
  qed
qed

interpretation table_map: handle_store tb mh "map_store mh eh"
    "{pbase (h_data mh), pbase (h_data eh)}" "\<lambda>k. k \<noteq> 0" "map_deletable mh eh" for tb mh eh
proof unfold_locales
  fix f n s assume "map_store mh eh f n s"
  then obtain m es where "map_ok MEM_ALLOCATOR_PLAIN mh m es s" "entries_mh m = eh" by (rule map_storeE)
  then have rep: "map_rep MEM_ALLOCATOR_PLAIN mh m es s" "entries_mh m = eh" by (simp_all add: map_okD)
  then show "h_data mh \<noteq> NULL" by (auto simp: map_rep_def owned_def)
  fix a assume "a \<in> {pbase (h_data mh), pbase (h_data eh)}"
  then show "heap s a \<noteq> None" using rep by (auto simp: map_rep_def owned_def)
next
  fix f n s and t :: cstate
  assume "map_store mh eh f n s" and same: "\<forall>a \<in> {pbase (h_data mh), pbase (h_data eh)}. heap t a = heap s a"
  then obtain m es where ok: "map_ok MEM_ALLOCATOR_PLAIN mh m es s" and m: "entries_mh m = eh"
      "f = lookup es" "table_size m = 32" "unat (entry_count m) + n \<le> 16"
      "foot mh m = {pbase (h_data mh), pbase (h_data eh)}"
    by (auto elim: map_storeE)
  then show "map_store mh eh f n t"
    using same by (intro map_storeI [OF map_ok_foot [OF ok]]) simp_all
next
  fix k s f n and t :: cstate
  assume d: "map_deletable mh eh k s"
    and same: "\<forall>a \<in> {pbase (h_data mh), pbase (h_data eh)}. heap t a = heap s a"
  show "map_deletable mh eh k t"
    unfolding map_deletable_def
  proof (intro allI impI, elim conjE)
    fix m es i
    assume ok: "map_ok MEM_ALLOCATOR_PLAIN mh m es t" and m: "entries_mh m = eh"
      and p: "probe es k = Some i" "key_hash (es ! i) \<noteq> 0"
    have "map_ok MEM_ALLOCATOR_PLAIN mh m es s"
      by (rule map_ok_foot [OF ok]) (use same m in \<open>simp add: foot_def\<close>)
    then show "removable es i" using d m p by (auto simp: map_deletable_def)
  qed
next
  fix f n s p assume "map_store mh eh f n s"
  then show "map_get_ptr tb mh p s = Inr (case f (hash_ptr p) of None \<Rightarrow> null_handle | Some v \<Rightarrow> v, s)"
    by (auto elim!: map_storeE simp: plain.map_get_ptr_exec)
next
  fix f n s p assume st: "map_store mh eh f n s" and no: "f (hash_ptr p) = None"
  obtain m es where ok: "map_ok MEM_ALLOCATOR_PLAIN mh m es s" and f: "f = lookup es"
    using st by (rule map_storeE)
  obtain i where p: "probe es (hash_ptr p) = Some i" using map_okD(1,3) [OF ok] by (rule map_rep_probe)
  then have "key_hash (es ! i) = 0" using no f by (simp add: lookup_empty_slot)
  then show "map_delete_ptr tb mh p s = Inr (False, s)"
    unfolding map_delete_ptr_def by (rule plain.do_delete_absent [OF map_okD(1) [OF ok] p])
qed (rule map_store_set map_store_delete; assumption)+

end
