(* ===== verification/Ds_Iter.thy ===== *)
theory Ds_Iter
  imports Ds_Map_Props "HOL-Library.Multiset"
begin

text \<open>
  Iteration over the values of a map: the position the iterator moves to, and the list of values
  a client loop sees.
\<close>

definition next_from :: "(map_entry \<Rightarrow> bool) \<Rightarrow> map_entry list \<Rightarrow> nat \<Rightarrow> nat" where
  "next_from live es i = i + length (takeWhile (\<lambda>e. \<not> live e) (drop i es))"

lemma next_from_le: "i \<le> length es \<Longrightarrow> next_from live es i \<le> length es"
  using length_takeWhile_le [of "\<lambda>e. \<not> live e" "drop i es"] by (simp add: next_from_def)

lemma next_from_end: "length es \<le> i \<Longrightarrow> next_from live es i = i"
  by (simp add: next_from_def)

lemma next_from_step:
  "i < length es \<Longrightarrow> next_from live es i = (if live (es ! i) then i else next_from live es (Suc i))"
  by (simp add: next_from_def Cons_nth_drop_Suc [symmetric])

lemma filter_drop_live:
  "i < length es \<Longrightarrow> ok (es ! i) \<Longrightarrow> filter ok (drop i es) = es ! i # filter ok (drop (Suc i) es)"
  by (simp add: Cons_nth_drop_Suc [symmetric])

lemma filter_next_from: "filter ok (drop (next_from ok es i) es) = filter ok (drop i es)"
proof (induction "length es - i" arbitrary: i)
  case 0
  then show ?case by (simp add: next_from_end)
next
  case (Suc n)
  then have i: "i < length es" by simp
  then show ?case
    using Suc.hyps(1) [of "Suc i"] Suc.hyps(2)
    by (cases "ok (es ! i)") (simp_all add: next_from_step Cons_nth_drop_Suc [symmetric, of i])
qed

text \<open>
  \<open>readable tb vp es s\<close>: reading the address of each value has no side effect and gives \<open>vp\<close>
  of the handle.
\<close>

definition readable ::
  "table_ops \<Rightarrow> (mem_handle \<Rightarrow> ptr) \<Rightarrow> map_entry list \<Rightarrow> cstate \<Rightarrow> bool" where
  "readable tb vp es s \<longleftrightarrow> (\<forall>e \<in> set es. mem_p tb (value_handle e) s = Inr (vp (value_handle e), s))
     \<and> vp null_handle = NULL"

abbreviation live :: "(mem_handle \<Rightarrow> ptr) \<Rightarrow> map_entry \<Rightarrow> bool" where
  "live vp e \<equiv> vp (value_handle e) \<noteq> NULL"

lemma next_value_pos_exec:
  assumes le: "load_entries p s = Inr (es, s)" and len: "length es = unat ts"
    and rd: "readable tb vp es s" and pos: "unat pos \<le> length es"
  shows "next_value_pos tb p ts pos s = Inr (of_nat (next_from (live vp) es (unat pos)), s)"
  using pos
proof (induction "length es - unat pos" arbitrary: pos rule: less_induct)
  case less
  show ?case
  proof (cases "pos < ts")
    case False
    then have *: "unat pos = length es" using less.prems len by (simp add: word_less_nat_alt)
    then have "of_nat (length es) = pos" by (simp flip: *)
    then show ?thesis using False * by (subst next_value_pos.simps) (simp add: next_from_end)
  next
    case True
    then have i: "unat pos < length es" and up: "unat (pos + 1) = Suc (unat pos)"
      using len by (simp_all add: word_less_nat_alt unat_plus_one)
    have p: "mem_p tb (value_handle (es ! unat pos)) s = Inr (vp (value_handle (es ! unat pos)), s)"
      using rd i by (simp add: readable_def)
    show ?thesis
      using True i p less.hyps [of "pos + 1"] up next_from_step [OF i, of "live vp"]
      by (subst next_value_pos.simps) (simp add: cbind_apply load_entry_exec [OF le])
  qed
qed

definition iter_at :: "mem_handle \<Rightarrow> map_entry list \<Rightarrow> nat \<Rightarrow> map_iter" where
  "iter_at mh es i = (if i < length es
     then \<lparr>it_mh = mh, it_pos = of_nat i, it_value = value_handle (es ! i)\<rparr> else null_iter)"

context transparent_handles
begin

lemma map_next_value_iter_exec:
  assumes rep: "map_rep A mh m es s" and rd: "readable tb vp es s" and i: "i < length es"
  shows "map_next_value_iter tb (iter_at mh es i) s =
    Inr (iter_at mh es (next_from (live vp) es (Suc i)), s)"
proof -
  have lm: "load_map (h_data mh) s = Inr (m, s)" and le: "load_entries (h_data (entries_mh m)) s = Inr (es, s)"
    and len: "length es = unat (table_size m)" and nn: "h_data mh \<noteq> NULL"
    using rep by (auto simp: map_rep_def owned_def)
  have lt: "unat (table_size m) < 2 ^ LENGTH(32)" by (rule unsigned_less)
  let ?j = "next_from (live vp) es (Suc i)"
  have j: "?j \<le> length es" using i by (intro next_from_le) simp
  have u: "unat (of_nat ?j :: uint) = ?j" "unat (of_nat i + 1 :: uint) = Suc i"
    using j i len lt by (simp_all add: unat_of_nat unat_word_ariths)
  then have "next_value_pos tb (h_data (entries_mh m)) (table_size m) (of_nat i + 1) s = Inr (of_nat ?j, s)"
    using next_value_pos_exec [OF le len rd, of "of_nat i + 1"] i by simp
  then show ?thesis
    using u j i len nn
    by (simp add: map_next_value_iter_def iter_at_def cbind_apply map_rep_p [OF rep] lm
        load_entry_exec [OF le] word_le_nat_alt)
qed

lemma map_first_value_iter_exec:
  assumes rep: "map_rep A mh m es s" and rd: "readable tb vp es s"
  shows "map_first_value_iter tb mh s = Inr (iter_at mh es (next_from (live vp) es 0), s)"
proof -
  have lm: "load_map (h_data mh) s = Inr (m, s)" and le: "load_entries (h_data (entries_mh m)) s = Inr (es, s)"
    and len: "length es = unat (table_size m)" and nn: "h_data mh \<noteq> NULL"
    and ne: "0 < length es"
    using rep by (auto simp: map_rep_def owned_def unat_gt_0 simp flip: length_greater_0_conv)
  have p: "mem_p tb (value_handle (es ! 0)) s = Inr (vp (value_handle (es ! 0)), s)"
    using rd ne by (simp add: readable_def)
  have it: "\<lparr>it_mh = mh, it_pos = 0, it_value = value_handle (es ! 0)\<rparr> = iter_at mh es 0"
    using ne by (simp add: iter_at_def)
  show ?thesis
    using map_next_value_iter_exec [OF rep rd ne] ne nn p next_from_step [OF ne, of "live vp"]
    by (simp add: map_first_value_iter_def cbind_apply map_rep_p [OF rep] lm load_entry_exec [OF le] it Let_def)
qed

end

lemma map_next_value_iter_cong:
  "it_mh it = it_mh it' \<Longrightarrow> it_pos it = it_pos it' \<Longrightarrow> map_next_value_iter tb it = map_next_value_iter tb it'"
  by (simp only: map_next_value_iter_def)

lemma next_from_first:
  "j \<le> i \<Longrightarrow> i < length es \<Longrightarrow> ok (es ! i) \<Longrightarrow> (\<And>l. l < i \<Longrightarrow> \<not> ok (es ! l)) \<Longrightarrow> next_from ok es j = i"
proof (induction "i - j" arbitrary: j)
  case 0
  then show ?case by (simp add: next_from_step)
next
  case (Suc n)
  then show ?case by (simp add: next_from_step)
qed

lemma next_from_none: "i \<le> length es \<Longrightarrow> (\<And>e. e \<in> set es \<Longrightarrow> \<not> ok e) \<Longrightarrow> next_from ok es i = length es"
proof -
  assume i: "i \<le> length es" and no: "\<And>e. e \<in> set es \<Longrightarrow> \<not> ok e"
  have "takeWhile (\<lambda>e. \<not> ok e) (drop i es) = drop i es"
    unfolding takeWhile_eq_all_conv using no by (auto dest: in_set_dropD)
  then have "length (takeWhile (\<lambda>e. \<not> ok e) (drop i es)) = length es - i" by (simp only: length_drop)
  then show ?thesis using i by (simp add: next_from_def)
qed

section \<open>The values a client loop sees\<close>

fun collect_loop :: "table_ops \<Rightarrow> nat \<Rightarrow> map_iter \<Rightarrow> mem_handle list prog" where
  "collect_loop tb 0 it = raise Out_of_fuel"
| "collect_loop tb (Suc fuel) it =
     cbind (map_iter_done tb it) (\<lambda>finished.
     if finished then ret []
     else cbind (map_next_value_iter tb it) (\<lambda>it'.
       cbind (collect_loop tb fuel it') (\<lambda>vs. ret (map_iter_value it # vs))))"

definition collect_values :: "table_ops \<Rightarrow> mem_handle \<Rightarrow> mem_handle list prog" where
  "collect_values tb mh =
     cbind (iteration_bound tb mh) (\<lambda>fuel.
     cbind (map_first_value_iter tb mh) (\<lambda>it. collect_loop tb fuel it))"

lemma next_from_live: "next_from ok es i < length es \<Longrightarrow> ok (es ! next_from ok es i)"
proof (induction "length es - i" arbitrary: i)
  case 0
  then show ?case by (simp add: next_from_def)
next
  case (Suc n)
  then have "i < length es" by simp
  then show ?case using Suc by (auto simp: next_from_step split: if_splits)
qed

context transparent_handles
begin

lemma collect_loop_exec:
  assumes rep: "map_rep A mh m es s" and rd: "readable tb vp es s"
  shows "length es - i < fuel \<Longrightarrow> i < length es \<Longrightarrow> live vp (es ! i) \<Longrightarrow>
    collect_loop tb fuel (iter_at mh es i) s =
      Inr (map value_handle (filter (live vp) (drop i es)), s)"
proof (induction fuel arbitrary: i)
  case (Suc fuel)
  let ?j = "next_from (live vp) es (Suc i)"
  have p: "mem_p tb (value_handle (es ! i)) s = Inr (vp (value_handle (es ! i)), s)"
    using rd Suc.prems by (simp add: readable_def)
  have "Suc i \<le> ?j" by (simp add: next_from_def)
  moreover have "collect_loop tb fuel (iter_at mh es ?j) s
      = Inr (map value_handle (filter (live vp) (drop (Suc i) es)), s)"
  proof (cases "?j < length es")
    case True
    then show ?thesis
      using Suc.IH [of ?j] Suc.prems next_from_live [of "live vp" es "Suc i"] \<open>Suc i \<le> ?j\<close>
      by (simp add: filter_next_from)
  next
    case False
    have "0 < fuel" using Suc.prems by simp
    then obtain f where "fuel = Suc f" by (cases fuel) auto
    then show ?thesis
      using False filter_next_from [of "live vp" es "Suc i"]
      by (simp add: iter_at_def map_iter_done_def null_iter_def cbind_apply)
  qed
  moreover have "filter (live vp) (drop i es) = es ! i # filter (live vp) (drop (Suc i) es)"
    using Suc.prems by (intro filter_drop_live)
  ultimately show ?case
    using Suc.prems p map_next_value_iter_exec [OF rep rd Suc.prems(2)]
    by (simp add: cbind_apply map_iter_done_def map_iter_value_def iter_at_def [of _ _ i])
qed simp

lemma collect_values_exec:
  assumes rep: "map_rep A mh m es s" and rd: "readable tb vp es s"
  shows "collect_values tb mh s = Inr (map value_handle (filter (live vp) es), s)"
proof -
  have lm: "load_map (h_data mh) s = Inr (m, s)" and nn: "h_data mh \<noteq> NULL"
    and len: "length es = unat (table_size m)" using rep by (auto simp: map_rep_def owned_def)
  then have fuel: "iteration_bound tb mh s = Inr (Suc (length es), s)"
    by (simp add: iteration_bound_def cbind_apply map_rep_p [OF rep])
  let ?j = "next_from (live vp) es 0"
  have "collect_loop tb (Suc (length es)) (iter_at mh es ?j) s
      = Inr (map value_handle (filter (live vp) es), s)"
  proof (cases "?j < length es")
    case True
    then show ?thesis
      using collect_loop_exec [OF rep rd, of ?j "Suc (length es)"] next_from_live [OF True]
        filter_next_from [of "live vp" es 0] by simp
  next
    case False
    then show ?thesis
      using filter_next_from [of "live vp" es 0]
      by (simp add: iter_at_def map_iter_done_def null_iter_def cbind_apply)
  qed
  then show ?thesis
    by (simp add: collect_values_def cbind_apply fuel map_first_value_iter_exec [OF rep rd])
qed

end

section \<open>Completeness\<close>

text \<open>Every occupied slot holds a valid value, every other one the invalid handle.\<close>

definition filled :: "map_entry list \<Rightarrow> bool" where
  "filled es \<longleftrightarrow> (\<forall>e \<in> set es. if key_hash e = 0 then value_handle e = null_handle
     else h_data (value_handle e) \<noteq> NULL \<and>
       (h_alloc (value_handle e) = MEM_ALLOCATOR_PLAIN \<or>
        h_alloc (value_handle e) = MEM_ALLOCATOR_NOT_ALLOCATED))"

lemma filled_readable: "filled es \<Longrightarrow> readable tb h_data es s"
  unfolding readable_def filled_def
  by (auto split: if_splits dest!: bspec simp: mem_p_transparent)

lemma filled_live: "filled es \<Longrightarrow> filter (live h_data) es = filter (\<lambda>e. key_hash e \<noteq> 0) es"
  by (rule filter_cong) (auto simp: filled_def split: if_splits dest!: bspec)

lemma chained_dom: "chained es \<Longrightarrow> dom (lookup es) = (\<lambda>i. key_hash (es ! i)) ` occupied es"
  by (auto simp: lookup_iff occupied_def dom_def image_def)

lemma chained_inj: "chained es \<Longrightarrow> inj_on (\<lambda>i. key_hash (es ! i)) (occupied es)"
proof (rule inj_onI)
  fix i j assume c: "chained es" and i: "i \<in> occupied es" and j: "j \<in> occupied es"
    and same: "key_hash (es ! i) = key_hash (es ! j)"
  have "probe es (key_hash (es ! i)) = Some i" "probe es (key_hash (es ! j)) = Some j"
    using i j c by (simp_all add: occupied_def chained_def)
  then have "Some i = Some j" unfolding same by (rule trans [OF sym])
  then show "i = j" by simp
qed

lemma chained_card_dom: "chained es \<Longrightarrow> card (dom (lookup es)) = card (occupied es)"
  by (simp add: chained_dom card_image chained_inj)

lemma chained_ran: "chained es \<Longrightarrow> ran (lookup es) = value_handle ` set (filter (\<lambda>e. key_hash e \<noteq> 0) es)"
  by (auto simp: ran_def lookup_iff in_set_conv_nth image_def)

lemma mset_slots: "filter_mset P (mset xs) = image_mset ((!) xs) (mset_set {i. i < length xs \<and> P (xs ! i)})"
proof -
  have "filter_mset P (mset xs) = filter_mset P (image_mset ((!) xs) (mset_set {0..<length xs}))"
    using arg_cong [OF map_nth, of mset xs] by simp
  also have "\<dots> = image_mset ((!) xs) (filter_mset (\<lambda>i. P (xs ! i)) (mset_set {0..<length xs}))"
    by (simp add: filter_mset_image_mset)
  also have "{i \<in> {0..<length xs}. P (xs ! i)} = {i. i < length xs \<and> P (xs ! i)}" by auto
  then have "filter_mset (\<lambda>i. P (xs ! i)) (mset_set {0..<length xs}) = mset_set {i. i < length xs \<and> P (xs ! i)}"
    by (simp add: filter_mset_mset_set)
  finally show ?thesis .
qed

text \<open>The values in the occupied slots are those of the stored hashes, one for each hash.\<close>

lemma chained_values:
  assumes c: "chained es"
  shows "mset (map value_handle (filter (\<lambda>e. key_hash e \<noteq> 0) es)) =
    image_mset (\<lambda>k. the (lookup es k)) (mset_set (dom (lookup es)))"
proof -
  have "lookup es (key_hash (es ! i)) = Some (value_handle (es ! i))" if "i \<in> occupied es" for i
    using that c by (auto simp: lookup_iff occupied_def)
  then have "image_mset (\<lambda>i. value_handle (es ! i)) (mset_set (occupied es)) =
      image_mset (\<lambda>i. the (lookup es (key_hash (es ! i)))) (mset_set (occupied es))"
    by (intro image_mset_cong) simp
  also have "\<dots> = image_mset (\<lambda>k. the (lookup es k)) (mset_set (dom (lookup es)))"
    by (simp add: chained_dom [OF c] image_mset_mset_set [OF chained_inj [OF c], symmetric] multiset.map_comp comp_def)
  finally show ?thesis
    by (simp add: mset_slots occupied_def multiset.map_comp comp_def)
qed

text \<open>
  C18. A client loop over map_first_value_iter and map_next_value_iter terminates, changes nothing,
  and gives for every stored hash its value, once for each hash (so a value that is stored under two
  hashes is seen twice), and nothing else. The stored values are valid handles of plain or static
  memory, and the free slots hold the invalid handle (nothing was stored under the hash 0).
\<close>

theorem map_iteration_complete:
  assumes "map_ok MEM_ALLOCATOR_PLAIN mh m es s" and "filled es"
  shows "\<exists>vs. collect_values tb mh s = Inr (vs, s) \<and>
    mset vs = image_mset (\<lambda>k. the (lookup es k)) (mset_set (dom (lookup es)))"
proof -
  have "collect_values tb mh s = Inr (map value_handle (filter (\<lambda>e. key_hash e \<noteq> 0) es), s)"
    using plain.collect_values_exec [OF map_okD(1) [OF assms(1)] filled_readable [OF assms(2)]]
    by (simp add: filled_live [OF assms(2)])
  then show ?thesis using chained_values [OF map_okD(2) [OF assms(1)]] by simp
qed

theorem map_iteration_complete_witness:
  "\<exists>vs. collect_values (memtbl_ops 0) sample_mh (sample_state (sample_entries 3) 3 (\<lambda>_. 0))
     = Inr (vs, sample_state (sample_entries 3) 3 (\<lambda>_. 0)) \<and> sample_value \<in> set vs"
proof -
  have fill: "filled (sample_entries 3)"
    by (auto simp: filled_def sample_entries_def zero_entry_def sample_value_def mem_handle_from_ptr_def)
  have "map_ok MEM_ALLOCATOR_PLAIN sample_mh (sample_map 3) (sample_entries 3) (sample_state (sample_entries 3) 3 (\<lambda>_. 0))"
    by (rule sample_ok) simp
  from map_iteration_complete [OF this fill, of "memtbl_ops 0"]
  obtain vs where run: "collect_values (memtbl_ops 0) sample_mh (sample_state (sample_entries 3) 3 (\<lambda>_. 0))
      = Inr (vs, sample_state (sample_entries 3) 3 (\<lambda>_. 0))"
    and vs: "mset vs = image_mset (\<lambda>k. the (lookup (sample_entries 3) k)) (mset_set (dom (lookup (sample_entries 3))))"
    by blast
  have one: "lookup (sample_entries 3) 1 = Some sample_value" by (simp add: sample_lookup)
  have "set vs = (\<lambda>k. the (lookup (sample_entries 3) k)) ` dom (lookup (sample_entries 3))"
    using arg_cong [OF vs, of set_mset] finite_lookup [of "sample_entries 3"] by simp
  moreover have "sample_value \<in> (\<lambda>k. the (lookup (sample_entries 3) k)) ` dom (lookup (sample_entries 3))"
    using one by (intro image_eqI [of _ _ 1]) auto
  ultimately show ?thesis using run by blast
qed

end
