(* ===== verification/Ds_Memtbl_Runs.thy ===== *)
theory Ds_Memtbl_Runs
  imports Ds_Memtbl_Proofs Ds_Iter
begin

text \<open>
  A memory table used through the handle layer of mem.c: \<open>table_holds\<close> is its invariant, and
  creation, allocation and release keep it.
\<close>

section \<open>Through the handle layer\<close>

lemma sigint_guard_runs:
  assumes "runs body (s\<lparr>sigint := SIG_IGN\<rparr>) P"
    and "\<And>x t. P x t \<Longrightarrow> Q x (t\<lparr>sigint := sigint s\<rparr>)"
  shows "runs (sigint_guard body) s Q"
  using assms by (auto simp: runs_def sigint_guard_def signal_int_def cbind_apply split: sum.splits)

lemma mem_ops_memtbl:
  assumes "h_alloc h = mem_allocator_memtbl mth" and "h_data h \<noteq> NULL"
  shows "mem_free (memtbl_ops (Suc d)) h = sigint_guard (memtbl_free (memtbl_ops d) h)"
    and "mem_p (memtbl_ops (Suc d)) h = memtbl_p (memtbl_ops d) h"
    and "mem_alloc (memtbl_ops (Suc d)) (mem_allocator_memtbl mth) n =
      sigint_guard (memtbl_alloc (memtbl_ops d) (mem_allocator_memtbl mth) n)"
    and "mem_realloc (memtbl_ops (Suc d)) h n = sigint_guard (memtbl_realloc (memtbl_ops d) h n)"
  using assms
  by (simp_all add: mem_free_def mem_p_def mem_alloc_def mem_realloc_def mem_is_valid_def mem_allocator_memtbl_def
      MEMTBL_ALLOCATOR_SPEC_def memtbl_ops.simps)

text \<open>\<open>table_holds mth mh eh f n s\<close>: the memory table \<open>mth\<close> knows the handles \<open>f\<close>, with room for \<open>n\<close> more.\<close>

definition table_holds ::
  "mem_handle \<Rightarrow> mem_handle \<Rightarrow> mem_handle \<Rightarrow> (uint \<rightharpoonup> mem_handle) \<Rightarrow> nat \<Rightarrow> cstate \<Rightarrow> bool" where
  "table_holds mth mh eh f n s \<longleftrightarrow> table_at mth mh s \<and> map_store mh eh f n s \<and>
     pbase (h_data mth) \<notin> {pbase (h_data mh), pbase (h_data eh)}"

lemma table_holds_heap: "table_holds mth mh eh f n s \<Longrightarrow> heap t = heap s \<Longrightarrow> table_holds mth mh eh f n t"
  unfolding table_holds_def by (auto intro: table_at_frame table_map.frame_law)

lemma table_holds_sigint [simp]:
  "table_holds mth mh eh f n (s\<lparr>sigint := x\<rparr>) = table_holds mth mh eh f n s"
  using table_holds_heap [of mth mh eh f n s "s\<lparr>sigint := x\<rparr>"]
    table_holds_heap [of mth mh eh f n "s\<lparr>sigint := x\<rparr>" s] by auto

lemma fresh_answer_sigint [simp]: "fresh_answer (s\<lparr>sigint := x\<rparr>) = fresh_answer s"
  by (simp add: fresh_answer_def)

lemma env_same_guard: "env_same (s\<lparr>sigint := x\<rparr>) t \<Longrightarrow> env_same s (t\<lparr>sigint := sigint s\<rparr>)"
  by (simp add: env_same_def)

lemma table_holds_p:
  assumes "table_holds mth mh eh f n s" and "h_alloc h = mem_allocator_memtbl mth" and "h_data h \<noteq> NULL"
  shows "mem_p (memtbl_ops (Suc d)) h s =
    Inr (case f (hash_ptr (h_data h)) of None \<Rightarrow> NULL | Some v \<Rightarrow> h_data v, s)"
  using assms by (simp add: mem_ops_memtbl table_map.memtbl_p_exec [of mth mh s eh f n] table_holds_def)

lemma table_alloc_runs:
  assumes th: "table_holds mth mh eh f (Suc n) s" and key: "hash_ptr (Ptr (fresh_answer s) 0) \<noteq> 0"
  shows "runs (mem_alloc (memtbl_ops (Suc d)) (mem_allocator_memtbl mth) sz) s (\<lambda>r t. env_same s t \<and>
    (if h_data r = NULL then r = null_handle \<and> heap t = heap s
     else r = \<lparr>h_data = Ptr (fresh_answer s) 0, h_size = sz, h_alloc = mem_allocator_memtbl mth\<rparr> \<and>
       heap s (fresh_answer s) = None \<and>
       heap t (fresh_answer s) = Some \<lparr>b_size = sz, b_heap = True, b_content = Fresh\<rparr> \<and>
       table_holds mth mh eh (f(hash_ptr (h_data r) \<mapsto> r)) n t \<and>
       (\<forall>a. a \<notin> {fresh_answer s, pbase (h_data mh), pbase (h_data eh)} \<longrightarrow> heap t a = heap s a)))"
proof -
  let ?s = "s\<lparr>sigint := SIG_IGN\<rparr>"
  have "table_holds mth mh eh f (Suc n) ?s" using th by simp
  then have tab: "table_at mth mh ?s" and st: "map_store mh eh f (Suc n) ?s"
    and sep: "pbase (h_data mth) \<notin> {pbase (h_data mh), pbase (h_data eh)}"
    unfolding table_holds_def by blast+
  have "fresh_answer ?s \<noteq> 0 \<longrightarrow> hash_ptr (Ptr (fresh_answer ?s) 0) \<noteq> 0" using key by simp
  from table_map.memtbl_alloc_runs [OF tab st sep this]
  have "runs (sigint_guard (memtbl_alloc (memtbl_ops d) (mem_allocator_memtbl mth) sz)) s (\<lambda>r t. env_same s t \<and>
    (if h_data r = NULL then r = null_handle \<and> heap t = heap s
     else r = \<lparr>h_data = Ptr (fresh_answer s) 0, h_size = sz, h_alloc = mem_allocator_memtbl mth\<rparr> \<and>
       heap s (fresh_answer s) = None \<and>
       heap t (fresh_answer s) = Some \<lparr>b_size = sz, b_heap = True, b_content = Fresh\<rparr> \<and>
       table_holds mth mh eh (f(hash_ptr (h_data r) \<mapsto> r)) n t \<and>
       (\<forall>a. a \<notin> {fresh_answer s, pbase (h_data mh), pbase (h_data eh)} \<longrightarrow> heap t a = heap s a)))"
  proof (rule sigint_guard_runs, goal_cases)
    case (1 r t)
    then have e: "env_same s (t\<lparr>sigint := sigint s\<rparr>)" by (blast intro: env_same_guard)
    show ?case
    proof (cases "h_data r = NULL")
      case True
      then show ?thesis using 1 e by simp
    next
      case False
      have "table_at mth mh t \<and> map_store mh eh (f(hash_ptr (h_data r) \<mapsto> r)) n t"
        using 1 unfolding if_not_P [OF False] by blast
      then have "table_holds mth mh eh (f(hash_ptr (h_data r) \<mapsto> r)) n t"
        using sep unfolding table_holds_def by blast
      then show ?thesis using 1 e False by simp
    qed
  qed
  then show ?thesis
    by (simp add: mem_alloc_def mem_allocator_memtbl_def MEMTBL_ALLOCATOR_SPEC_def memtbl_ops.simps)
qed

lemma table_free_runs:
  assumes th: "table_holds mth mh eh f n s" and h: "h_alloc h = mem_allocator_memtbl mth"
    and own: "owned s h b" and reg: "f (hash_ptr (h_data h)) = Some v" "h_data v = h_data h"
    and del: "map_deletable mh eh (hash_ptr (h_data h)) s"
    and out: "pbase (h_data h) \<notin> {pbase (h_data mh), pbase (h_data eh)}" "pbase (h_data h) \<noteq> pbase (h_data mth)"
  shows "runs (mem_free (memtbl_ops (Suc d)) h) s (\<lambda>r t. r = null_handle \<and> env_same s t \<and>
    table_holds mth mh eh (f(hash_ptr (h_data h) := None)) n t \<and> heap t (pbase (h_data h)) = None \<and>
    (\<forall>a. a \<notin> {pbase (h_data h), pbase (h_data mh), pbase (h_data eh)} \<longrightarrow> heap t a = heap s a))"
proof -
  let ?s = "s\<lparr>sigint := SIG_IGN\<rparr>"
  have "table_holds mth mh eh f n ?s" using th by simp
  then have tab: "table_at mth mh ?s" and st: "map_store mh eh f n ?s"
    and sep: "pbase (h_data mth) \<notin> {pbase (h_data mh), pbase (h_data eh)}"
    unfolding table_holds_def by blast+
  have own': "owned ?s h b" using own by (simp add: owned_def)
  have st0: "map_store mh eh f n s" using th by (simp add: table_holds_def)
  have del': "map_deletable mh eh (hash_ptr (h_data h)) ?s"
    by (rule table_map.deletable_law [OF del st0]) simp
  have nn: "h_data h \<noteq> NULL" using own by (rule owned_not_null)
  from table_map.memtbl_free_runs [OF tab st sep h own' reg del' out]
  show ?thesis
    unfolding mem_ops_memtbl(1) [OF h nn]
    by (rule sigint_guard_runs) (use sep in \<open>auto simp: table_holds_def
        intro: env_same_guard table_at_frame table_map.frame_law\<close>)
qed

lemma table_free_unknown_runs:
  assumes th: "table_holds mth mh eh f n s" and h: "h_alloc h = mem_allocator_memtbl mth"
    and nn: "h_data h \<noteq> NULL" and un: "f (hash_ptr (h_data h)) = None" "f (hash_ptr NULL) = None"
  shows "runs (mem_free (memtbl_ops (Suc d)) h) s (\<lambda>r t. r = null_handle \<and> env_same s t \<and> heap t = heap s)"
proof -
  have "table_holds mth mh eh f n (s\<lparr>sigint := SIG_IGN\<rparr>)" using th by simp
  then have "runs (memtbl_free (memtbl_ops d) h) (s\<lparr>sigint := SIG_IGN\<rparr>)
      (\<lambda>r t. r = null_handle \<and> env_same (s\<lparr>sigint := SIG_IGN\<rparr>) t \<and> heap t = heap (s\<lparr>sigint := SIG_IGN\<rparr>))"
    unfolding table_holds_def by (intro table_map.memtbl_free_unknown [OF _ _ h nn un]) auto
  then show ?thesis
    unfolding mem_ops_memtbl(1) [OF h nn] by (rule sigint_guard_runs) (auto intro: env_same_guard)
qed

section \<open>Creation\<close>

text \<open>\<open>new_table mth mh eh s\<close>: a table that was just created.\<close>

definition new_table :: "mem_handle \<Rightarrow> mem_handle \<Rightarrow> mem_handle \<Rightarrow> cstate \<Rightarrow> bool" where
  "new_table mth mh eh s \<longleftrightarrow> table_at mth mh s \<and> h_alloc mth = MEM_ALLOCATOR_PLAIN \<and> (\<exists>b. owned s mth b) \<and>
     map_ok MEM_ALLOCATOR_PLAIN mh (empty_map eh) (replicate 32 zero_entry) s \<and>
     pbase (h_data mth) \<notin> {pbase (h_data mh), pbase (h_data eh)}"

lemma new_table_holds: "new_table mth mh eh s \<Longrightarrow> table_holds mth mh eh Map.empty 16 s"
  using lookup_empty [of 32] unfolding new_table_def table_holds_def
  by (auto intro!: map_storeI simp: empty_map_def)

lemma created_table:
  assumes "created MEM_ALLOCATOR_PLAIN s mh t"
  obtains eh where "map_ok MEM_ALLOCATOR_PLAIN mh (empty_map eh) (replicate 32 zero_entry) t"
    "foot mh (empty_map eh) = {pbase (h_data mh), pbase (h_data eh)}"
    "heap s (pbase (h_data mh)) = None" "heap s (pbase (h_data eh)) = None"
    "\<forall>a. a \<notin> {pbase (h_data mh), pbase (h_data eh)} \<longrightarrow> heap t a = heap s a"
proof -
  obtain eh where "map_ok MEM_ALLOCATOR_PLAIN mh (empty_map eh) (replicate 32 zero_entry) t"
      "heap s (pbase (h_data mh)) = None" "heap s (pbase (h_data eh)) = None"
      "\<forall>a. a \<notin> foot mh (empty_map eh) \<longrightarrow> heap t a = heap s a"
    using assms by (auto simp: created_def)
  then show ?thesis using that by (simp add: foot_def empty_map_def)
qed

lemma memtbl_create_new:
  "runs (memtbl_create tb MEM_ALLOCATOR_PLAIN) s (\<lambda>mth t. env_same s t \<and>
     (if h_data mth = NULL then mth = null_handle \<and> heap t = heap s
      else \<exists>mh eh. new_table mth mh eh t \<and>
        heap s (pbase (h_data mth)) = None \<and> heap s (pbase (h_data mh)) = None \<and>
        heap s (pbase (h_data eh)) = None \<and>
        (\<forall>a. a \<notin> {pbase (h_data mth), pbase (h_data mh), pbase (h_data eh)} \<longrightarrow> heap t a = heap s a)))"
proof -
  obtain mth t1 where al: "mem_alloc tb MEM_ALLOCATOR_PLAIN sizeof_memtbl s = Inr (mth, t1)"
      and post: "alloc_post Fresh MEM_ALLOCATOR_PLAIN sizeof_memtbl s mth t1"
    using plain.alloc_law by (rule runsE)
  show ?thesis
  proof (cases "h_data mth = NULL")
    case True
    then show ?thesis using al post
      by (auto simp: memtbl_create_def cbind_apply mem_is_valid_def runs_def alloc_post_def)
  next
    case False
    then obtain a where a: "a \<noteq> 0" "heap s a = None"
        and mth: "mth = \<lparr>h_data = Ptr a 0, h_size = sizeof_memtbl, h_alloc = MEM_ALLOCATOR_PLAIN\<rparr>"
        and h1: "heap t1 = (heap s)(a \<mapsto> \<lparr>b_size = sizeof_memtbl, b_heap = True, b_content = Fresh\<rparr>)"
        and e1: "env_same s t1"
      using post by (auto simp: alloc_post_def)
    obtain mh t2 where mc: "map_create tb MEM_ALLOCATOR_PLAIN t1 = Inr (mh, t2)" and e2: "env_same t1 t2"
        and made: "if h_data mh = NULL then mh = null_handle \<and> heap t2 = heap t1
          else created MEM_ALLOCATOR_PLAIN t1 mh t2"
      using plain.map_create_runs [of tb t1] by (auto elim!: runsE)
    let ?fresh = "\<lparr>b_size = sizeof_memtbl, b_heap = True, b_content = Fresh\<rparr>"
    have keep: "heap t2 a = Some ?fresh"
    proof (cases "h_data mh = NULL")
      case True
      then show ?thesis using made h1 by simp
    next
      case False
      then have "created MEM_ALLOCATOR_PLAIN t1 mh t2" using made by simp
      then show ?thesis by (rule created_table) (metis empty_iff fun_upd_same h1 insertE option.distinct(1))
    qed
    let ?t = "set_content (Ptr a 0) (Memtbl_obj \<lparr>mem_map_handle = mh\<rparr>) t2"
    have up: "update_memtbl (Ptr a 0) (\<lambda>t. t\<lparr>mem_map_handle := mh\<rparr>) t2 = Inr ((), ?t)"
      and ld: "load_memtbl (Ptr a 0) ?t = Inr (\<lparr>mem_map_handle = mh\<rparr>, ?t)"
      using update_struct_fresh [of "Ptr a 0" t2 ?fresh sizeof_memtbl the_memtbl Memtbl_obj
          "\<lambda>t. t\<lparr>mem_map_handle := mh\<rparr>" zero_memtbl] a keep
      by (simp_all add: update_memtbl_def load_memtbl_def block_at_Inr_iff zero_memtbl_def)
    have p: "mem_p tb mth = ret (Ptr a 0)" by (simp add: mem_p_transparent mth)
    have run: "memtbl_create tb MEM_ALLOCATOR_PLAIN s =
        (if h_data mh = NULL then cbind (mem_free tb mth) (\<lambda>_. ret null_handle) ?t else Inr (mth, ?t))"
      using a by (simp add: memtbl_create_def cbind_apply al mth mem_is_valid_def p [unfolded mth] mc up ld)
    have ht: "heap ?t = (heap t2)(a \<mapsto> ?fresh\<lparr>b_content := Memtbl_obj \<lparr>mem_map_handle = mh\<rparr>\<rparr>)"
      using keep by (auto simp: heap_set_content fun_eq_iff)
    have e: "env_same s ?t" using env_same_trans [OF e1 e2] by simp
    show ?thesis
    proof (cases "h_data mh = NULL")
      case True
      have "owned ?t mth (?fresh\<lparr>b_content := Memtbl_obj \<lparr>mem_map_handle = mh\<rparr>\<rparr>)"
        using a ht by (simp add: owned_def mth)
      from plain.free_law [OF _ this, of tb]
      have "runs (mem_free tb mth) ?t (\<lambda>r t. r = null_handle \<and> env_same ?t t \<and> heap t = (heap ?t)(a := None))"
        by (simp add: mth)
      moreover have "(heap ?t)(a := None) = heap s"
        using True made a h1 ht by (auto simp: fun_eq_iff)
      ultimately show ?thesis
        using True e by (auto simp: run runs_def cbind_apply split: sum.splits dest: env_same_trans)
    next
      case False
      then have "created MEM_ALLOCATOR_PLAIN t1 mh t2" using made by simp
      then obtain eh where st: "map_ok MEM_ALLOCATOR_PLAIN mh (empty_map eh) (replicate 32 zero_entry) t2"
          and foot: "foot mh (empty_map eh) = {pbase (h_data mh), pbase (h_data eh)}"
          and fresh: "heap t1 (pbase (h_data mh)) = None" "heap t1 (pbase (h_data eh)) = None"
          and rest: "\<forall>a. a \<notin> {pbase (h_data mh), pbase (h_data eh)} \<longrightarrow> heap t2 a = heap t1 a"
        by (rule created_table)
      have ne: "a \<noteq> pbase (h_data mh)" "a \<noteq> pbase (h_data eh)" using fresh h1 by auto
      have "map_ok MEM_ALLOCATOR_PLAIN mh (empty_map eh) (replicate 32 zero_entry) ?t"
        by (rule map_ok_foot [OF st]) (use ne ht foot in auto)
      then have "new_table mth mh eh ?t"
        using ld ne ht a by (auto simp: new_table_def table_at_def mth owned_def)
      moreover have "heap s (pbase (h_data mh)) = None" "heap s (pbase (h_data eh)) = None"
        using fresh ne h1 by (simp_all split: if_splits)
      moreover have "\<forall>b. b \<notin> {a, pbase (h_data mh), pbase (h_data eh)} \<longrightarrow> heap ?t b = heap s b"
        using rest h1 ht by simp
      ultimately show ?thesis
        using False a e unfolding runs_def run by (auto simp: mth)
    qed
  qed
qed

end
