(* ===== verification/Ds_Memtbl_Destroy.thy ===== *)
theory Ds_Memtbl_Destroy
  imports Ds_Memtbl_Runs
begin

text \<open>
  memtbl_destroy frees entries while it iterates over them: on a table whose entries are all in
  their home slots (\<open>registered\<close>) it frees them all, on one with a displaced entry it does not.
\<close>

section \<open>Destruction\<close>

text \<open>
  \<open>registered mth mh m es s\<close>: every entry of the table's map is a live allocation of the table,
  stored in its home slot under the hash of its address.
\<close>

definition slot_ok :: "mem_handle \<Rightarrow> mem_handle \<Rightarrow> mem_handle \<Rightarrow> cstate \<Rightarrow> nat \<Rightarrow> map_entry \<Rightarrow> bool" where
  "slot_ok mth mh eh s i e \<longleftrightarrow> h_alloc (value_handle e) = mem_allocator_memtbl mth \<and>
     key_hash e = hash_ptr (h_data (value_handle e)) \<and> key_hash e \<noteq> 0 \<and> unat (key_hash e) mod 32 = i \<and>
     (\<exists>b. owned s (value_handle e) b) \<and>
     pbase (h_data (value_handle e)) \<notin> {pbase (h_data mth), pbase (h_data mh), pbase (h_data eh)}"

definition registered ::
  "mem_handle \<Rightarrow> mem_handle \<Rightarrow> mem_handle \<Rightarrow> cmap \<Rightarrow> map_entry list \<Rightarrow> cstate \<Rightarrow> bool" where
  "registered mth mh eh m es s \<longleftrightarrow> table_at mth mh s \<and> map_ok MEM_ALLOCATOR_PLAIN mh m es s \<and>
     entries_mh m = eh \<and> table_size m = 32 \<and> unat (entry_count m) \<le> 16 \<and>
     pbase (h_data mth) \<notin> {pbase (h_data mh), pbase (h_data eh)} \<and>
     (\<forall>i < 32. es ! i = zero_entry \<or> slot_ok mth mh eh s i (es ! i))"

lemma registeredD:
  assumes "registered mth mh eh m es s"
  shows "table_at mth mh s" "map_ok MEM_ALLOCATOR_PLAIN mh m es s" "entries_mh m = eh" "table_size m = 32"
    "unat (entry_count m) \<le> 16" "pbase (h_data mth) \<notin> {pbase (h_data mh), pbase (h_data eh)}"
    "length es = 32" "table_holds mth mh eh (lookup es) 0 s"
proof -
  show *: "table_at mth mh s" "map_ok MEM_ALLOCATOR_PLAIN mh m es s" "entries_mh m = eh" "table_size m = 32"
    "unat (entry_count m) \<le> 16" "pbase (h_data mth) \<notin> {pbase (h_data mh), pbase (h_data eh)}"
    using assms unfolding registered_def by blast+
  show "length es = 32" using map_okD(1) [OF *(2)] *(4) by (simp add: map_rep_def)
  have "map_store mh eh (lookup es) 0 s" using * by (intro map_storeI) simp_all
  then show "table_holds mth mh eh (lookup es) 0 s" using * by (simp add: table_holds_def)
qed

lemma registered_slot:
  "registered mth mh eh m es s \<Longrightarrow> i < 32 \<Longrightarrow> es ! i \<noteq> zero_entry \<Longrightarrow> slot_ok mth mh eh s i (es ! i)"
  unfolding registered_def by blast

lemma slot_okD:
  assumes "slot_ok mth mh eh s i e"
  shows "h_alloc (value_handle e) = mem_allocator_memtbl mth" "key_hash e = hash_ptr (h_data (value_handle e))"
    "key_hash e \<noteq> 0" "unat (key_hash e) mod 32 = i" "\<exists>b. owned s (value_handle e) b"
    "pbase (h_data (value_handle e)) \<notin> {pbase (h_data mth), pbase (h_data mh), pbase (h_data eh)}"
    "h_data (value_handle e) \<noteq> NULL"
  using assms unfolding slot_ok_def by (blast dest: owned_not_null)+

lemma registered_lookup:
  assumes "registered mth mh eh m es s" and "i < 32" and "es ! i \<noteq> zero_entry"
  shows "lookup es (key_hash (es ! i)) = Some (value_handle (es ! i))"
    and "probe es (key_hash (es ! i)) = Some i"
  using slot_okD(3) [OF registered_slot [OF assms]] assms(2) registeredD(7) [OF assms(1)]
    map_okD(2) [OF registeredD(2) [OF assms(1)]]
  by (auto simp: lookup_iff chained_def)

lemma registered_p:
  assumes r: "registered mth mh eh m es s" and e: "e \<in> set es"
  shows "mem_p (memtbl_ops (Suc d)) (value_handle e) s = Inr (h_data (value_handle e), s)"
proof -
  obtain i where i: "i < 32" "e = es ! i" using e registeredD(7) [OF r] by (auto simp: in_set_conv_nth)
  show ?thesis
  proof (cases "e = zero_entry")
    case True
    then show ?thesis by (simp add: zero_entry_def)
  next
    case False
    note D = slot_okD [OF registered_slot [OF r i(1), folded i(2), OF False]]
    show ?thesis
      using table_holds_p [OF registeredD(8) [OF r] D(1,7), of d] registered_lookup(1) [OF r i(1)] i(2) False D(2)
      by simp
  qed
qed

lemma registered_readable:
  "registered mth mh eh m es s \<Longrightarrow> readable (memtbl_ops (Suc d)) h_data es s"
  by (simp add: readable_def registered_p)

lemma registered_live:
  assumes "registered mth mh eh m es s" and "i < 32"
  shows "live h_data (es ! i) \<longleftrightarrow> es ! i \<noteq> zero_entry"
  using slot_okD(7) [OF registered_slot [OF assms]] by (auto simp: zero_entry_def)

lemma slot_apart:
  assumes r: "registered mth mh eh m es s" and i: "i < 32" "es ! i \<noteq> zero_entry"
    and j: "j < 32" "es ! j \<noteq> zero_entry" and ne: "i \<noteq> j"
  shows "pbase (h_data (value_handle (es ! i))) \<noteq> pbase (h_data (value_handle (es ! j)))"
proof
  assume "pbase (h_data (value_handle (es ! i))) = pbase (h_data (value_handle (es ! j)))"
  moreover note I = slot_okD [OF registered_slot [OF r i]] and J = slot_okD [OF registered_slot [OF r j]]
  ultimately have "h_data (value_handle (es ! i)) = h_data (value_handle (es ! j))"
    by (auto simp: owned_def intro: ptr.expand)
  then show False using I J ne by metis
qed

lemma home_removable:
  assumes "registered mth mh eh m es s"
  shows "removable es i"
  unfolding removable_def blocks_def
proof (intro allI impI)
  fix j assume j: "j < length es" "j \<noteq> i \<and> key_hash (es ! j) \<noteq> 0"
  then have "es ! j \<noteq> zero_entry" "j < 32" using registeredD(7) [OF assms] by (auto simp: zero_entry_def)
  then have "unat (key_hash (es ! j)) mod 32 = j" using slot_okD(4) [OF registered_slot [OF assms]] by blast
  then have "dist es (key_hash (es ! j)) j = 0"
    using registeredD(7) [OF assms] j by (simp add: dist_def home_def)
  then show "\<not> dist es (key_hash (es ! j)) i < dist es (key_hash (es ! j)) j" by simp
qed

lemma registered_heap: "registered mth mh eh m es s \<Longrightarrow> heap t = heap s \<Longrightarrow> registered mth mh eh m es t"
  unfolding registered_def slot_ok_def owned_def
  by (auto intro: table_at_frame map_ok_foot)

text \<open>Freeing the allocation that an entry in its home slot belongs to.\<close>

lemma free_slot:
  assumes tab: "table_at mth mh s" and ok: "map_ok MEM_ALLOCATOR_PLAIN mh m es s" and eh: "entries_mh m = eh"
    and size: "table_size m = 32" "unat (entry_count m) \<le> 16"
    and sep: "pbase (h_data mth) \<notin> {pbase (h_data mh), pbase (h_data eh)}"
    and i: "i < 32" and slot: "slot_ok mth mh eh s i (es ! i)"
  defines "h \<equiv> value_handle (es ! i)"
  shows "runs (mem_free (memtbl_ops (Suc d)) h) s (\<lambda>x t. x = null_handle \<and> env_same s t \<and> table_at mth mh t \<and>
    (\<exists>m'. map_rep MEM_ALLOCATOR_PLAIN mh m' (es[i := zero_entry]) t \<and> counted m' (es[i := zero_entry]) \<and>
       entries_mh m' = eh \<and> table_size m' = 32 \<and> unat (entry_count m') \<le> 16) \<and>
    heap t (pbase (h_data h)) = None \<and>
    (\<forall>a. a \<notin> {pbase (h_data h), pbase (h_data mh), pbase (h_data eh)} \<longrightarrow> heap t a = heap s a))"
proof -
  note D = slot_okD [OF slot, folded h_def]
  let ?k = "hash_ptr (h_data h)" and ?s = "s\<lparr>sigint := SIG_IGN\<rparr>"
  have len: "length es = 32" using map_okD(1) [OF ok] size(1) by (simp add: map_rep_def)
  have kz: "key_hash (es ! i) \<noteq> 0" by (rule slot_okD(3) [OF slot])
  have p: "probe es ?k = Some i" using chainedD [OF map_okD(2) [OF ok] _ kz] i len D(2) by simp
  have lk: "lookup es ?k = Some h" using p kz by (simp add: lookup_def h_def)
  have ok': "map_ok MEM_ALLOCATOR_PLAIN mh m es ?s" by (rule map_ok_foot [OF ok]) simp
  let ?es = "es[i := zero_entry]" and ?m = "m\<lparr>entry_count := entry_count m - 1\<rparr>"
  let ?del = "set_content (h_data (entries_mh m)) (Table ?es) ?s"
  let ?t = "set_content (h_data mh) (Map_obj ?m) ?del"
  have nosh: "\<not> (entry_count m - 1 < table_size m div 4 \<and> INITIAL_TABLE_SIZE < table_size m)"
    by (simp add: size INITIAL_TABLE_SIZE_def)
  have del: "map_delete_ptr (memtbl_ops d) mh (h_data h) ?s = Inr (True, ?t)"
    unfolding map_delete_ptr_def by (rule plain.do_delete_present [OF map_okD(1) [OF ok'] p kz nosh])
  have "map_rep MEM_ALLOCATOR_PLAIN mh m ?es ?del" by (rule map_rep_table [OF map_okD(1) [OF ok']]) simp
  then have rept: "map_rep MEM_ALLOCATOR_PLAIN mh ?m ?es ?t" by (rule map_rep_map) simp_all
  have ht: "heap ?t a = heap s a" if "a \<notin> {pbase (h_data mh), pbase (h_data eh)}" for a
    using that eh by (auto simp: heap_set_content)
  obtain b where b: "owned s h b" using D(5) by blast
  then have "heap ?t (pbase (h_data h)) = Some b" "b_heap b" "poff (h_data h) = 0"
    using D(6) ht by (auto simp: owned_def)
  then obtain u where fr: "free (h_data h) ?t = Inr ((), u)" and eu: "env_same ?t u"
      and hu: "heap u = (heap ?t)(pbase (h_data h) := None)"
    using free_runs [of ?t "h_data h" b] D(7) by (auto elim!: runsE)
  have "map_store mh eh (lookup es) 0 ?s" using size eh by (intro map_storeI [OF ok']) simp_all
  moreover have "table_at mth mh ?s" by (rule table_at_frame [OF tab]) simp
  ultimately have "memtbl_free (memtbl_ops d) h ?s = Inr (null_handle, u)"
    using table_map.memtbl_free_unfold [of mth mh ?s eh "lookup es" 0 h h "memtbl_ops d"] D lk del fr
    by (simp add: cbind_apply)
  then have run: "mem_free (memtbl_ops (Suc d)) h s = Inr (null_handle, u\<lparr>sigint := sigint s\<rparr>)"
    unfolding mem_ops_memtbl(1) [OF D(1,7)]
    by (simp add: sigint_guard_def signal_int_def cbind_apply)
  let ?u = "u\<lparr>sigint := sigint s\<rparr>"
  have same: "heap ?u a = heap s a"
    if "a \<notin> {pbase (h_data h), pbase (h_data mh), pbase (h_data eh)}" for a
    using that hu ht by simp
  have "map_rep MEM_ALLOCATOR_PLAIN mh ?m ?es ?u"
    using D(6) eh hu by (intro map_rep_foot [OF rept]) (auto simp: foot_def)
  moreover have "table_at mth mh ?u" using sep D(6) by (intro table_at_frame [OF tab] same) auto
  moreover have "counted ?m ?es" "unat (entry_count ?m) \<le> 16"
    using counted_remove(1,2) [OF map_okD(3) [OF ok] _ kz] i len size(2) by simp_all
  moreover have "env_same s ?u" using eu by (simp add: env_same_def)
  moreover have "heap ?u (pbase (h_data h)) = None" using hu by simp
  ultimately show ?thesis using same run eh size(1) unfolding runs_def by fastforce
qed

lemma destroy_step:
  assumes r: "registered mth mh eh m es s" and i: "i < 32" "es ! i \<noteq> zero_entry"
  defines "h \<equiv> value_handle (es ! i)"
  shows "runs (mem_free (memtbl_ops (Suc d)) h) s (\<lambda>x t. x = null_handle \<and> env_same s t \<and>
    (\<exists>m'. registered mth mh eh m' (es[i := zero_entry]) t) \<and> heap t (pbase (h_data h)) = None \<and>
    (\<forall>a. a \<notin> {pbase (h_data h), pbase (h_data mh), pbase (h_data eh)} \<longrightarrow> heap t a = heap s a))"
proof -
  note R = registeredD [OF r] and slot = registered_slot [OF r i]
  let ?es = "es[i := zero_entry]"
  have ch: "chained ?es"
    using chained_remove [OF map_okD(2) [OF R(2)] _ home_removable [OF r]] i(1) R(7) by simp
  show ?thesis
  proof (rule runs_conseq [OF free_slot [OF R(1-6) i(1) slot, of d, folded h_def]], elim conjE exE, intro conjI)
    fix x t m'
    assume same: "\<forall>a. a \<notin> {pbase (h_data h), pbase (h_data mh), pbase (h_data eh)} \<longrightarrow> heap t a = heap s a"
      and M: "map_rep MEM_ALLOCATOR_PLAIN mh m' ?es t" "counted m' ?es" "entries_mh m' = eh"
        "table_size m' = 32" "unat (entry_count m') \<le> 16" "table_at mth mh t"
    have "slot_ok mth mh eh t j (?es ! j)" if j: "j < 32" "?es ! j \<noteq> zero_entry" for j
    proof -
      have ne: "j \<noteq> i" using j R(7) by auto
      then have ej: "?es ! j = es ! j" "es ! j \<noteq> zero_entry" using j R(7) by auto
      note so = registered_slot [OF r j(1) ej(2)]
      have "heap t (pbase (h_data (value_handle (es ! j)))) = heap s (pbase (h_data (value_handle (es ! j))))"
        using slot_apart [OF r j(1) ej(2) i ne] slot_okD(6) [OF so] same by (auto simp: h_def)
      then show ?thesis using so unfolding ej(1) slot_ok_def owned_def by auto
    qed
    then have "registered mth mh eh m' ?es t"
      using M ch R(6) unfolding registered_def map_ok_def by blast
    then show "\<exists>m'. registered mth mh eh m' ?es t" ..
  qed
qed

text \<open>The addresses of the blocks that the slots from \<open>i\<close> on own.\<close>

definition slot_bases :: "nat \<Rightarrow> map_entry list \<Rightarrow> 64 word set" where
  "slot_bases i es = (\<lambda>e. pbase (h_data (value_handle e))) ` {e \<in> set (drop i es). e \<noteq> zero_entry}"

lemma slot_bases_step:
  "i < length es \<Longrightarrow> es ! i \<noteq> zero_entry \<Longrightarrow>
   slot_bases i es = insert (pbase (h_data (value_handle (es ! i)))) (slot_bases (Suc i) es)"
  by (auto simp: slot_bases_def Cons_nth_drop_Suc [symmetric])

lemma slot_bases_empty: "\<forall>e \<in> set (drop i es). e = zero_entry \<Longrightarrow> slot_bases i es = {}"
  by (auto simp: slot_bases_def)

lemma slot_bases_next:
  assumes "\<And>e. e \<in> set es \<Longrightarrow> ok e \<longleftrightarrow> e \<noteq> zero_entry"
  shows "slot_bases (next_from ok es i) es = slot_bases i es"
proof -
  have "slot_bases j es = (\<lambda>e. pbase (h_data (value_handle e))) ` set (filter ok (drop j es))" for j
    using assms set_drop_subset [of j es] by (auto simp: slot_bases_def image_def)
  then show ?thesis by (simp only: filter_next_from)
qed

lemma destroy_loop_end: "destroy_loop tb (Suc fuel) null_iter s = Inr ((), s)"
  by (simp add: map_iter_done_def null_iter_def cbind_apply)

lemma destroy_loop_runs:
  assumes "registered mth mh eh m es s" and "i < 32" and "es ! i \<noteq> zero_entry" and "32 - i < fuel"
  shows "runs (destroy_loop (memtbl_ops (Suc d)) fuel (iter_at mh es i)) s (\<lambda>x t. env_same s t \<and>
    (\<exists>m' es'. registered mth mh eh m' es' t) \<and>
    (\<forall>a. a \<notin> {pbase (h_data mh), pbase (h_data eh)} \<longrightarrow>
       heap t a = (if a \<in> slot_bases i es then None else heap s a)))"
  using assms
proof (induction fuel arbitrary: i es m s)
  case (Suc fuel)
  note r = Suc.prems(1) and i = Suc.prems(2,3)
  note R = registeredD [OF r] and D = slot_okD [OF registered_slot [OF r i]]
  let ?h = "value_handle (es ! i)" and ?es = "es[i := zero_entry]" and ?j = "next_from (live h_data) es (Suc i)"
  let ?tb = "memtbl_ops (Suc d)"
  obtain t m' where fr: "mem_free ?tb ?h s = Inr (null_handle, t)" and e: "env_same s t"
      and r': "registered mth mh eh m' ?es t" and gone: "heap t (pbase (h_data ?h)) = None"
      and same: "\<forall>a. a \<notin> {pbase (h_data ?h), pbase (h_data mh), pbase (h_data eh)} \<longrightarrow> heap t a = heap s a"
    by (rule runsE [OF destroy_step [OF r i, of d]], elim conjE exE, hypsubst, rule that)
  have len: "length ?es = 32" by (simp add: R(7))
  have next_: "next_from (live h_data) ?es (Suc i) = ?j" by (simp add: next_from_def)
  have dn: "map_iter_done ?tb (iter_at mh es i) s = Inr (False, s)"
    using registered_p [OF r nth_mem, of i d] i(1) R(7) D(7)
    by (simp add: map_iter_done_def cbind_apply iter_at_def)
  have nx: "map_next_value_iter ?tb (iter_at mh es i) t = Inr (iter_at mh ?es ?j, t)"
  proof -
    have "map_next_value_iter ?tb (iter_at mh es i) = map_next_value_iter ?tb (iter_at mh ?es i)"
      using i(1) R(7) by (intro map_next_value_iter_cong) (simp_all add: iter_at_def)
    then show ?thesis
      using plain.map_next_value_iter_exec [OF map_okD(1) [OF registeredD(2) [OF r']]
          registered_readable [OF r'], of i] len i(1) by (simp add: next_)
  qed
  have val: "map_iter_value (iter_at mh es i) = ?h"
    using i(1) R(7) by (simp add: map_iter_value_def iter_at_def)
  have run: "destroy_loop ?tb (Suc fuel) (iter_at mh es i) s = destroy_loop ?tb fuel (iter_at mh ?es ?j) t"
    by (simp add: cbind_apply dn val fr nx)
  have bases: "slot_bases i es = insert (pbase (h_data ?h)) (slot_bases (Suc i) ?es)"
    using slot_bases_step [of i es] i R(7) by (simp add: slot_bases_def)
  have nb: "slot_bases ?j ?es = slot_bases (Suc i) ?es"
    unfolding next_ [symmetric]
    by (rule slot_bases_next) (use registered_live [OF r'] len in \<open>auto simp: in_set_conv_nth\<close>)
  show ?case
  proof (cases "?j < 32")
    case True
    have live: "?es ! ?j \<noteq> zero_entry"
      using next_from_live [of "live h_data" ?es "Suc i"] True len registered_live [OF r' True] by (simp add: next_)
    have "Suc i \<le> ?j" by (simp add: next_from_def)
    then have "runs (destroy_loop ?tb fuel (iter_at mh ?es ?j)) t (\<lambda>x u. env_same t u \<and>
        (\<exists>m' es'. registered mth mh eh m' es' u) \<and> (\<forall>a. a \<notin> {pbase (h_data mh), pbase (h_data eh)} \<longrightarrow>
           heap u a = (if a \<in> slot_bases ?j ?es then None else heap t a)))"
      using Suc.prems(4) True by (intro Suc.IH [OF r' True live]) simp
    then show ?thesis
      unfolding runs_def run
      using e gone same bases nb by (auto split: sum.splits dest: env_same_trans)
  next
    case False
    have "0 < fuel" using Suc.prems by simp
    then obtain f where f: "fuel = Suc f" by (cases fuel) auto
    have "destroy_loop ?tb fuel (iter_at mh ?es ?j) t = Inr ((), t)"
      using False len destroy_loop_end [of ?tb f t] by (simp add: f iter_at_def del: destroy_loop.simps)
    moreover have "slot_bases ?j ?es = {}" using False len by (simp add: slot_bases_def)
    ultimately show ?thesis
      unfolding runs_def run using e gone same bases nb r' by auto
  qed
qed simp


lemma memtbl_is_valid_exec:
  assumes "table_at mth mh s" and "map_rep MEM_ALLOCATOR_PLAIN mh m es s" and "h_alloc mth = MEM_ALLOCATOR_PLAIN"
  shows "memtbl_is_valid tb mth s = Inr (True, s)"
  using assms table_at_valid [OF assms(1)] plain.map_is_valid_exec [OF assms(2), of tb]
  by (simp add: memtbl_is_valid_def mem_is_valid_def cbind_apply mem_p_transparent table_at_def)

lemma memtbl_destroy_unfold:
  assumes tab: "table_at mth mh s" and rep: "map_rep MEM_ALLOCATOR_PLAIN mh m es s" and size: "table_size m = 32"
    and own: "h_alloc mth = MEM_ALLOCATOR_PLAIN"
    and first: "map_first_value_iter tb mh s = Inr (it, s)" and lp: "destroy_loop tb 33 it s = Inr ((), t)"
    and tab': "table_at mth mh t" and rep': "map_rep MEM_ALLOCATOR_PLAIN mh m' es' t" and eh: "entries_mh m' = eh"
    and sep: "pbase (h_data mth) \<notin> {pbase (h_data mh), pbase (h_data eh)}" and b: "owned t mth b"
  shows "runs (memtbl_destroy tb mth) s (\<lambda>x u. env_same t u \<and> heap u =
    (heap t)(pbase (h_data eh) := None, pbase (h_data mh) := None, pbase (h_data mth) := None))"
proof -
  have p: "mem_p tb mth = ret (h_data mth)" using own by (simp add: mem_p_transparent)
  have ld: "load_memtbl (h_data mth) s = Inr (\<lparr>mem_map_handle = mh\<rparr>, s)"
    and ld': "load_memtbl (h_data mth) t = Inr (\<lparr>mem_map_handle = mh\<rparr>, t)"
    using tab tab' by (simp_all add: table_at_def)
  have lm: "load_map (h_data mh) s = Inr (m, s)" and mp: "mem_p tb mh = ret (h_data mh)" "h_data mh \<noteq> NULL"
    using rep by (auto simp: map_rep_def mem_p_transparent dest: owned_not_null)
  have bound: "iteration_bound tb mh s = Inr (33, s)"
    using lm mp size by (simp add: iteration_bound_def cbind_apply)
  obtain u where md: "map_destroy tb mh t = Inr ((), u)" and e: "env_same t u"
      and hu: "heap u = (heap t)(pbase (h_data eh) := None, pbase (h_data mh) := None)"
    using plain.map_destroy_runs [OF rep', of tb] eh by (auto elim!: runsE)
  have "owned u mth b" using b hu sep by (auto simp: owned_def)
  from plain.free_law [OF own this, of tb]
  have fr: "runs (mem_free tb mth) u (\<lambda>r v. r = null_handle \<and> env_same u v \<and>
      heap v = (heap u)(pbase (h_data mth) := None))" .
  have "memtbl_destroy tb mth s = cbind (mem_free tb mth) (\<lambda>_. ret ()) u"
    by (simp add: memtbl_destroy_def cbind_apply memtbl_is_valid_exec [OF tab rep own]
        p ld bound first lp ld' md)
  then show ?thesis
    using fr e hu by (auto simp: runs_def cbind_apply split: sum.splits dest: env_same_trans)
qed

lemma memtbl_destroy_runs:
  assumes r: "registered mth mh eh m es s" and own: "h_alloc mth = MEM_ALLOCATOR_PLAIN" "owned s mth b"
  shows "runs (memtbl_destroy (memtbl_ops (Suc d)) mth) s (\<lambda>x t. env_same s t \<and> heap t = (\<lambda>a.
    if a \<in> slot_bases 0 es \<union> {pbase (h_data mth), pbase (h_data mh), pbase (h_data eh)} then None
    else heap s a))"
proof -
  note R = registeredD [OF r]
  let ?tb = "memtbl_ops (Suc d)" and ?j = "next_from (live h_data) es 0"
  have first: "map_first_value_iter ?tb mh s = Inr (iter_at mh es ?j, s)"
    by (rule plain.map_first_value_iter_exec [OF map_okD(1) [OF R(2)] registered_readable [OF r]])
  have bases: "slot_bases ?j es = slot_bases 0 es"
    by (rule slot_bases_next) (use registered_live [OF r] R(7) in \<open>auto simp: in_set_conv_nth\<close>)
  obtain t m' es' where lp: "destroy_loop ?tb 33 (iter_at mh es ?j) s = Inr ((), t)" and e: "env_same s t"
      and r': "registered mth mh eh m' es' t"
      and ht: "\<forall>a. a \<notin> {pbase (h_data mh), pbase (h_data eh)} \<longrightarrow>
        heap t a = (if a \<in> slot_bases 0 es then None else heap s a)"
  proof (cases "?j < 32")
    case True
    have "es ! ?j \<noteq> zero_entry"
      using next_from_live [of "live h_data" es 0] True R(7) registered_live [OF r True] by simp
    from destroy_loop_runs [OF r True this, of 33 d] show ?thesis
      by (rule runsE, simp) (use that bases in fastforce)
  next
    case False
    then have "destroy_loop ?tb 33 (iter_at mh es ?j) s = Inr ((), s)"
      using R(7) destroy_loop_end [of ?tb 32 s] by (simp add: iter_at_def)
    moreover have "slot_bases 0 es = {}" using False R(7) bases by (simp add: slot_bases_def)
    ultimately show ?thesis using that [of s m es] r by simp
  qed
  note R' = registeredD [OF r']
  have "pbase (h_data mth) \<notin> slot_bases 0 es"
    using registered_slot [OF r] R(7) by (fastforce simp: slot_bases_def slot_ok_def in_set_conv_nth)
  then have "owned t mth b" using own(2) ht R(6) by (auto simp: owned_def)
  from memtbl_destroy_unfold [OF R(1) map_okD(1) [OF R(2)] R(4) own(1) first lp R'(1) map_okD(1) [OF R'(2)] R'(3) R(6) this]
  show ?thesis
    by (rule runs_conseq) (use e ht in \<open>auto simp: fun_eq_iff dest: env_same_trans\<close>)
qed

section \<open>A displaced entry\<close>

lemma do_get_hidden:
  assumes rep: "map_rep MEM_ALLOCATOR_PLAIN mh m es s" and p: "probe es (hash_ptr p) = Some i"
    and z: "key_hash (es ! i) = 0"
  shows "map_get_ptr tb mh p s = Inr (null_handle, s)"
proof -
  have "lookup es (hash_ptr p) = None" using z by (simp add: lookup_empty_slot [OF p])
  then show ?thesis
    using plain.do_get_exec [OF rep p, of tb] plain.map_is_valid_exec [OF rep, of tb]
    by (simp add: map_get_ptr_def cbind_apply)
qed

lemma memtbl_p_hidden:
  assumes "table_at mth mh s" and rep: "map_rep MEM_ALLOCATOR_PLAIN mh m es s"
    and "h_alloc h = mem_allocator_memtbl mth" and "h_data h \<noteq> NULL"
    and "probe es (hash_ptr (h_data h)) = Some i" and "key_hash (es ! i) = 0"
  shows "mem_p (memtbl_ops (Suc d)) h s = Inr (NULL, s)"
proof -
  have "h_data mh \<noteq> NULL" using rep by (auto simp: map_rep_def dest: owned_not_null)
  then have "table_map (h_data mth) s = Inr (Some mh, s)"
    using assms(1) table_at_valid [OF assms(1)]
    by (simp add: table_map_def table_at_def cbind_apply mem_is_valid_def)
  then show ?thesis
    using assms do_get_hidden [OF rep assms(5,6)]
    by (simp add: mem_ops_memtbl memtbl_p_def mem_is_valid_def cbind_apply)
qed


text \<open>
  \<open>displaced\<close>: the map of the table holds two entries, one in its home slot \<open>i\<close> and one that was
  displaced to the slot after it.
\<close>

definition displaced ::
  "mem_handle \<Rightarrow> mem_handle \<Rightarrow> mem_handle \<Rightarrow> cmap \<Rightarrow> map_entry list \<Rightarrow> nat \<Rightarrow> cstate \<Rightarrow> bool" where
  "displaced mth mh eh m es i s \<longleftrightarrow> table_at mth mh s \<and> map_ok MEM_ALLOCATOR_PLAIN mh m es s \<and>
     entries_mh m = eh \<and> table_size m = 32 \<and> unat (entry_count m) \<le> 16 \<and>
     pbase (h_data mth) \<notin> {pbase (h_data mh), pbase (h_data eh)} \<and>
     Suc i < 32 \<and> slot_ok mth mh eh s i (es ! i) \<and> slot_ok mth mh eh s i (es ! Suc i) \<and>
     (\<forall>j < 32. j \<noteq> i \<and> j \<noteq> Suc i \<longrightarrow> es ! j = zero_entry)"

lemma destroy_displaced:
  assumes dis: "displaced mth mh eh m es i s" and own: "h_alloc mth = MEM_ALLOCATOR_PLAIN" "owned s mth b"
  defines "a1 \<equiv> pbase (h_data (value_handle (es ! i)))"
    and "a2 \<equiv> pbase (h_data (value_handle (es ! Suc i)))"
  shows "runs (memtbl_destroy (memtbl_ops (Suc d)) mth) s (\<lambda>x t. env_same s t \<and> a1 \<noteq> a2 \<and>
    heap t a1 = None \<and> heap t a2 = heap s a2 \<and> heap s a2 \<noteq> None \<and> heap t (pbase (h_data mth)) = None)"
proof -
  have R: "table_at mth mh s" "map_ok MEM_ALLOCATOR_PLAIN mh m es s" "entries_mh m = eh" "table_size m = 32"
      "unat (entry_count m) \<le> 16" "pbase (h_data mth) \<notin> {pbase (h_data mh), pbase (h_data eh)}"
    and i: "Suc i < 32" and s1: "slot_ok mth mh eh s i (es ! i)" and s2: "slot_ok mth mh eh s i (es ! Suc i)"
    and rest: "\<And>j. j < 32 \<Longrightarrow> j \<noteq> i \<Longrightarrow> j \<noteq> Suc i \<Longrightarrow> es ! j = zero_entry"
    using dis unfolding displaced_def by blast+
  note D1 = slot_okD [OF s1] and D2 = slot_okD [OF s2] and rep = map_okD(1) [OF R(2)] and ch = map_okD(2) [OF R(2)]
  let ?tb = "memtbl_ops (Suc d)" and ?es = "es[i := zero_entry]" and ?h1 = "value_handle (es ! i)"
    and ?h2 = "value_handle (es ! Suc i)"
  have len: "length es = 32" using rep R(4) by (simp add: map_rep_def)
  have p1: "probe es (key_hash (es ! i)) = Some i" and p2: "probe es (key_hash (es ! Suc i)) = Some (Suc i)"
    using ch D1(3) D2(3) i len by (simp_all add: chained_def)
  have apart: "a1 \<noteq> a2"
  proof
    assume "a1 = a2"
    then have "h_data ?h1 = h_data ?h2"
      using D1(5) D2(5) by (auto simp: a1_def a2_def owned_def intro: ptr.expand)
    then show False using p1 p2 D1(2) D2(2) by simp
  qed
  have th: "table_holds mth mh eh (lookup es) 0 s"
    using R map_storeI [OF R(2,3) refl R(4), of 0] by (simp add: table_holds_def)
  have rd: "readable ?tb h_data es s"
    unfolding readable_def
  proof (intro conjI ballI)
    fix e assume "e \<in> set es"
    then obtain j where j: "j < 32" "e = es ! j" using len by (auto simp: in_set_conv_nth)
    show "mem_p ?tb (value_handle e) s = Inr (h_data (value_handle e), s)"
      using table_holds_p [OF th D1(1,7), of d] table_holds_p [OF th D2(1,7), of d] rest [OF j(1)] p1 p2
        D1(2,3) D2(2,3) j(2)
      by (cases "j = i"; cases "j = Suc i") (simp_all add: lookup_def zero_entry_def)
  qed simp
  have "next_from (live h_data) es 0 = i"
    using i len D1(7) rest by (intro next_from_first) (auto simp: zero_entry_def)
  then have first: "map_first_value_iter ?tb mh s = Inr (iter_at mh es i, s)"
    using plain.map_first_value_iter_exec [OF rep rd] by simp
  have i32: "i < 32" using i by simp
  obtain x t m' where fr: "mem_free ?tb ?h1 s = Inr (x, t)" and e: "env_same s t" and tab: "table_at mth mh t"
      and rep': "map_rep MEM_ALLOCATOR_PLAIN mh m' ?es t" and eh: "entries_mh m' = eh"
      and gone: "heap t a1 = None"
      and same: "\<forall>a. a \<notin> {a1, pbase (h_data mh), pbase (h_data eh)} \<longrightarrow> heap t a = heap s a"
    by (rule runsE [OF free_slot [OF R i32 s1, of d, folded a1_def]], elim conjE exE, rule that)
  have hidden: "probe ?es (hash_ptr (h_data ?h2)) = Some i" "key_hash (?es ! i) = 0"
    using i len D2(2,4) by (simp_all add: probe_Some_iff stops_def dist_def home_def zero_entry_def)
  have rd': "readable ?tb (\<lambda>_. NULL) ?es t"
    unfolding readable_def
  proof (intro conjI ballI refl)
    fix e assume "e \<in> set ?es"
    then obtain j where j: "j < 32" "e = ?es ! j" using len by (auto simp: in_set_conv_nth)
    show "mem_p ?tb (value_handle e) t = Inr (NULL, t)"
      using memtbl_p_hidden [OF tab rep' D2(1,7) hidden, of d] rest [OF j(1)] j len i
      by (cases "j = i"; cases "j = Suc i") (simp_all add: zero_entry_def)
  qed
  have nx: "map_next_value_iter ?tb (iter_at mh es i) t = Inr (null_iter, t)"
  proof -
    have "map_next_value_iter ?tb (iter_at mh es i) = map_next_value_iter ?tb (iter_at mh ?es i)"
      using i len by (intro map_next_value_iter_cong) (simp_all add: iter_at_def)
    moreover have "next_from (live (\<lambda>_. NULL)) ?es (Suc i) = length ?es"
      using i len by (intro next_from_none) simp_all
    ultimately show ?thesis
      using plain.map_next_value_iter_exec [OF rep' rd', of i] i len by (simp add: iter_at_def)
  qed
  have "mem_p ?tb ?h1 s = Inr (h_data ?h1, s)" using rd i len by (simp add: readable_def)
  then have "destroy_loop ?tb (Suc (Suc 31)) (iter_at mh es i) s = Inr ((), t)"
    using i len D1(7) fr nx destroy_loop_end [of ?tb 31 t]
    by (subst destroy_loop.simps) (simp add: cbind_apply map_iter_done_def map_iter_value_def iter_at_def
      del: destroy_loop.simps)
  then have lp: "destroy_loop ?tb 33 (iter_at mh es i) s = Inr ((), t)" by (simp only: numeral_eq_Suc) simp
  have o: "owned t mth b" using own(2) same D1(6) R(6) by (auto simp: owned_def a1_def)
  have "heap s a2 \<noteq> None" using D2(5) by (auto simp: owned_def a2_def)
  then show ?thesis
    by (intro runs_conseq [OF memtbl_destroy_unfold [OF R(1) rep R(4) own(1) first lp tab rep' eh R(6) o]])
      (use e same gone apart D1(6) D2(6) in \<open>auto simp: a1_def a2_def dest: env_same_trans\<close>)
qed

end
