(* ===== verification/Ds_Memtbl_Props.thy ===== *)
theory Ds_Memtbl_Props
  imports Ds_Memtbl_Destroy
begin

text \<open>
  The properties of the memory table, with a table at address 0x800 whose map is the one of the
  map examples.
\<close>

definition sample_mth :: mem_handle where
  "sample_mth = \<lparr>h_data = Ptr 0x800 0, h_size = sizeof_memtbl, h_alloc = MEM_ALLOCATOR_PLAIN\<rparr>"

definition sample_owned :: mem_handle where
  "sample_owned = \<lparr>h_data = Ptr 0x5000 0, h_size = 8, h_alloc = mem_allocator_memtbl sample_mth\<rparr>"

definition owned_entries :: "map_entry list" where
  "owned_entries = (replicate 32 zero_entry)[28 := \<lparr>key_hash = hash_ptr (Ptr 0x5000 0), value_handle = sample_owned\<rparr>]"

definition sample_mem_table :: "map_entry list \<Rightarrow> nat \<Rightarrow> (nat \<Rightarrow> 64 word) \<Rightarrow> cstate" where
  "sample_mem_table es c ans = (sample_state es c ans)\<lparr>heap := (sample_heap es c)(
     0x800 \<mapsto> \<lparr>b_size = sizeof_memtbl, b_heap = True, b_content = Memtbl_obj \<lparr>mem_map_handle = sample_mh\<rparr>\<rparr>,
     0x5000 \<mapsto> \<lparr>b_size = 8, b_heap = True, b_content = Fresh\<rparr>)\<rparr>"

lemma sample_hash [simp]: "hash_ptr (Ptr 0x5000 0) = 3617280508"
  by code_simp

lemma sample_registered:
  "registered sample_mth sample_mh sample_table_mh (sample_map 1) owned_entries
     (sample_mem_table owned_entries 1 ans)"
proof -
  let ?s = "sample_mem_table owned_entries 1 ans"
  have slot: "owned_entries ! i = zero_entry \<or> slot_ok sample_mth sample_mh sample_table_mh ?s i (owned_entries ! i)"
    if "i < 32" for i
    using that
    by (auto simp: owned_entries_def slot_ok_def nth_list_update sample_owned_def owned_def
        sample_mem_table_def sample_mth_def sample_mh_def sample_table_mh_def)
  have "chained owned_entries"
    by (rule chained_at_home) (auto simp: owned_entries_def nth_list_update zero_entry_def split: if_splits)
  moreover have "occupied owned_entries = {28}"
    by (auto simp: owned_entries_def occupied_def nth_list_update zero_entry_def split: if_splits)
  ultimately have "map_ok MEM_ALLOCATOR_PLAIN sample_mh (sample_map 1) owned_entries (sample_state owned_entries 1 ans)"
    by (intro sample_ok_gen) (simp_all add: owned_entries_def)
  then have "map_ok MEM_ALLOCATOR_PLAIN sample_mh (sample_map 1) owned_entries ?s"
    by (rule map_ok_foot) (simp add: foot_def sample_mh_def sample_table_mh_def sample_mem_table_def sample_state_def)
  then show ?thesis
    using slot
    by (simp add: registered_def table_at_def load_memtbl_def load_struct_def load_Inr_iff block_at_Inr_iff
        struct_of_def sample_mem_table_def sample_mth_def sample_mh_def sample_table_mh_def)
qed

lemma owned_lookup: "lookup owned_entries (hash_ptr (Ptr 0x5000 0)) = Some sample_owned"
  using registered_lookup(1) [OF sample_registered, of 28] by (simp add: owned_entries_def zero_entry_def)

lemma sample_holds: "table_holds sample_mth sample_mh sample_table_mh (lookup owned_entries) 15
    (sample_mem_table owned_entries 1 ans)"
proof -
  note R = registeredD [OF sample_registered]
  have "map_store sample_mh sample_table_mh (lookup owned_entries) 15 (sample_mem_table owned_entries 1 ans)"
    by (rule map_storeI [OF R(2,3) refl R(4)]) simp
  then show ?thesis using R by (simp add: table_holds_def)
qed

text \<open>
  memtbl_create either returns an invalid handle and leaves no allocation behind, or a
  table that knows no handle, has room for 16, and occupies exactly three fresh blocks.
\<close>

theorem memtbl_create_empty:
  "runs (memtbl_create tb MEM_ALLOCATOR_PLAIN) s (\<lambda>mth t. env_same s t \<and>
     (if h_data mth = NULL then mth = null_handle \<and> heap t = heap s
      else \<exists>mh eh. table_holds mth mh eh Map.empty 16 t \<and>
        heap s (pbase (h_data mth)) = None \<and> heap s (pbase (h_data mh)) = None \<and>
        heap s (pbase (h_data eh)) = None \<and>
        (\<forall>a. a \<notin> {pbase (h_data mth), pbase (h_data mh), pbase (h_data eh)} \<longrightarrow> heap t a = heap s a)))"
proof (rule runs_conseq [OF memtbl_create_new], elim conjE, intro conjI, assumption, goal_cases)
  case (1 mth t)
  then show ?case using new_table_holds by (cases "h_data mth = NULL") (simp, metis)
qed

definition table_create_state :: cstate where
  "table_create_state = (sample_state [] 0 (\<lambda>i. if i = 0 then 0x5000 else if i = 1 then 0x6000 else 0x7000))
     \<lparr>heap := Map.empty\<rparr>"

theorem memtbl_create_empty_witness:
  "runs (memtbl_create (memtbl_ops 1) MEM_ALLOCATOR_PLAIN) table_create_state
     (\<lambda>mth t. \<exists>mh eh. table_holds mth mh eh Map.empty 16 t)"
proof -
  have "runs (memtbl_create (memtbl_ops 1) MEM_ALLOCATOR_PLAIN) table_create_state (\<lambda>mth t. h_data mth \<noteq> NULL)"
    by code_simp
  then show ?thesis
    using memtbl_create_empty [of "memtbl_ops 1" table_create_state]
    by (auto simp: runs_def split: sum.splits) blast
qed

text \<open>
  C21. An allocation from a memory table that has room either fails with nothing changed or
  returns a fresh block of the wanted size that the table knows from then on, so that mem_p of
  the returned handle is its address. The hypothesis excludes the addresses whose hash is 0.
\<close>

theorem memtbl_alloc_registers:
  assumes "table_holds mth mh eh f (Suc n) s" and "hash_ptr (Ptr (fresh_answer s) 0) \<noteq> 0"
  shows "runs (mem_alloc (memtbl_ops (Suc d)) (mem_allocator_memtbl mth) sz) s (\<lambda>r t. env_same s t \<and>
    (if h_data r = NULL then r = null_handle \<and> heap t = heap s
     else heap s (pbase (h_data r)) = None \<and>
       heap t (pbase (h_data r)) = Some \<lparr>b_size = sz, b_heap = True, b_content = Fresh\<rparr> \<and>
       table_holds mth mh eh (f(hash_ptr (h_data r) \<mapsto> r)) n t \<and>
       mem_p (memtbl_ops (Suc d)) r t = Inr (h_data r, t) \<and>
       (\<forall>a. a \<notin> {pbase (h_data r), pbase (h_data mh), pbase (h_data eh)} \<longrightarrow> heap t a = heap s a)))"
  using table_holds_p [of mth mh eh "f(k \<mapsto> r)" n _ r d for k r]
  by (rule_tac runs_conseq [OF table_alloc_runs [OF assms]]) (auto split: if_splits)

theorem memtbl_alloc_registers_witness:
  "runs (mem_alloc (memtbl_ops 1) (mem_allocator_memtbl sample_mth) 8)
     (sample_mem_table owned_entries 1 (\<lambda>_. 0x6000))
     (\<lambda>r t. h_data r \<noteq> NULL \<longrightarrow> mem_p (memtbl_ops 1) r t = Inr (h_data r, t))"
proof -
  let ?s = "sample_mem_table owned_entries 1 (\<lambda>_. 0x6000)"
  have a: "fresh_answer ?s = 0x6000"
    by (simp add: fresh_answer_def sample_mem_table_def sample_state_def sample_heap_def Let_def)
  have key: "hash_ptr (Ptr (fresh_answer ?s) 0) \<noteq> 0" unfolding a by code_simp
  have "table_holds sample_mth sample_mh sample_table_mh (lookup owned_entries) (Suc 14) ?s"
    using sample_holds by simp
  from memtbl_alloc_registers [OF this key, of 0 8] show ?thesis
    unfolding One_nat_def by (rule runs_conseq) (simp split: if_splits)
qed

text \<open>
  C22. Freeing a handle that the table knows, when no other entry of the table's map was probed over
  its slot and its block is none of the table's own, releases the block, makes the table forget it
  and touches no other block but the map's. If nothing is stored under the hash of the null pointer
  either, freeing the handle again does nothing.
\<close>

theorem memtbl_free_releases:
  assumes "table_holds mth mh eh f n s" and "h_alloc h = mem_allocator_memtbl mth"
    and "owned s h b" and "f (hash_ptr (h_data h)) = Some h" and "f (hash_ptr NULL) = None"
    and "map_deletable mh eh (hash_ptr (h_data h)) s"
    and "pbase (h_data h) \<notin> {pbase (h_data mth), pbase (h_data mh), pbase (h_data eh)}"
  shows "runs (mem_free (memtbl_ops (Suc d)) h) s (\<lambda>r t. r = null_handle \<and> env_same s t \<and>
    table_holds mth mh eh (f(hash_ptr (h_data h) := None)) n t \<and> heap t (pbase (h_data h)) = None \<and>
    (\<forall>a. a \<notin> {pbase (h_data h), pbase (h_data mh), pbase (h_data eh)} \<longrightarrow> heap t a = heap s a) \<and>
    runs (mem_free (memtbl_ops (Suc d)) h) t (\<lambda>r u. r = null_handle \<and> heap u = heap t))"
proof -
  have nn: "h_data h \<noteq> NULL" using assms(3) by (rule owned_not_null)
  have again: "runs (mem_free (memtbl_ops (Suc d)) h) t (\<lambda>r u. r = null_handle \<and> heap u = heap t)"
    if "table_holds mth mh eh (f(hash_ptr (h_data h) := None)) n t" for t
    by (rule runs_conseq [OF table_free_unknown_runs [OF that assms(2) nn]]) (simp_all add: assms(5))
  have "pbase (h_data h) \<notin> {pbase (h_data mh), pbase (h_data eh)}" "pbase (h_data h) \<noteq> pbase (h_data mth)"
    using assms(7) by simp_all
  from table_free_runs [OF assms(1-4) refl assms(6) this, of d] show ?thesis
    by (rule runs_conseq) (use again in blast)
qed

lemma sample_own:
  "owned (sample_mem_table owned_entries 1 ans) sample_owned \<lparr>b_size = 8, b_heap = True, b_content = Fresh\<rparr>"
  by (simp add: owned_def sample_owned_def sample_mem_table_def)

lemma sample_deletable:
  "map_deletable sample_mh sample_table_mh k (sample_mem_table owned_entries 1 ans)"
  unfolding map_deletable_def
proof (intro allI impI, elim conjE)
  fix m es i assume "map_ok MEM_ALLOCATOR_PLAIN sample_mh m es (sample_mem_table owned_entries 1 ans)"
    and e: "entries_mh m = sample_table_mh"
  then have "load_entries (h_data sample_table_mh) (sample_mem_table owned_entries 1 ans)
      = Inr (es, sample_mem_table owned_entries 1 ans)"
    by (auto simp: map_ok_def map_rep_def)
  then have "es = owned_entries"
    using map_okD(1) [OF registeredD(2) [OF sample_registered, of ans]] by (simp add: map_rep_def)
  then show "removable es i" using home_removable [OF sample_registered] by simp
qed

lemma sample_apart: "pbase (h_data sample_owned) \<notin>
    {pbase (h_data sample_mth), pbase (h_data sample_mh), pbase (h_data sample_table_mh)}"
  by (simp add: sample_owned_def sample_mth_def sample_mh_def sample_table_mh_def)

theorem memtbl_free_releases_witness:
  "runs (mem_free (memtbl_ops 1) sample_owned) (sample_mem_table owned_entries 1 (\<lambda>_. 0))
     (\<lambda>r t. r = null_handle \<and> heap t 0x5000 = None)"
proof -
  let ?s = "sample_mem_table owned_entries 1 (\<lambda>_. 0)"
  have "hash_ptr NULL \<noteq> hash_ptr (Ptr 0x5000 0)" by code_simp
  then have none: "lookup owned_entries (hash_ptr NULL) = None"
    using map_okD(2) [OF registeredD(2) [OF sample_registered]]
    by (cases "lookup owned_entries (hash_ptr NULL)")
      (auto simp: lookup_iff owned_entries_def nth_list_update zero_entry_def split: if_splits)
  from memtbl_free_releases [OF sample_holds _ sample_own _ none sample_deletable sample_apart, of 0] show ?thesis
    using owned_lookup by (auto simp: sample_owned_def intro: runs_conseq)
qed

text \<open>
  C23. memtbl_destroy frees every allocation of a table whose entries are all in their home
  slots, the table's map and the table itself, and touches nothing else.
\<close>

theorem memtbl_destroy_frees_all:
  assumes "registered mth mh eh m es s" and "h_alloc mth = MEM_ALLOCATOR_PLAIN" and "owned s mth b"
  shows "runs (memtbl_destroy (memtbl_ops (Suc d)) mth) s (\<lambda>x t. env_same s t \<and> heap t = (\<lambda>a.
    if a \<in> slot_bases 0 es \<union> {pbase (h_data mth), pbase (h_data mh), pbase (h_data eh)} then None
    else heap s a))"
  using assms by (rule memtbl_destroy_runs)

lemma owned_bases: "0x5000 \<in> slot_bases 0 owned_entries"
proof -
  have "owned_entries ! 28 \<in> set owned_entries" by (rule nth_mem) (simp add: owned_entries_def)
  moreover have "owned_entries ! 28 = \<lparr>key_hash = hash_ptr (Ptr 0x5000 0), value_handle = sample_owned\<rparr>"
    by (simp add: owned_entries_def)
  ultimately show ?thesis
    unfolding slot_bases_def
    by (intro image_eqI [of _ _ "owned_entries ! 28"]) (simp_all add: sample_owned_def zero_entry_def)
qed

theorem memtbl_destroy_frees_all_witness:
  "runs (memtbl_destroy (memtbl_ops 1) sample_mth) (sample_mem_table owned_entries 1 (\<lambda>_. 0))
     (\<lambda>x t. heap t 0x5000 = None \<and> heap t 0x800 = None)"
proof -
  have own: "owned (sample_mem_table owned_entries 1 (\<lambda>_. 0)) sample_mth
      \<lparr>b_size = sizeof_memtbl, b_heap = True, b_content = Memtbl_obj \<lparr>mem_map_handle = sample_mh\<rparr>\<rparr>"
    by (simp add: owned_def sample_mth_def sample_mem_table_def)
  have A: "h_alloc sample_mth = MEM_ALLOCATOR_PLAIN" by (simp add: sample_mth_def)
  show ?thesis
    unfolding One_nat_def
    by (rule runs_conseq [OF memtbl_destroy_frees_all [OF sample_registered [unfolded One_nat_def] A own [unfolded One_nat_def]]])
      (use owned_bases in \<open>simp add: sample_mth_def\<close>)
qed

text \<open>
  C24. memtbl_destroy leaks memory: on a table with exactly two allocations, whose addresses lead to
  the same home slot before the last one, one stored there and the other displaced to the slot after
  it, the loop frees the first one; the displaced one can then no longer be found, so the loop skips
  it, and its block stays allocated and unchanged while the table itself is released.
\<close>

theorem memtbl_destroy_leaks:
  assumes "displaced mth mh eh m es i s" and "h_alloc mth = MEM_ALLOCATOR_PLAIN" and "owned s mth b"
  shows "runs (memtbl_destroy (memtbl_ops (Suc d)) mth) s (\<lambda>x t. env_same s t \<and>
    heap t (pbase (h_data (value_handle (es ! i)))) = None \<and>
    heap t (pbase (h_data (value_handle (es ! Suc i)))) = heap s (pbase (h_data (value_handle (es ! Suc i)))) \<and>
    heap s (pbase (h_data (value_handle (es ! Suc i)))) \<noteq> None \<and> heap t (pbase (h_data mth)) = None)"
  by (rule runs_conseq [OF destroy_displaced [OF assms]]) simp

definition sample_displaced :: mem_handle where
  "sample_displaced = \<lparr>h_data = Ptr 0x5020 0, h_size = 8, h_alloc = mem_allocator_memtbl sample_mth\<rparr>"

definition displaced_entries :: "map_entry list" where
  "displaced_entries = owned_entries[29 := \<lparr>key_hash = hash_ptr (Ptr 0x5020 0), value_handle = sample_displaced\<rparr>]"

definition displaced_state :: cstate where
  "displaced_state = (sample_mem_table displaced_entries 2 (\<lambda>_. 0))\<lparr>heap :=
     (heap (sample_mem_table displaced_entries 2 (\<lambda>_. 0)))(
       0x5020 \<mapsto> \<lparr>b_size = 8, b_heap = True, b_content = Fresh\<rparr>)\<rparr>"

lemma displaced_hash [simp]: "hash_ptr (Ptr 0x5020 0) = 2210870812"
  by code_simp

lemma sample_displaced_ok:
  "displaced sample_mth sample_mh sample_table_mh (sample_map 2) displaced_entries 28 displaced_state"
proof -
  let ?s = displaced_state
  have nth: "displaced_entries ! i = (if i = 28 then \<lparr>key_hash = 3617280508, value_handle = sample_owned\<rparr>
      else if i = 29 then \<lparr>key_hash = 2210870812, value_handle = sample_displaced\<rparr> else zero_entry)"
    if "i < 32" for i using that by (auto simp: displaced_entries_def owned_entries_def nth_list_update)
  have len: "length displaced_entries = 32" by (simp add: displaced_entries_def owned_entries_def)
  have zero: "key_hash zero_entry = 0" by (simp add: zero_entry_def)
  have occ: "occupied displaced_entries = {28, 29}"
    by (auto simp: occupied_def len nth zero split: if_splits)
  have ch: "chained displaced_entries"
    unfolding chained_def
  proof (intro allI impI)
    fix i assume "i < length displaced_entries" "key_hash (displaced_entries ! i) \<noteq> 0"
    then have "i = 28 \<or> i = 29" using len nth zero by (auto split: if_splits)
    then show "probe displaced_entries (key_hash (displaced_entries ! i)) = Some i"
      by (auto simp: probe_Some_iff stops_def dist_def slot_def home_def len nth)
  qed
  have "map_ok MEM_ALLOCATOR_PLAIN sample_mh (sample_map 2) displaced_entries (sample_state displaced_entries 2 (\<lambda>_. 0))"
    using ch occ len by (intro sample_ok_gen) simp_all
  then have "map_ok MEM_ALLOCATOR_PLAIN sample_mh (sample_map 2) displaced_entries ?s"
    by (rule map_ok_foot)
      (simp add: foot_def sample_mh_def sample_table_mh_def displaced_state_def sample_mem_table_def sample_state_def)
  moreover have "table_at sample_mth sample_mh ?s"
    by (simp add: table_at_def load_memtbl_def load_struct_def load_Inr_iff block_at_Inr_iff
        struct_of_def displaced_state_def sample_mem_table_def sample_mth_def)
  moreover have "slot_ok sample_mth sample_mh sample_table_mh ?s 28 (displaced_entries ! 28)"
    "slot_ok sample_mth sample_mh sample_table_mh ?s 28 (displaced_entries ! 29)"
    by (simp_all add: nth slot_ok_def sample_owned_def sample_displaced_def owned_def displaced_state_def
        sample_mem_table_def sample_mth_def sample_mh_def sample_table_mh_def)
  ultimately show ?thesis
    by (simp add: displaced_def nth sample_mth_def sample_mh_def sample_table_mh_def)
qed

theorem memtbl_destroy_leaks_witness:
  "runs (memtbl_destroy (memtbl_ops 1) sample_mth) displaced_state
     (\<lambda>x t. heap t 0x5000 = None \<and> heap t 0x5020 \<noteq> None \<and> heap t 0x800 = None)"
proof -
  have own: "owned displaced_state sample_mth
      \<lparr>b_size = sizeof_memtbl, b_heap = True, b_content = Memtbl_obj \<lparr>mem_map_handle = sample_mh\<rparr>\<rparr>"
    by (simp add: owned_def sample_mth_def displaced_state_def sample_mem_table_def)
  have A: "h_alloc sample_mth = MEM_ALLOCATOR_PLAIN" by (simp add: sample_mth_def)
  show ?thesis
    unfolding One_nat_def
    by (rule runs_conseq [OF memtbl_destroy_leaks [OF sample_displaced_ok A own]])
      (auto simp: sample_mth_def displaced_entries_def owned_entries_def sample_owned_def sample_displaced_def)
qed

end
