(* ===== verification/Ds_Map_Session.thy ===== *)
theory Ds_Map_Session
  imports Ds_Key_Props
begin

text \<open>
  Sessions that set, get and delete str and pointer keys through the type-generic operations, and
  the partial function from hashes to values that answers the same calls.
\<close>

datatype key_call = Put map_key mem_handle | Look map_key | Drop map_key

datatype key_reply = Done bool | Found mem_handle

fun perform_key :: "table_ops \<Rightarrow> mem_handle \<Rightarrow> key_call \<Rightarrow> key_reply prog" where
  "perform_key tb mh (Put key v) = cbind (map_set tb mh key v) (\<lambda>r. ret (Done r))"
| "perform_key tb mh (Look key) = cbind (map_get tb mh key) (\<lambda>v. ret (Found v))"
| "perform_key tb mh (Drop key) = cbind (map_delete tb mh key) (\<lambda>r. ret (Done r))"

fun perform_keys :: "table_ops \<Rightarrow> mem_handle \<Rightarrow> key_call list \<Rightarrow> key_reply list prog" where
  "perform_keys tb mh [] = ret []"
| "perform_keys tb mh (c # cs) =
     cbind (perform_key tb mh c) (\<lambda>r. cbind (perform_keys tb mh cs) (\<lambda>rs. ret (r # rs)))"

text \<open>The same calls on a partial function, where \<open>H\<close> is the hash of a key.\<close>

fun reply_to :: "(map_key \<Rightarrow> uint) \<Rightarrow> (uint \<rightharpoonup> mem_handle) \<Rightarrow> key_call \<Rightarrow> key_reply" where
  "reply_to H f (Put key v) = Done True"
| "reply_to H f (Look key) = Found (case f (H key) of None \<Rightarrow> null_handle | Some v \<Rightarrow> v)"
| "reply_to H f (Drop key) = Done (f (H key) \<noteq> None)"

fun key_effect :: "(map_key \<Rightarrow> uint) \<Rightarrow> key_call \<Rightarrow> (uint \<rightharpoonup> mem_handle) \<Rightarrow> (uint \<rightharpoonup> mem_handle)" where
  "key_effect H (Put key v) f = f(H key \<mapsto> v)"
| "key_effect H (Look key) f = f"
| "key_effect H (Drop key) f = f(H key := None)"

fun key_replies :: "(map_key \<Rightarrow> uint) \<Rightarrow> (uint \<rightharpoonup> mem_handle) \<Rightarrow> key_call list \<Rightarrow> key_reply list" where
  "key_replies H f [] = []"
| "key_replies H f (c # cs) = reply_to H f c # key_replies H (key_effect H c f) cs"

fun call_key :: "key_call \<Rightarrow> map_key" where
  "call_key (Put key v) = key"
| "call_key (Look key) = key"
| "call_key (Drop key) = key"

text \<open>The session never has more than 16 keys in the map.\<close>

fun within :: "(map_key \<Rightarrow> uint) \<Rightarrow> (uint \<rightharpoonup> mem_handle) \<Rightarrow> key_call list \<Rightarrow> bool" where
  "within H f [] \<longleftrightarrow> True"
| "within H f (c # cs) \<longleftrightarrow>
     card (dom (key_effect H c f)) \<le> 16 \<and> within H (key_effect H c f) cs"

text \<open>The hashes that a session stores.\<close>

fun puts :: "(map_key \<Rightarrow> uint) \<Rightarrow> key_call list \<Rightarrow> uint list" where
  "puts H [] = []"
| "puts H (Put key v # cs) = H key # puts H cs"
| "puts H (Look key # cs) = puts H cs"
| "puts H (Drop key # cs) = puts H cs"

text \<open>
  \<open>H\<close> is the hash of the key of a call in a state, the text of a str key is not in the blocks \<open>F\<close>,
  and a value that is stored is a valid handle under a hash that is not 0.
\<close>

fun hash_known :: "(map_key \<Rightarrow> uint) \<Rightarrow> 64 word set \<Rightarrow> cstate \<Rightarrow> map_key \<Rightarrow> bool" where
  "hash_known H F s (Ptr_key p) \<longleftrightarrow> H (Ptr_key p) = hash_ptr p"
| "hash_known H F s (Str_key k) \<longleftrightarrow> pbase (h_data k) \<notin> F \<and>
     (\<exists>cs. str_rep k cs s \<and> length cs < 2 ^ 32 \<and> H (Str_key k) = foldl fnv_step FNV_OFFSET (0 # cs))"

fun stored_ok :: "(map_key \<Rightarrow> uint) \<Rightarrow> key_call \<Rightarrow> bool" where
  "stored_ok H (Put key v) \<longleftrightarrow> H key \<noteq> 0 \<and> transparent v \<and> h_data v \<noteq> NULL"
| "stored_ok H (Look key) \<longleftrightarrow> True"
| "stored_ok H (Drop key) \<longleftrightarrow> True"

definition call_ok :: "(map_key \<Rightarrow> uint) \<Rightarrow> 64 word set \<Rightarrow> cstate \<Rightarrow> key_call \<Rightarrow> bool" where
  "call_ok H F s c \<longleftrightarrow> stored_ok H c \<and> hash_known H F s (call_key c)"

lemma hash_known_frame:
  "hash_known H F s key \<Longrightarrow> frame F s t \<Longrightarrow> hash_known H F t key"
  by (cases key) (auto simp: frame_def intro: str_rep_frame)

lemma hash_known_exec:
  "hash_known H F s (Str_key k) \<Longrightarrow> hash_str tb k s = Inr (H (Str_key k), s)"
  by (auto simp: hash_str_exec)

definition separate :: "uint set \<Rightarrow> bool" where
  "separate K \<longleftrightarrow> inj_on (\<lambda>h. unat h mod 32) K"

lemma separate_home:
  "separate K \<Longrightarrow> length es = 32 \<Longrightarrow> k \<in> K \<Longrightarrow> k' \<in> K \<Longrightarrow> home es k' = home es k \<Longrightarrow> k' = k"
  by (auto simp: separate_def home_def dest: inj_onD)

lemma separate_mono: "separate K \<Longrightarrow> L \<subseteq> K \<Longrightarrow> separate L"
  by (auto simp: separate_def intro: inj_on_subset)

section \<open>The calls\<close>

text \<open>
  What is known about a map between two calls of a session: every entry is at home, empty slots are
  zero, and the entry count is the number of keys.
\<close>

definition tidy :: "map_entry list \<Rightarrow> bool" where
  "tidy es \<longleftrightarrow> at_home es \<and> (\<forall>e \<in> set es. key_hash e = 0 \<longrightarrow> e = zero_entry)"

lemma tidy_empty [simp]: "tidy (replicate n zero_entry)"
  by (simp add: tidy_def)

lemma tidy_update:
  "tidy es \<Longrightarrow> at_home (es[i := e]) \<Longrightarrow> e = zero_entry \<or> key_hash e \<noteq> 0 \<Longrightarrow> tidy (es[i := e])"
  by (auto simp: tidy_def dest: subsetD [OF set_update_subset_insert])

definition home_map ::
  "mem_allocator \<Rightarrow> mem_handle \<Rightarrow> mem_handle \<Rightarrow> (uint \<rightharpoonup> mem_handle) \<Rightarrow> cstate \<Rightarrow> bool" where
  "home_map A mh eh f s \<longleftrightarrow> (\<exists>m es. map_ok A mh m es s \<and> tidy es \<and> lookup es = f \<and>
     entries_mh m = eh \<and> table_size m = 32 \<and> unat (entry_count m) = card (dom f))"

lemma home_mapI:
  "map_ok A mh m es s \<Longrightarrow> tidy es \<Longrightarrow> lookup es = f \<Longrightarrow> entries_mh m = eh \<Longrightarrow> table_size m = 32 \<Longrightarrow>
   unat (entry_count m) = card (dom f) \<Longrightarrow> home_map A mh eh f s"
  by (auto simp: home_map_def)

lemma home_mapE:
  assumes "home_map A mh eh f s"
  obtains m es where "map_ok A mh m es s" "tidy es" "lookup es = f" "entries_mh m = eh"
    "table_size m = 32" "unat (entry_count m) = card (dom f)" "length es = 32"
proof -
  obtain m es where *: "map_ok A mh m es s" "tidy es" "lookup es = f" "entries_mh m = eh"
    "table_size m = 32" "unat (entry_count m) = card (dom f)"
    using assms by (auto simp: home_map_def)
  moreover have "length es = 32" using map_okD(1) [OF *(1)] *(5) by (simp add: map_rep_def)
  ultimately show ?thesis by (rule that)
qed

lemma home_map_finite: "home_map A mh eh f s \<Longrightarrow> finite (dom f)"
  by (auto simp: home_map_def finite_lookup)

definition session_foot :: "mem_handle \<Rightarrow> mem_handle \<Rightarrow> 64 word set" where
  "session_foot mh eh = {pbase (h_data mh), pbase (h_data eh)}"

lemma foot_session: "entries_mh m = eh \<Longrightarrow> foot mh m = session_foot mh eh"
  by (simp add: foot_def session_foot_def)

lemma card_dom_new: "finite (dom f) \<Longrightarrow> f k = None \<Longrightarrow> card (insert k (dom f)) = Suc (card (dom f))"
  by (simp add: card_insert_disjoint domIff)

lemma dom_minus_absent: "f k = None \<Longrightarrow> dom f - {k} = dom f"
  by auto

context transparent_handles
begin

lemma map_set_known:
  assumes "map_ok A mh m es s" and "hash_known H F s key" and "transparent v" and "h_data v \<noteq> NULL"
  shows "map_set tb mh key v s = do_set tb mh (H key) v s"
proof (cases key)
  case (Str_key k)
  then show ?thesis
    using assms(2-4) hash_known_exec [of H F s k tb] map_is_valid_exec [OF map_okD(1) [OF assms(1)]]
    by (simp add: map_set_str_def cbind_apply transparent_p del: hash_known.simps)
next
  case (Ptr_key p)
  then show ?thesis using assms map_set_ptr_exec [OF assms(1,4)] by simp
qed

lemma map_get_known:
  assumes "map_ok A mh m es s" and "hash_known H F s key"
  shows "map_get tb mh key s =
    Inr (case lookup es (H key) of None \<Rightarrow> null_handle | Some v \<Rightarrow> v, s)"
proof (cases key)
  case (Str_key k)
  then show ?thesis
    using assms(2) hash_known_exec [of H F s k tb] map_is_valid_exec [OF map_okD(1) [OF assms(1)]]
      do_get_refines [OF assms(1)]
    by (simp add: map_get_str_def cbind_apply del: hash_known.simps)
next
  case (Ptr_key p)
  then show ?thesis using assms map_get_ptr_exec [OF assms(1)] by simp
qed

lemma map_delete_known:
  assumes "hash_known H F s key"
  shows "map_delete tb mh key s = do_delete tb mh (H key) s"
proof (cases key)
  case (Str_key k)
  then show ?thesis
    using assms hash_known_exec [of H F s k tb]
    by (simp add: map_delete_str_def cbind_apply del: hash_known.simps)
qed (use assms in \<open>simp add: map_delete_ptr_def\<close>)

lemma put_step:
  assumes M: "home_map A mh eh f s" and k: "k \<noteq> 0" and n: "k \<in> dom f \<or> card (dom f) < 16"
    and sep: "separate (insert k (dom f))"
  shows "runs (do_set tb mh k v) s (\<lambda>r t. r \<and> frame (session_foot mh eh) s t \<and>
    home_map A mh eh (f(k \<mapsto> v)) t)"
proof -
  obtain m es where ok: "map_ok A mh m es s" and td: "tidy es" and lk: "lookup es = f"
      and m: "entries_mh m = eh" "table_size m = 32" "unat (entry_count m) = card (dom f)"
      and len: "length es = 32"
    using M by (rule home_mapE)
  have room: "2 * (unat (entry_count m) + 1) \<le> unat (table_size m)" if "lookup es k = None"
    using m n lk by (auto simp: that)
  have up: "unat (entry_count m + 1) = Suc (card (dom f))" if "f k = None"
    using m n that by (intro trans [OF unat_next [of _ 16]]) auto
  have "at_home (es[i := \<lparr>key_hash = k, value_handle = v\<rparr>])" if "probe es k = Some i" for i
    using that separate_home [OF sep len, of k] lk td
    by (intro at_home_put [OF _ map_okD(2) [OF ok]]) (auto simp: tidy_def)
  then have "tidy (es[i := \<lparr>key_hash = k, value_handle = v\<rparr>])" if "probe es k = Some i" for i
    using that k by (intro tidy_update [OF td]) simp_all
  then show ?thesis
    using lk m up home_map_finite [OF M]
    by (intro runs_conseq [OF do_set_at [OF ok k room]])
      (auto simp: foot_session [OF m(1)] insert_absorb domI card_dom_new intro!: home_mapI split: if_splits)
qed

lemma drop_step:
  assumes M: "home_map A mh eh f s"
  shows "runs (do_delete tb mh k) s (\<lambda>r t. (r \<longleftrightarrow> f k \<noteq> None) \<and> frame (session_foot mh eh) s t \<and>
    home_map A mh eh (f(k := None)) t)"
proof -
  obtain m es where ok: "map_ok A mh m es s" and td: "tidy es" and lk: "lookup es = f"
      and m: "entries_mh m = eh" "table_size m = 32" "unat (entry_count m) = card (dom f)"
    using M by (rule home_mapE)
  have keep: "\<not> (unat (entry_count m) \<le> unat (table_size m) div 4 \<and> 32 < unat (table_size m))"
    using m by simp
  have ah: "at_home es" using td by (simp add: tidy_def)
  have down: "unat (entry_count m - 1) = card (dom f) - 1" if there: "f k \<noteq> None"
  proof -
    obtain v where "lookup es k = Some v" using there lk by auto
    then obtain i where "i < length es" "key_hash (es ! i) \<noteq> 0"
      by (auto simp: lookup_iff [OF map_okD(2) [OF ok]])
    from counted_remove(2) [OF map_okD(3) [OF ok] this] show ?thesis using m by simp
  qed
  show ?thesis
    using lk m down td tidy_update [OF td at_home_remove [OF ah]] home_map_finite [OF M]
    by (intro runs_conseq [OF do_delete_slots [OF ok keep at_home_removable [OF ah]]])
      (auto simp: foot_session [OF m(1)] card_Diff_singleton domI dom_minus_absent intro!: home_mapI split: if_splits)
qed

lemma perform_key_step:
  assumes M: "home_map A mh eh f s" and c: "call_ok H (session_foot mh eh) s c"
    and n: "card (dom (key_effect H c f)) \<le> 16" and sep: "separate (set (puts H [c]) \<union> dom f)"
  shows "runs (perform_key tb mh c) s (\<lambda>r t. r = reply_to H f c \<and> frame (session_foot mh eh) s t \<and>
    home_map A mh eh (key_effect H c f) t)"
proof -
  obtain m es where ok: "map_ok A mh m es s" and lk: "lookup es = f"
    using M by (auto simp: home_map_def)
  show ?thesis
  proof (cases c)
    case (Put key v)
    then have "map_set tb mh key v s = do_set tb mh (H key) v s"
      using c by (intro map_set_known [OF ok]) (auto simp: call_ok_def)
    moreover have "runs (do_set tb mh (H key) v) s (\<lambda>r t. r \<and> frame (session_foot mh eh) s t \<and>
        home_map A mh eh (f(H key \<mapsto> v)) t)"
      using Put c n sep card_dom_new [OF home_map_finite [OF M], of "H key"]
      by (cases "f (H key)") (intro put_step [OF M]; auto simp: call_ok_def domIff)+
    ultimately show ?thesis using Put by (auto simp: runs_def cbind_apply split: sum.splits)
  next
    case (Look key)
    then have "map_get tb mh key s =
        Inr (case lookup es (H key) of None \<Rightarrow> null_handle | Some v \<Rightarrow> v, s)"
      using c by (intro map_get_known [OF ok]) (auto simp: call_ok_def)
    then show ?thesis using Look M lk by (simp add: runs_def cbind_apply)
  next
    case (Drop key)
    then have "map_delete tb mh key s = do_delete tb mh (H key) s"
      using c by (intro map_delete_known) (auto simp: call_ok_def)
    moreover have "runs (do_delete tb mh (H key)) s (\<lambda>r t. (r \<longleftrightarrow> f (H key) \<noteq> None) \<and>
        frame (session_foot mh eh) s t \<and> home_map A mh eh (f(H key := None)) t)"
      by (rule drop_step [OF M])
    ultimately show ?thesis using Drop by (auto simp: runs_def cbind_apply split: sum.splits)
  qed
qed

lemma puts_Cons: "puts H (c # cs) = puts H [c] @ puts H cs"
  by (cases c) simp_all

lemma key_effect_dom: "dom (key_effect H c f) \<subseteq> set (puts H [c]) \<union> dom f"
  by (cases c) auto

lemma perform_keys_refines:
  assumes "home_map A mh eh f s" and "\<forall>c \<in> set cs. call_ok H (session_foot mh eh) s c"
    and "within H f cs" and "separate (set (puts H cs) \<union> dom f)"
  shows "runs (perform_keys tb mh cs) s (\<lambda>rs t. rs = key_replies H f cs)"
  using assms
proof (induction cs arbitrary: f s)
  case (Cons c cs)
  note split = puts_Cons [of H c cs]
  have "runs (perform_key tb mh c) s (\<lambda>r t. r = reply_to H f c \<and> frame (session_foot mh eh) s t \<and>
      home_map A mh eh (key_effect H c f) t)"
    using Cons.prems split by (intro perform_key_step) (auto elim: separate_mono)
  then show ?case
    unfolding perform_keys.simps runs_cbind runs_ret
  proof (rule runs_conseq, elim conjE)
    fix r t assume r: "r = reply_to H f c" and fr: "frame (session_foot mh eh) s t"
      and M: "home_map A mh eh (key_effect H c f) t"
    have "\<forall>d \<in> set cs. call_ok H (session_foot mh eh) t d"
      using Cons.prems(2) hash_known_frame [OF _ fr] by (auto simp: call_ok_def)
    moreover have "within H (key_effect H c f) cs" using Cons.prems(3) by simp
    moreover have "separate (set (puts H cs) \<union> dom (key_effect H c f))"
      using Cons.prems(4) key_effect_dom [of H c f] split by (auto elim!: separate_mono)
    ultimately have "runs (perform_keys tb mh cs) t (\<lambda>rs u. rs = key_replies H (key_effect H c f) cs)"
      by (intro Cons.IH [OF M])
    then show "runs (perform_keys tb mh cs) t (\<lambda>rs u. r # rs = key_replies H f (c # cs))"
      using r by (auto elim: runs_conseq)
  qed
qed (simp add: runs_def)

end

section \<open>The property\<close>

lemma hash_known_fresh:
  assumes "hash_known H {} s key" and "heap s (pbase (h_data mh)) = None" and "heap s (pbase (h_data eh)) = None"
    and "\<And>a. a \<notin> session_foot mh eh \<Longrightarrow> heap t a = heap s a"
  shows "hash_known H (session_foot mh eh) t key"
proof (cases key)
  case (Str_key k)
  then obtain cs where cs: "str_rep k cs s" "length cs < 2 ^ 32" "H key = foldl fnv_step FNV_OFFSET (0 # cs)"
    using assms(1) by auto
  have "heap s (pbase (h_data k)) \<noteq> None" using str_repD(2) [OF cs(1)] by (auto simp: chars_at_def)
  then have apart: "pbase (h_data k) \<notin> session_foot mh eh"
    using assms(2,3) by (auto simp: session_foot_def)
  then have "str_rep k cs t" using assms(4) by (intro str_rep_frame [OF cs(1)])
  then show ?thesis using Str_key cs apart by auto
qed (use assms(1) in simp)

text \<open>
  C5. Any sequence of set, get and delete calls on str and pointer keys of a newly created map,
  never faults and is answered as the partial function from hashes to values answers it, if at most
  16 keys are stored at any time, the hashes that are stored have different home slots in the
  table (so that no deletion breaks a probe sequence) and are not 0.
\<close>

theorem map_keys_session:
  assumes "\<forall>c \<in> set cs. call_ok H {} s c" and "within H Map.empty cs" and "separate (set (puts H cs))"
  shows "runs (map_create tb MEM_ALLOCATOR_PLAIN) s (\<lambda>mh t. h_data mh \<noteq> NULL \<longrightarrow>
    runs (perform_keys tb mh cs) t (\<lambda>rs u. rs = key_replies H Map.empty cs))"
proof (rule runs_conseq [OF plain.map_create_runs], intro impI, elim conjE)
  fix mh t
  assume "if h_data mh = NULL then mh = null_handle \<and> heap t = heap s
      else created MEM_ALLOCATOR_PLAIN s mh t" and "h_data mh \<noteq> NULL"
  then obtain eh where ok: "map_ok MEM_ALLOCATOR_PLAIN mh (empty_map eh) (replicate 32 zero_entry) t"
      and new: "heap s (pbase (h_data mh)) = None" "heap s (pbase (h_data eh)) = None"
      and rest: "\<And>a. a \<notin> session_foot mh eh \<Longrightarrow> heap t a = heap s a"
    using foot_session [of "empty_map _" _ mh] by (auto simp: created_def empty_map_def)
  have "home_map MEM_ALLOCATOR_PLAIN mh eh Map.empty t"
    using ok by (rule home_mapI) (simp_all add: empty_map_def)
  moreover have "\<forall>c \<in> set cs. call_ok H (session_foot mh eh) t c"
    using assms(1) hash_known_fresh [OF _ new rest] by (auto simp: call_ok_def)
  ultimately show "runs (perform_keys tb mh cs) t (\<lambda>rs u. rs = key_replies H Map.empty cs)"
    using assms(2,3) by (intro plain.perform_keys_refines [where f = Map.empty]) simp_all
qed

text \<open>Two copies of a text, and a state in which a map can be created beside them.\<close>

definition text_at :: "64 word \<Rightarrow> mem_handle" where
  "text_at a = mem_handle_from_ptr (Ptr a 0) 3"

definition keys_state :: cstate where
  "keys_state = create_state\<lparr>heap :=
     [0x7000 \<mapsto> text_block [72, 101, 108], 0x8000 \<mapsto> text_block [72, 101, 108]]\<rparr>"

definition sample_hashes :: "map_key \<Rightarrow> uint" where
  "sample_hashes key = (case key of Ptr_key p \<Rightarrow> hash_ptr p | Str_key k \<Rightarrow> 0x3b132754)"

definition sample_calls :: "key_call list" where
  "sample_calls =
     [Put (Str_key (text_at 0x7000)) sample_value, Put (Ptr_key (Ptr 0x3000 0)) sample_value,
      Look (Str_key (text_at 0x8000)), Drop (Str_key (text_at 0x8000)), Look (Str_key (text_at 0x7000)),
      Look (Ptr_key (Ptr 0x3000 0)), Drop (Str_key (text_at 0x7000))]"

lemma keys_created:
  "runs (map_create (memtbl_ops 0) MEM_ALLOCATOR_PLAIN) keys_state (\<lambda>mh t. h_data mh \<noteq> NULL)"
  by code_simp

lemma keys_text: "a = 0x7000 \<or> a = 0x8000 \<Longrightarrow> str_rep (text_at a) [72, 101, 108] keys_state"
  by (auto simp: str_rep_def transparent_def mem_handle_from_ptr_def chars_at_def block_bytes_def
      keys_state_def text_block_def text_at_def)

lemma keys_known: "a = 0x7000 \<or> a = 0x8000 \<Longrightarrow> hash_known sample_hashes {} keys_state (Str_key (text_at a))"
proof -
  assume "a = 0x7000 \<or> a = 0x8000"
  moreover have "0x3b132754 = foldl fnv_step FNV_OFFSET [0, 72, 101, 108]" by code_simp
  ultimately show ?thesis by (auto simp: sample_hashes_def intro!: exI [of _ "[72, 101, 108]"] keys_text)
qed

lemma sample_calls_ok: "\<forall>c \<in> set sample_calls. call_ok sample_hashes {} keys_state c"
proof -
  have "hash_ptr (Ptr 0x3000 0) \<noteq> 0" by code_simp
  then show ?thesis
    using keys_known
    by (auto simp: sample_calls_def call_ok_def sample_hashes_def sample_value_def transparent_def
        mem_handle_from_ptr_def simp del: hash_known.simps(2))
qed

theorem map_keys_session_witness:
  "runs (map_create (memtbl_ops 0) MEM_ALLOCATOR_PLAIN) keys_state (\<lambda>mh t. h_data mh \<noteq> NULL \<and>
     runs (perform_keys (memtbl_ops 0) mh sample_calls) t (\<lambda>rs u. rs =
       [Done True, Done True, Found sample_value, Done True, Found null_handle, Found sample_value, Done False]))"
proof -
  have p: "hash_ptr (Ptr 0x3000 0) = 1648816476" by code_simp
  have "separate (set (puts sample_hashes sample_calls))"
    using p by (simp add: separate_def sample_calls_def sample_hashes_def)
  moreover have "within sample_hashes Map.empty sample_calls"
    using p by (simp add: sample_calls_def sample_hashes_def)
  moreover have "key_replies sample_hashes Map.empty sample_calls =
      [Done True, Done True, Found sample_value, Done True, Found null_handle, Found sample_value, Done False]"
    using p by (simp add: sample_calls_def sample_hashes_def)
  ultimately show ?thesis
    using map_keys_session [OF sample_calls_ok, of "memtbl_ops 0"] keys_created
    by (auto simp: runs_def split: sum.splits)
qed

end
