(* ===== verification/Ds_Memtbl_Session.thy ===== *)
theory Ds_Memtbl_Session
  imports Ds_Memtbl_Props Ds_Map_Session
begin

text \<open>
  Sessions on a memory table: allocations, resizes and releases through the handle layer, and the
  destruction of the table, with a second instance of \<open>handle_store\<close> in which every entry of the
  map is at home.
\<close>

section \<open>A map with every entry at home as the store of a table\<close>

definition home_store ::
  "uint set \<Rightarrow> mem_handle \<Rightarrow> mem_handle \<Rightarrow> (uint \<rightharpoonup> mem_handle) \<Rightarrow> nat \<Rightarrow> cstate \<Rightarrow> bool" where
  "home_store K mh eh f n s \<longleftrightarrow> home_map MEM_ALLOCATOR_PLAIN mh eh f s \<and> card (dom f) + n \<le> 16 \<and>
     separate K \<and> 0 \<notin> K \<and> dom f \<subseteq> K"

lemma home_storeD:
  assumes "home_store K mh eh f n s"
  shows "home_map MEM_ALLOCATOR_PLAIN mh eh f s" "card (dom f) + n \<le> 16" "separate K" "0 \<notin> K"
    "dom f \<subseteq> K" "finite (dom f)"
  using assms home_map_finite by (auto simp: home_store_def)

lemma home_map_rep:
  assumes "home_map A mh eh f s"
  obtains m es where "map_ok A mh m es s" "map_rep A mh m es s" "entries_mh m = eh" "lookup es = f"
    "foot mh m = session_foot mh eh"
proof -
  obtain m es where "map_ok A mh m es s" "entries_mh m = eh" "lookup es = f"
    using assms by (rule home_mapE)
  then show ?thesis using that map_okD(1) foot_session by blast
qed

lemma home_map_frame:
  "home_map A mh eh f s \<Longrightarrow> \<forall>a \<in> session_foot mh eh. heap t a = heap s a \<Longrightarrow> home_map A mh eh f t"
  unfolding home_map_def using foot_session by (metis map_ok_foot)

lemma home_store_set:
  assumes "home_store K mh eh f (Suc n) s" and "hash_ptr p \<in> K" and "h_data v \<noteq> NULL"
  shows "runs (map_set_ptr tb mh p v) s (\<lambda>r t. r \<and> frame (session_foot mh eh) s t \<and>
    home_store K mh eh (f(hash_ptr p \<mapsto> v)) n t)"
proof -
  note D = home_storeD [OF assms(1)]
  obtain m es where ok: "map_ok MEM_ALLOCATOR_PLAIN mh m es s" using D(1) by (rule home_map_rep)
  have "runs (do_set tb mh (hash_ptr p) v) s (\<lambda>r t. r \<and> frame (session_foot mh eh) s t \<and>
      home_map MEM_ALLOCATOR_PLAIN mh eh (f(hash_ptr p \<mapsto> v)) t)"
    using D(2-5) assms(2) by (intro plain.put_step [OF D(1)]) (auto intro: separate_mono [OF D(3)])
  moreover have "card (insert (hash_ptr p) (dom f)) + n \<le> 16"
    using D(2,6) by (simp add: card_insert_if)
  ultimately show ?thesis
    unfolding plain.map_set_ptr_exec [OF ok assms(3)] runs_def
    using D assms(2) by (auto simp: home_store_def plain.map_set_ptr_exec [OF ok assms(3)] split: sum.splits)
qed

interpretation home_table: handle_store tb mh "home_store K mh eh" "session_foot mh eh" "\<lambda>k. k \<in> K"
    "\<lambda>_ _. True" for tb K mh eh
proof unfold_locales
  fix f n s assume st: "home_store K mh eh f n s"
  then obtain m es where rep: "map_rep MEM_ALLOCATOR_PLAIN mh m es s" "entries_mh m = eh"
    using home_storeD(1) [OF st] by (auto elim: home_map_rep)
  then show "h_data mh \<noteq> NULL" by (auto simp: map_rep_def owned_def)
  fix a assume "a \<in> session_foot mh eh"
  then show "heap s a \<noteq> None" using rep by (auto simp: session_foot_def map_rep_def owned_def)
next
  fix f n s and t :: cstate
  assume "home_store K mh eh f n s" and "\<forall>a \<in> session_foot mh eh. heap t a = heap s a"
  then show "home_store K mh eh f n t" by (auto simp: home_store_def intro: home_map_frame)
next
  fix f n s p assume st: "home_store K mh eh f n s"
  show "map_get_ptr tb mh p s = Inr (case f (hash_ptr p) of None \<Rightarrow> null_handle | Some v \<Rightarrow> v, s)"
    using home_storeD(1) [OF st] by (auto elim!: home_map_rep simp: plain.map_get_ptr_exec)
next
  fix f n s p assume st: "home_store K mh eh f n s" and no: "f (hash_ptr p) = None"
  obtain m es where ok: "map_ok MEM_ALLOCATOR_PLAIN mh m es s" and f: "lookup es = f"
    using home_storeD(1) [OF st] by (rule home_map_rep)
  obtain i where p: "probe es (hash_ptr p) = Some i" using map_okD(1,3) [OF ok] by (rule map_rep_probe)
  have "key_hash (es ! i) = 0" using no f lookup_empty_slot [OF p] by simp
  then show "map_delete_ptr tb mh p s = Inr (False, s)"
    unfolding map_delete_ptr_def by (rule plain.do_delete_absent [OF map_okD(1) [OF ok] p])
next
  fix f n s p v assume st: "home_store K mh eh f n s" and v: "f (hash_ptr p) = Some v"
  note D = home_storeD [OF st]
  have "card (dom f - {hash_ptr p}) \<le> card (dom f)" using D(6) by (intro card_mono) auto
  then show "runs (map_delete_ptr tb mh p) s (\<lambda>r t. r \<and> frame (session_foot mh eh) s t \<and>
      home_store K mh eh (f(hash_ptr p := None)) n t)"
    unfolding map_delete_ptr_def using v D
    by (intro runs_conseq [OF plain.drop_step [OF D(1)]]) (auto simp: home_store_def)
qed (rule home_store_set; assumption | simp)+

section \<open>The state of a table between two calls\<close>

text \<open>The addresses the system allocator may give, and their hashes.\<close>

definition answer_set :: "cstate \<Rightarrow> 64 word set" where
  "answer_set s = range (answers s) - {0}"

definition answer_hashes :: "cstate \<Rightarrow> uint set" where
  "answer_hashes s = (\<lambda>a. hash_ptr (Ptr a 0)) ` answer_set s"

definition apart_answers :: "cstate \<Rightarrow> bool" where
  "apart_answers s \<longleftrightarrow> 0 \<notin> answer_hashes s \<and> inj_on (\<lambda>a. unat (hash_ptr (Ptr a 0)) mod 32) (answer_set s)"

lemma apart_answers_separate: "apart_answers s \<Longrightarrow> separate (answer_hashes s)"
  by (auto simp: apart_answers_def separate_def answer_hashes_def inj_on_def)

lemma apart_answers_inj:
  "apart_answers s \<Longrightarrow> a \<in> answer_set s \<Longrightarrow> b \<in> answer_set s \<Longrightarrow>
   hash_ptr (Ptr a 0) = hash_ptr (Ptr b 0) \<Longrightarrow> a = b"
  by (auto simp: apart_answers_def inj_on_def)

definition table_bases :: "mem_handle \<Rightarrow> mem_handle \<Rightarrow> mem_handle \<Rightarrow> 64 word set" where
  "table_bases mth mh eh = {pbase (h_data mth), pbase (h_data mh), pbase (h_data eh)}"

text \<open>
  \<open>known s0 mth F s k v\<close>: \<open>v\<close> is a live allocation of the table \<open>mth\<close>, stored under the hash of its
  address, which was free in \<open>s0\<close> and is none of the blocks \<open>F\<close> of the table.
\<close>

definition known :: "cstate \<Rightarrow> mem_handle \<Rightarrow> 64 word set \<Rightarrow> cstate \<Rightarrow> uint \<Rightarrow> mem_handle \<Rightarrow> bool" where
  "known s0 mth F s k v \<longleftrightarrow> k = hash_ptr (h_data v) \<and> h_alloc v = mem_allocator_memtbl mth \<and>
     (\<exists>b. owned s v b \<and> b_content b = Fresh) \<and> pbase (h_data v) \<in> answer_set s0 \<and>
     heap s0 (pbase (h_data v)) = None \<and> pbase (h_data v) \<notin> F"

definition bases_of :: "(uint \<rightharpoonup> mem_handle) \<Rightarrow> 64 word set" where
  "bases_of f = (\<lambda>v. pbase (h_data v)) ` ran f"

text \<open>
  \<open>table_inv s0 mth mh eh f s\<close>: the table knows the live allocations \<open>f\<close>, and the heap differs from
  \<open>s0\<close> in the blocks of the table and in these allocations only.
\<close>

definition table_inv ::
  "cstate \<Rightarrow> mem_handle \<Rightarrow> mem_handle \<Rightarrow> mem_handle \<Rightarrow> (uint \<rightharpoonup> mem_handle) \<Rightarrow> cstate \<Rightarrow> bool" where
  "table_inv s0 mth mh eh f s \<longleftrightarrow> env_same s0 s \<and> table_at mth mh s \<and>
     home_map MEM_ALLOCATOR_PLAIN mh eh f s \<and> h_alloc mth = MEM_ALLOCATOR_PLAIN \<and> (\<exists>b. owned s mth b) \<and>
     pbase (h_data mth) \<notin> session_foot mh eh \<and> (\<forall>a \<in> table_bases mth mh eh. heap s0 a = None) \<and>
     (\<forall>k v. f k = Some v \<longrightarrow> known s0 mth (table_bases mth mh eh) s k v) \<and>
     (\<forall>a. a \<notin> table_bases mth mh eh \<union> bases_of f \<longrightarrow> heap s a = heap s0 a)"

lemma table_invD:
  assumes "table_inv s0 mth mh eh f s"
  shows "env_same s0 s" "table_at mth mh s" "home_map MEM_ALLOCATOR_PLAIN mh eh f s"
    "h_alloc mth = MEM_ALLOCATOR_PLAIN" "\<exists>b. owned s mth b" "pbase (h_data mth) \<notin> session_foot mh eh"
    "\<And>a. a \<in> table_bases mth mh eh \<Longrightarrow> heap s0 a = None"
    "\<And>k v. f k = Some v \<Longrightarrow> known s0 mth (table_bases mth mh eh) s k v"
    "\<And>a. a \<notin> table_bases mth mh eh \<union> bases_of f \<Longrightarrow> heap s a = heap s0 a"
    "finite (dom f)"
  using assms home_map_finite unfolding table_inv_def by blast+

lemma knownD:
  assumes "known s0 mth F s k v"
  obtains b where "k = hash_ptr (h_data v)" "h_alloc v = mem_allocator_memtbl mth" "owned s v b"
    "b_content b = Fresh" "pbase (h_data v) \<in> answer_set s0" "heap s0 (pbase (h_data v)) = None"
    "pbase (h_data v) \<notin> F" "h_data v = Ptr (pbase (h_data v)) 0"
proof -
  have "h_data v = Ptr (pbase (h_data v)) 0"
    using assms by (cases "h_data v") (auto simp: known_def owned_def)
  then show ?thesis using that assms unfolding known_def by blast
qed

lemma known_frame:
  "known s0 mth F s k v \<Longrightarrow> heap t (pbase (h_data v)) = heap s (pbase (h_data v)) \<Longrightarrow> known s0 mth F t k v"
  by (simp add: known_def owned_def)

text \<open>Two allocations that the table knows under different hashes are different blocks.\<close>

lemma known_base_inj:
  assumes "known s0 mth F s k v" and "known s0 mth F s k' v'" and "pbase (h_data v) = pbase (h_data v')"
  shows "k = k'"
  using assms by (metis knownD)

lemma table_inv_store:
  assumes I: "table_inv s0 mth mh eh f s" and A: "apart_answers s0" and n: "card (dom f) + n \<le> 16"
  shows "home_store (answer_hashes s0) mh eh f n s"
proof -
  have "dom f \<subseteq> answer_hashes s0"
  proof
    fix k assume "k \<in> dom f"
    then obtain v where "f k = Some v" by auto
    from table_invD(8) [OF I this] show "k \<in> answer_hashes s0"
      unfolding answer_hashes_def by (metis imageI knownD)
  qed
  then show ?thesis
    using table_invD(3) [OF I] n A apart_answers_separate [OF A]
    by (simp add: home_store_def apart_answers_def)
qed

text \<open>An address that the allocator gives and that is free has no entry.\<close>

lemma fresh_unknown:
  assumes I: "table_inv s0 mth mh eh f s" and A: "apart_answers s0"
    and a: "a \<in> answer_set s0" "heap s a = None"
  shows "f (hash_ptr (Ptr a 0)) = None"
proof (cases "f (hash_ptr (Ptr a 0))")
  case (Some v)
  from table_invD(8) [OF I Some] obtain b where v: "hash_ptr (Ptr a 0) = hash_ptr (h_data v)" "owned s v b"
      "pbase (h_data v) \<in> answer_set s0" "h_data v = Ptr (pbase (h_data v)) 0"
    by (rule knownD)
  have "a = pbase (h_data v)" using v(1,4) by (intro apart_answers_inj [OF A a(1) v(3)]) metis
  then show ?thesis using v(2) a(2) by (simp add: owned_def)
qed

lemma table_inv_live:
  assumes I: "table_inv s0 mth mh eh f s" and a: "a \<in> table_bases mth mh eh \<union> bases_of f"
  shows "heap s a \<noteq> None"
proof -
  obtain m es where rep: "map_rep MEM_ALLOCATOR_PLAIN mh m es s" "entries_mh m = eh"
    using table_invD(3) [OF I] by (rule home_map_rep)
  show ?thesis
  proof (cases "a \<in> bases_of f")
    case True
    then obtain k v where v: "f k = Some v" "a = pbase (h_data v)" by (auto simp: bases_of_def ran_def)
    from table_invD(8) [OF I v(1)] show ?thesis by (rule knownD) (simp add: owned_def v(2))
  next
    case False
    then show ?thesis
      using a rep table_invD(5) [OF I] by (auto simp: table_bases_def map_rep_def owned_def)
  qed
qed

lemma table_inv_fresh:
  "table_inv s0 mth mh eh f s \<Longrightarrow> heap s a = None \<Longrightarrow>
   a \<notin> table_bases mth mh eh \<and> a \<notin> bases_of f \<and> heap s0 a = None"
  using table_inv_live [of s0 mth mh eh f s a] table_invD(9) [of s0 mth mh eh f s a] by (metis Un_iff)

lemma table_bases_foot: "session_foot mh eh \<subseteq> table_bases mth mh eh"
  by (auto simp: session_foot_def table_bases_def)

text \<open>How a step keeps the invariant: what it may change and what it must provide.\<close>

lemma table_inv_step:
  assumes I: "table_inv s0 mth mh eh f s" and e: "env_same s t" and tab: "table_at mth mh t"
    and M: "home_map MEM_ALLOCATOR_PLAIN mh eh g t"
    and rest: "\<And>a. a \<notin> session_foot mh eh \<Longrightarrow> a \<notin> C \<Longrightarrow> heap t a = heap s a"
    and C: "C \<inter> table_bases mth mh eh = {}"
    and new: "\<And>k v. g k = Some v \<Longrightarrow> pbase (h_data v) \<notin> C \<and> f k = Some v \<or>
      known s0 mth (table_bases mth mh eh) t k v"
    and gone: "\<And>a. a \<in> C \<Longrightarrow> a \<notin> bases_of g \<Longrightarrow> heap t a = heap s0 a"
    and kept: "bases_of f \<subseteq> bases_of g \<union> C"
  shows "table_inv s0 mth mh eh g t"
proof -
  note D = table_invD [OF I]
  have "env_same s0 t" using D(1) e by (rule env_same_trans)
  moreover have "\<exists>b. owned t mth b"
    using D(5,6) rest [of "pbase (h_data mth)"] C by (auto simp: owned_def table_bases_def)
  moreover have "known s0 mth (table_bases mth mh eh) t k v" if g: "g k = Some v" for k v
    using new [OF g]
  proof
    assume v: "pbase (h_data v) \<notin> C \<and> f k = Some v"
    then have kn: "known s0 mth (table_bases mth mh eh) s k v" using D(8) by blast
    then have "pbase (h_data v) \<notin> session_foot mh eh"
      using table_bases_foot [of mh eh mth] unfolding known_def by blast
    then show ?thesis using v rest by (intro known_frame [OF kn]) auto
  qed
  moreover have "heap t a = heap s0 a" if a: "a \<notin> table_bases mth mh eh \<union> bases_of g" for a
  proof (cases "a \<in> C")
    case True
    then show ?thesis using gone a by blast
  next
    case False
    then have "heap t a = heap s a" using rest a table_bases_foot [of mh eh mth] by blast
    then show ?thesis using D(9) [of a] a False kept by auto
  qed
  ultimately show ?thesis using D(4,6,7) tab M unfolding table_inv_def by blast
qed

lemma answer_in_set: "env_same s0 s \<Longrightarrow> answers s (calls s) \<noteq> 0 \<Longrightarrow> answers s (calls s) \<in> answer_set s0"
  by (auto simp: answer_set_def env_same_def)

lemma answer_hash: "a \<in> answer_set s \<Longrightarrow> hash_ptr (Ptr a 0) \<in> answer_hashes s"
  by (simp add: answer_hashes_def)

lemma bases_ofI: "f k = Some v \<Longrightarrow> pbase (h_data v) \<in> bases_of f"
  by (auto simp: bases_of_def ran_def)

lemma bases_ofE:
  assumes "a \<in> bases_of f"
  obtains k v where "f k = Some v" "a = pbase (h_data v)"
  using assms by (auto simp: bases_of_def ran_def)

lemma bases_of_put: "f k = None \<Longrightarrow> bases_of (f(k \<mapsto> r)) = insert (pbase (h_data r)) (bases_of f)"
  by (simp add: bases_of_def)

lemma home_store_sigint [simp]: "home_store K mh eh f n (s\<lparr>sigint := x\<rparr>) = home_store K mh eh f n s"
  using home_table.frame_law [of K mh eh f n s "s\<lparr>sigint := x\<rparr>"]
    home_table.frame_law [of K mh eh f n "s\<lparr>sigint := x\<rparr>" s] by auto

lemma table_at_sigint [simp]: "table_at mth mh (s\<lparr>sigint := x\<rparr>) = table_at mth mh s"
  using table_at_frame [of mth mh s "s\<lparr>sigint := x\<rparr>"] table_at_frame [of mth mh "s\<lparr>sigint := x\<rparr>" s]
  by auto

lemma owned_sigint [simp]: "owned (s\<lparr>sigint := x\<rparr>) h b = owned s h b"
  by (simp add: owned_def)

section \<open>The calls\<close>

lemma session_alloc:
  assumes I: "table_inv s0 mth mh eh f s" and A: "apart_answers s0" and n: "card (dom f) < 16"
  shows "runs (mem_alloc (memtbl_ops (Suc d)) (mem_allocator_memtbl mth) sz) s (\<lambda>r t.
    if h_data r = NULL then r = null_handle \<and> table_inv s0 mth mh eh f t
    else h_alloc r = mem_allocator_memtbl mth \<and> f (hash_ptr (h_data r)) = None \<and>
      table_inv s0 mth mh eh (f(hash_ptr (h_data r) \<mapsto> r)) t)"
proof -
  note D = table_invD [OF I]
  let ?s = "s\<lparr>sigint := SIG_IGN\<rparr>" and ?a = "fresh_answer s" and ?K = "answer_hashes s0"
  have st: "home_store ?K mh eh f (Suc 0) ?s" using table_inv_store [OF I A, of "Suc 0"] n by simp
  have tab: "table_at mth mh ?s" using D(2) by simp
  have a: "?a \<in> answer_set s0" "heap s ?a = None" if "?a \<noteq> 0"
    using that answer_in_set [OF D(1)] by (auto simp: fresh_answer_def Let_def split: if_splits)
  have key: "fresh_answer ?s \<noteq> 0 \<longrightarrow> hash_ptr (Ptr (fresh_answer ?s) 0) \<in> ?K"
    using a answer_hash by simp
  have nn: "h_alloc (null_handle\<lparr>h_data := Ptr 1 0, h_alloc := mem_allocator_memtbl mth\<rparr>) = mem_allocator_memtbl mth"
    "h_data (null_handle\<lparr>h_data := Ptr 1 0, h_alloc := mem_allocator_memtbl mth\<rparr>) \<noteq> NULL"
    by (simp_all add: null_handle_def)
  show ?thesis
    unfolding mem_ops_memtbl(3) [OF nn]
  proof (rule sigint_guard_runs [OF home_table.memtbl_alloc_runs [OF tab st D(6) key]], elim conjE)
    fix r t
    assume e: "env_same ?s t" and tab': "table_at mth mh t"
      and post: "if h_data r = NULL then r = null_handle \<and> heap t = heap ?s \<and> home_store ?K mh eh f (Suc 0) t
        else r = \<lparr>h_data = Ptr (fresh_answer ?s) 0, h_size = sz, h_alloc = mem_allocator_memtbl mth\<rparr> \<and>
          heap ?s (fresh_answer ?s) = None \<and>
          heap t (fresh_answer ?s) = Some \<lparr>b_size = sz, b_heap = True, b_content = Fresh\<rparr> \<and>
          home_store ?K mh eh (f(hash_ptr (h_data r) \<mapsto> r)) 0 t \<and>
          (\<forall>a. a \<notin> insert (fresh_answer ?s) (session_foot mh eh) \<longrightarrow> heap t a = heap ?s a)"
    let ?t = "t\<lparr>sigint := sigint s\<rparr>"
    have e': "env_same s ?t" using e by (rule env_same_guard)
    show "if h_data r = NULL then r = null_handle \<and> table_inv s0 mth mh eh f ?t
      else h_alloc r = mem_allocator_memtbl mth \<and> f (hash_ptr (h_data r)) = None \<and>
        table_inv s0 mth mh eh (f(hash_ptr (h_data r) \<mapsto> r)) ?t"
    proof (cases "h_data r = NULL")
      case True
      then have "heap ?t = heap s" "home_map MEM_ALLOCATOR_PLAIN mh eh f ?t"
        using post home_storeD(1) [of ?K mh eh f "Suc 0" ?t] by simp_all
      then have "table_inv s0 mth mh eh f ?t"
        using tab' by (intro table_inv_step [OF I e', where C = "{}"]) auto
      then show ?thesis using post True by simp
    next
      case False
      then have r: "r = \<lparr>h_data = Ptr ?a 0, h_size = sz, h_alloc = mem_allocator_memtbl mth\<rparr>"
        and free: "heap s ?a = None"
        and blk: "heap t ?a = Some \<lparr>b_size = sz, b_heap = True, b_content = Fresh\<rparr>"
        and M: "home_store ?K mh eh (f(hash_ptr (h_data r) \<mapsto> r)) 0 ?t"
        and rest: "\<And>a. a \<notin> session_foot mh eh \<Longrightarrow> a \<notin> {?a} \<Longrightarrow> heap ?t a = heap s a"
        using post by auto
      have a0: "?a \<noteq> 0" using False r by auto
      note F = table_inv_fresh [OF I free]
      have none: "f (hash_ptr (h_data r)) = None"
        using fresh_unknown [OF I A a(1) [OF a0] free] r by simp
      have "known s0 mth (table_bases mth mh eh) ?t (hash_ptr (h_data r)) r"
        using F a [OF a0] blk a0 by (auto simp: known_def owned_def r)
      then have "table_inv s0 mth mh eh (f(hash_ptr (h_data r) \<mapsto> r)) ?t"
        using F none tab' home_storeD(1) [OF M] bases_of_put [of f "hash_ptr (h_data r)" r]
        by (intro table_inv_step [OF I e' _ _ rest, where C = "{?a}"])
          (auto simp: r dest: bases_ofI split: if_splits)
      then show ?thesis using none False by (simp add: r)
    qed
  qed
qed

text \<open>A handle the client may use: the table knows the block it is the address of.\<close>

definition client_handle :: "mem_handle \<Rightarrow> (uint \<rightharpoonup> mem_handle) \<Rightarrow> mem_handle \<Rightarrow> bool" where
  "client_handle mth f h \<longleftrightarrow> h_alloc h = mem_allocator_memtbl mth \<and>
     (\<exists>v. f (hash_ptr (h_data h)) = Some v \<and> h_data v = h_data h)"

lemma client_handleE:
  assumes I: "table_inv s0 mth mh eh f s" and h: "client_handle mth f h"
  obtains v b where "f (hash_ptr (h_data h)) = Some v" "h_data v = h_data h"
    "h_alloc h = mem_allocator_memtbl mth" "owned s h b" "b_content b = Fresh"
    "pbase (h_data h) \<notin> table_bases mth mh eh" "heap s0 (pbase (h_data h)) = None" "h_data h \<noteq> NULL"
    "pbase (h_data h) \<in> answer_set s0" "h_data h = Ptr (pbase (h_data h)) 0"
proof -
  obtain v where v: "f (hash_ptr (h_data h)) = Some v" "h_data v = h_data h" "h_alloc h = mem_allocator_memtbl mth"
    using h by (auto simp: client_handle_def)
  from table_invD(8) [OF I v(1)] obtain b where k: "owned s v b" "b_content b = Fresh"
      "pbase (h_data v) \<in> answer_set s0" "heap s0 (pbase (h_data v)) = None"
      "pbase (h_data v) \<notin> table_bases mth mh eh" "h_data v = Ptr (pbase (h_data v)) 0"
    by (rule knownD)
  have own: "owned s h b" using k(1) v(2) by (simp add: owned_def)
  show ?thesis
    by (rule that [OF v own k(2) k(5,4) [unfolded v(2)] owned_not_null [OF own] k(3,6) [unfolded v(2)]])
qed

lemma bases_of_drop:
  assumes I: "table_inv s0 mth mh eh f s" and v: "f k = Some v" and g: "g k' = Some v'" "g = f(k := None)"
  shows "pbase (h_data v') \<noteq> pbase (h_data v)"
proof
  assume eq: "pbase (h_data v') = pbase (h_data v)"
  have "f k' = Some v'" "k' \<noteq> k" using g by (auto split: if_splits)
  then show False
    using known_base_inj [OF table_invD(8) [OF I] table_invD(8) [OF I v] eq] by blast
qed

lemma bases_of_upd_sub: "f k = Some v \<Longrightarrow> bases_of f \<subseteq> insert (pbase (h_data v)) (bases_of (f(k := None)))"
proof
  fix a assume v: "f k = Some v" and "a \<in> bases_of f"
  then obtain j w where "f j = Some w" "a = pbase (h_data w)" by (auto simp: bases_of_def ran_def)
  then show "a \<in> insert (pbase (h_data v)) (bases_of (f(k := None)))"
    using v bases_ofI [of "f(k := None)" j w] by (cases "j = k") auto
qed

lemma session_free:
  assumes I: "table_inv s0 mth mh eh f s" and A: "apart_answers s0" and n: "card (dom f) \<le> 16"
    and h: "client_handle mth f h"
  shows "runs (mem_free (memtbl_ops (Suc d)) h) s (\<lambda>r t. r = null_handle \<and>
    table_inv s0 mth mh eh (f(hash_ptr (h_data h) := None)) t)"
proof -
  note D = table_invD [OF I]
  let ?s = "s\<lparr>sigint := SIG_IGN\<rparr>" and ?k = "hash_ptr (h_data h)" and ?K = "answer_hashes s0"
  obtain v b where v: "f ?k = Some v" "h_data v = h_data h" and al: "h_alloc h = mem_allocator_memtbl mth"
      and own: "owned s h b" and H: "pbase (h_data h) \<notin> table_bases mth mh eh"
        "heap s0 (pbase (h_data h)) = None" "h_data h \<noteq> NULL"
    using I h by (rule client_handleE)
  have st: "home_store ?K mh eh f 0 ?s" using table_inv_store [OF I A, of 0] n by simp
  have tab: "table_at mth mh ?s" "owned ?s h b" using D(2) own by simp_all
  have out: "pbase (h_data h) \<notin> session_foot mh eh" "pbase (h_data h) \<noteq> pbase (h_data mth)"
    using H(1) by (auto simp: table_bases_def session_foot_def)
  have step: "table_inv s0 mth mh eh (f(?k := None)) (t\<lparr>sigint := sigint s\<rparr>)"
    if e: "env_same ?s t" and M: "home_store ?K mh eh (f(?k := None)) 0 t" and tab': "table_at mth mh t"
      and gone: "heap t (pbase (h_data h)) = None"
      and rest: "\<forall>a. a \<notin> insert (pbase (h_data h)) (session_foot mh eh) \<longrightarrow> heap t a = heap ?s a" for t
  proof (rule table_inv_step [OF I env_same_guard [OF e], where C = "{pbase (h_data h)}"])
    show "home_map MEM_ALLOCATOR_PLAIN mh eh (f(?k := None)) (t\<lparr>sigint := sigint s\<rparr>)"
      using home_storeD(1) [of ?K mh eh _ 0 "t\<lparr>sigint := sigint s\<rparr>"] M by simp
    show "bases_of f \<subseteq> bases_of (f(?k := None)) \<union> {pbase (h_data h)}"
      using bases_of_upd_sub [of f ?k v] v by simp
    show "pbase (h_data v') \<notin> {pbase (h_data h)} \<and> f k = Some v' \<or>
        known s0 mth (table_bases mth mh eh) (t\<lparr>sigint := sigint s\<rparr>) k v'"
      if "(f(?k := None)) k = Some v'" for k v'
      using bases_of_drop [OF I v(1) that refl] that v(2) by (auto split: if_splits)
  qed (use tab' H gone rest in auto)
  show ?thesis
    unfolding mem_ops_memtbl(1) [OF al H(3)]
    by (rule sigint_guard_runs [OF home_table.memtbl_free_runs [OF tab(1) st D(6) al tab(2) v TrueI out]])
      (use step in auto)
qed

text \<open>A resize in place: the block of a known handle has a new size.\<close>

lemma table_inv_in_place:
  assumes I: "table_inv s0 mth mh eh f s" and e: "env_same s t" and tab: "table_at mth mh t"
    and M: "home_map MEM_ALLOCATOR_PLAIN mh eh f t"
    and v: "f k = Some v" and b: "owned t v b" "b_content b = Fresh"
    and rest: "\<And>y. y \<notin> session_foot mh eh \<Longrightarrow> y \<noteq> pbase (h_data v) \<Longrightarrow> heap t y = heap s y"
  shows "table_inv s0 mth mh eh f t"
proof (rule table_inv_step [OF I e tab M, where C = "{pbase (h_data v)}"])
  note D = table_invD [OF I]
  fix j w assume w: "f j = Some w"
  show "pbase (h_data w) \<notin> {pbase (h_data v)} \<and> f j = Some w \<or>
      known s0 mth (table_bases mth mh eh) t j w"
  proof (cases "pbase (h_data w) = pbase (h_data v)")
    case True
    then have "j = k" using known_base_inj [OF D(8) [OF w] D(8) [OF v]] by blast
    then have "w = v" using w v by simp
    then show ?thesis using D(8) [OF w] b by (auto simp: known_def)
  qed (use w in simp)
next
  show "{pbase (h_data v)} \<inter> table_bases mth mh eh = {}"
    using table_invD(8) [OF I v] by (simp add: known_def)
qed (use rest bases_ofI [of f k v] v in auto)

text \<open>A resize that moves the block: the new handle is known, the old one is not.\<close>

lemma table_inv_moved:
  assumes I: "table_inv s0 mth mh eh f s" and e: "env_same s t" and tab: "table_at mth mh t"
    and v: "f k = Some v" and k': "f k' = None" "k' = hash_ptr (Ptr a 0)"
    and r: "h_data r = Ptr a 0" "h_alloc r = mem_allocator_memtbl mth"
    and M: "home_map MEM_ALLOCATOR_PLAIN mh eh (f(k' \<mapsto> r, k := None)) t"
    and a: "a \<noteq> 0" "heap s a = None" "a \<in> answer_set s0"
    and b: "heap t a = Some b" "b_heap b" "b_content b = Fresh" and gone: "heap t (pbase (h_data v)) = None"
    and rest: "\<And>y. y \<notin> session_foot mh eh \<Longrightarrow> y \<noteq> pbase (h_data v) \<Longrightarrow> y \<noteq> a \<Longrightarrow> heap t y = heap s y"
  shows "table_inv s0 mth mh eh (f(k' \<mapsto> r, k := None)) t"
proof (rule table_inv_step [OF I e tab M, where C = "{pbase (h_data v), a}"])
  let ?g = "f(k' \<mapsto> r, k := None)"
  note D = table_invD [OF I] and F = table_inv_fresh [OF I a(2)]
  have V: "heap s0 (pbase (h_data v)) = None" "pbase (h_data v) \<notin> table_bases mth mh eh"
    using D(8) [OF v] by (simp_all add: known_def)
  have k: "k' \<noteq> k" using k'(1) v by auto
  have new: "known s0 mth (table_bases mth mh eh) t k' r"
    using F a b r k'(2) by (simp add: known_def owned_def)
  show "pbase (h_data w) \<notin> {pbase (h_data v), a} \<and> f j = Some w \<or>
      known s0 mth (table_bases mth mh eh) t j w" if w: "?g j = Some w" for j w
  proof (cases "j = k'")
    case True
    then show ?thesis using w k new by simp
  next
    case False
    then have fj: "f j = Some w" "(f(k := None)) j = Some w" using w by (auto split: if_splits)
    then show ?thesis
      using bases_of_drop [OF I v fj(2) refl] bases_ofI [of f j w] F by auto
  qed
  have "bases_of (f(k := None)) \<subseteq> bases_of ?g"
  proof
    fix y assume "y \<in> bases_of (f(k := None))"
    then obtain j w where j: "(f(k := None)) j = Some w" "y = pbase (h_data w)" by (rule bases_ofE)
    then have "?g j = Some w" using k'(1) by (auto split: if_splits)
    then show "y \<in> bases_of ?g" using bases_ofI [of ?g j w] j(2) by blast
  qed
  then show "bases_of f \<subseteq> bases_of ?g \<union> {pbase (h_data v), a}"
    using bases_of_upd_sub [of f k v] v by auto
  have "a \<in> bases_of ?g" using bases_ofI [of ?g k' r] k r by simp
  then show "heap t y = heap s0 y" if "y \<in> {pbase (h_data v), a}" "y \<notin> bases_of ?g" for y
    using that gone V(1) by auto
  show "{pbase (h_data v), a} \<inter> table_bases mth mh eh = {}" using V(2) F by auto
qed (use rest in auto)

lemma session_realloc:
  assumes I: "table_inv s0 mth mh eh f s" and A: "apart_answers s0" and n: "card (dom f) < 16"
    and h: "client_handle mth f h" and sz: "sz \<noteq> 0"
  shows "runs (mem_realloc (memtbl_ops (Suc d)) h sz) s (\<lambda>r t.
    if h_data r = NULL then r = null_handle \<and> table_inv s0 mth mh eh f t
    else h_alloc r = mem_allocator_memtbl mth \<and>
      (h_data r = h_data h \<and> table_inv s0 mth mh eh f t \<or>
       f (hash_ptr (h_data r)) = None \<and>
         table_inv s0 mth mh eh (f(hash_ptr (h_data r) \<mapsto> r, hash_ptr (h_data h) := None)) t))"
proof -
  note D = table_invD [OF I]
  let ?s = "s\<lparr>sigint := SIG_IGN\<rparr>" and ?k = "hash_ptr (h_data h)" and ?K = "answer_hashes s0"
  let ?a = "answers ?s (calls ?s)"
  let ?r = "\<lparr>h_data = Ptr ?a 0, h_size = sz, h_alloc = mem_allocator_memtbl mth\<rparr>"
  let ?b = "\<lparr>b_size = sz, b_heap = True, b_content = Fresh\<rparr>"
  obtain v b where v: "f ?k = Some v" "h_data v = h_data h" and al: "h_alloc h = mem_allocator_memtbl mth"
      and own: "owned s h b" and fr: "b_content b = Fresh" and H: "pbase (h_data h) \<notin> table_bases mth mh eh"
        "heap s0 (pbase (h_data h)) = None" "h_data h \<noteq> NULL" "pbase (h_data h) \<in> answer_set s0"
        "h_data h = Ptr (pbase (h_data h)) 0"
    using I h by (rule client_handleE)
  have st: "home_store ?K mh eh f (Suc 0) ?s" using table_inv_store [OF I A, of "Suc 0"] n by simp
  have tab: "table_at mth mh ?s" "owned ?s h b" using D(2) own by simp_all
  have out: "pbase (h_data h) \<notin> session_foot mh eh" "pbase (h_data h) \<noteq> pbase (h_data mth)"
    using H(1) by (auto simp: table_bases_def session_foot_def)
  have rc: "resize_content (b_size b) sz (b_content b) = Inr Fresh" by (simp add: fr)
  have a_in: "?a \<in> answer_set s0" if "?a \<noteq> 0" using that answer_in_set [OF D(1)] by simp
  have none: "f (hash_ptr (Ptr ?a 0)) = None" if "?a \<noteq> 0" "heap s ?a = None"
    using fresh_unknown [OF I A a_in [OF that(1)] that(2)] .
  show ?thesis
    unfolding mem_ops_memtbl(4) [OF al H(3)]
  proof (rule sigint_guard_runs,
      rule home_table.memtbl_realloc_runs [OF tab(1) st D(6) al tab(2) v out sz rc])
    assume a: "?a \<noteq> 0" "heap ?s ?a = None"
    then have "f (hash_ptr (Ptr ?a 0)) = None" by (intro none) simp_all
    then show "hash_ptr (Ptr ?a 0) \<in> ?K \<and> hash_ptr (Ptr ?a 0) \<noteq> ?k"
      using answer_hash [OF a_in [OF a(1)]] v(1) by auto
  next
    fix x t
    assume P: "env_same ?s t \<and> table_at mth mh t \<and>
      (if h_data x = NULL then x = null_handle \<and> heap t = heap ?s
       else x = ?r \<and> ?a \<noteq> 0 \<and> (?a = pbase (h_data h) \<or> heap ?s ?a = None) \<and>
         (if ?a = pbase (h_data h) then home_store ?K mh eh f (Suc 0) t
          else home_store ?K mh eh (f(hash_ptr (Ptr ?a 0) \<mapsto> ?r, ?k := None)) 0 t) \<and>
         (\<forall>y. y \<notin> session_foot mh eh \<longrightarrow>
            heap t y = ((heap ?s)(pbase (h_data h) := None, ?a \<mapsto> ?b)) y))"
    let ?t = "t\<lparr>sigint := sigint s\<rparr>"
    have e: "env_same s ?t" using P by (intro env_same_guard) blast
    have tab': "table_at mth mh ?t" using P by simp
    consider (fail) "h_data x = NULL" "heap t = heap s"
      | (stay) "h_data x \<noteq> NULL" "?a = pbase (h_data h)" | (move) "h_data x \<noteq> NULL" "?a \<noteq> pbase (h_data h)"
      using P by auto
    then show "if h_data x = NULL then x = null_handle \<and> table_inv s0 mth mh eh f ?t
      else h_alloc x = mem_allocator_memtbl mth \<and> (h_data x = h_data h \<and> table_inv s0 mth mh eh f ?t \<or>
         f (hash_ptr (h_data x)) = None \<and>
           table_inv s0 mth mh eh (f(hash_ptr (h_data x) \<mapsto> x, ?k := None)) ?t)"
    proof cases
      case fail
      then have "home_map MEM_ALLOCATOR_PLAIN mh eh f ?t" by (intro home_map_frame [OF D(3)]) simp
      then have "table_inv s0 mth mh eh f ?t"
        using fail by (intro table_inv_step [OF I e tab', where C = "{}"]) auto
      then show ?thesis using P fail by simp
    next
      case stay
      then have x: "x = ?r" and st': "home_store ?K mh eh f (Suc 0) t"
        and new: "\<And>y. y \<notin> session_foot mh eh \<Longrightarrow>
          heap t y = ((heap s)(pbase (h_data h) := None, ?a \<mapsto> ?b)) y"
        using P by auto
      have "home_map MEM_ALLOCATOR_PLAIN mh eh f ?t" using st' by (intro home_map_frame [OF home_storeD(1)]) auto
      moreover have "owned ?t v ?b" using new [OF out(1)] own stay v(2) by (simp add: owned_def)
      ultimately have "table_inv s0 mth mh eh f ?t"
        using new stay v(2) by (intro table_inv_in_place [OF I e tab' _ v(1)]) auto
      then show ?thesis using stay H(3,5) x by simp
    next
      case move
      then have x: "x = ?r" and a: "?a \<noteq> 0" "heap s ?a = None"
        and st': "home_store ?K mh eh (f(hash_ptr (Ptr ?a 0) \<mapsto> ?r, ?k := None)) 0 t"
        and new: "\<And>y. y \<notin> session_foot mh eh \<Longrightarrow>
          heap t y = ((heap s)(pbase (h_data h) := None, ?a \<mapsto> ?b)) y"
        using P by auto
      have "?a \<notin> session_foot mh eh" using table_inv_fresh [OF I a(2)] table_bases_foot by blast
      moreover have "home_map MEM_ALLOCATOR_PLAIN mh eh (f(hash_ptr (Ptr ?a 0) \<mapsto> ?r, ?k := None)) ?t"
        using st' by (intro home_map_frame [OF home_storeD(1)]) auto
      ultimately have "table_inv s0 mth mh eh (f(hash_ptr (Ptr ?a 0) \<mapsto> ?r, ?k := None)) ?t"
        using new move out(1) v(2) a a_in
        by (intro table_inv_moved [OF I e tab' v(1) none [OF a] refl _ _ _ a]) auto
      then show ?thesis using none [OF a] move x by simp
    qed
  qed simp
qed

section \<open>Sessions\<close>

text \<open>
  A client keeps the handles it was given in variables: an allocation adds one, a resize that
  succeeds replaces one, and a release puts the result of mem_free, an invalid handle, in its place.
\<close>

datatype table_call = Alloc_call size_t | Resize_call nat size_t | Free_call nat

fun perform_table :: "table_ops \<Rightarrow> mem_handle \<Rightarrow> table_call \<Rightarrow> mem_handle list \<Rightarrow> mem_handle list prog" where
  "perform_table tb mth (Alloc_call n) hs =
     cbind (mem_alloc tb (mem_allocator_memtbl mth) n) (\<lambda>h. ret (hs @ [h]))"
| "perform_table tb mth (Resize_call i n) hs =
     (if i < length hs
      then cbind (mem_realloc tb (hs ! i) n) (\<lambda>h. ret (if mem_is_valid h then hs[i := h] else hs))
      else ret hs)"
| "perform_table tb mth (Free_call i) hs =
     (if i < length hs then cbind (mem_free tb (hs ! i)) (\<lambda>h. ret (hs[i := h])) else ret hs)"

fun perform_tables :: "table_ops \<Rightarrow> mem_handle \<Rightarrow> table_call list \<Rightarrow> mem_handle list \<Rightarrow> mem_handle list prog" where
  "perform_tables tb mth [] hs = ret hs"
| "perform_tables tb mth (c # cs) hs = cbind (perform_table tb mth c hs) (perform_tables tb mth cs)"

definition table_session :: "table_ops \<Rightarrow> table_call list \<Rightarrow> unit prog" where
  "table_session tb cs = cbind (memtbl_create tb MEM_ALLOCATOR_PLAIN) (\<lambda>mth.
     if \<not> mem_is_valid mth then ret ()
     else cbind (perform_tables tb mth cs []) (\<lambda>hs. memtbl_destroy tb mth))"

fun allocs :: "table_call list \<Rightarrow> nat" where
  "allocs [] = 0"
| "allocs (Alloc_call n # cs) = Suc (allocs cs)"
| "allocs (Resize_call i n # cs) = allocs cs"
| "allocs (Free_call i # cs) = allocs cs"

fun resizes_to_zero :: "table_call \<Rightarrow> bool" where
  "resizes_to_zero (Resize_call i n) \<longleftrightarrow> n = 0"
| "resizes_to_zero (Alloc_call n) \<longleftrightarrow> False"
| "resizes_to_zero (Free_call i) \<longleftrightarrow> False"

text \<open>The variables of the client: invalid, or handles of different blocks that the table knows.\<close>

definition clients :: "mem_handle \<Rightarrow> (uint \<rightharpoonup> mem_handle) \<Rightarrow> mem_handle list \<Rightarrow> bool" where
  "clients mth f hs \<longleftrightarrow> (\<forall>i < length hs. h_data (hs ! i) = NULL \<or> client_handle mth f (hs ! i) \<and>
     (\<forall>j < length hs. j \<noteq> i \<longrightarrow> h_data (hs ! j) \<noteq> h_data (hs ! i)))"

lemma clientsD:
  assumes "clients mth f hs" and "i < length hs" and "h_data (hs ! i) \<noteq> NULL"
  shows "client_handle mth f (hs ! i)" and "\<And>j. j < length hs \<Longrightarrow> j \<noteq> i \<Longrightarrow> h_data (hs ! j) \<noteq> h_data (hs ! i)"
  using assms unfolding clients_def by blast+

lemma clients_hash:
  assumes C: "clients mth f hs" and i: "i < length hs" "h_data (hs ! i) \<noteq> NULL"
    and j: "j < length hs" "h_data (hs ! j) \<noteq> NULL" "j \<noteq> i"
  shows "hash_ptr (h_data (hs ! j)) \<noteq> hash_ptr (h_data (hs ! i))"
proof
  assume eq: "hash_ptr (h_data (hs ! j)) = hash_ptr (h_data (hs ! i))"
  have "h_data (hs ! j) = h_data (hs ! i)"
    using clientsD(1) [OF C i] clientsD(1) [OF C j(1,2)] eq by (auto simp: client_handle_def)
  then show False using clientsD(2) [OF C i j(1,3)] by simp
qed

lemma clients_add:
  assumes C: "clients mth f hs" and r: "h_alloc r = mem_allocator_memtbl mth" "f (hash_ptr (h_data r)) = None"
  shows "clients mth (f(hash_ptr (h_data r) \<mapsto> r)) (hs @ [r])"
proof -
  have old: "h_data (hs ! i) \<noteq> h_data r \<and> client_handle mth (f(hash_ptr (h_data r) \<mapsto> r)) (hs ! i)"
    if "i < length hs" "h_data (hs ! i) \<noteq> NULL" for i
    using clientsD(1) [OF C that] r(2) by (auto simp: client_handle_def)
  have new: "client_handle mth (f(hash_ptr (h_data r) \<mapsto> r)) r" using r(1) by (simp add: client_handle_def)
  show ?thesis
    using C old new unfolding clients_def
    by (auto simp: nth_append less_Suc_eq) metis+
qed

lemma clients_replace:
  assumes C: "clients mth f hs" and i: "i < length hs" "h_data (hs ! i) \<noteq> NULL"
    and g: "\<And>k. k \<noteq> hash_ptr (h_data (hs ! i)) \<Longrightarrow> f k \<noteq> None \<Longrightarrow> g k = f k"
    and r: "h_data r = NULL \<or> client_handle mth g r \<and> (h_data r = h_data (hs ! i) \<or> f (hash_ptr (h_data r)) = None)"
  shows "clients mth g (hs[i := r])"
  unfolding clients_def
proof (intro allI impI)
  fix j assume j: "j < length (hs[i := r])"
  have apart: "h_data (hs ! k) \<noteq> h_data r" if "k < length hs" "k \<noteq> i" "h_data r \<noteq> NULL" for k
  proof (cases "h_data (hs ! k) = NULL")
    case False
    then have "f (hash_ptr (h_data (hs ! k))) \<noteq> None"
      using clientsD(1) [OF C that(1)] by (auto simp: client_handle_def)
    then show ?thesis using r that clientsD(2) [OF C i that(1,2)] by auto
  qed (use that(3) in simp)
  show "h_data (hs[i := r] ! j) = NULL \<or> client_handle mth g (hs[i := r] ! j) \<and>
    (\<forall>k < length (hs[i := r]). k \<noteq> j \<longrightarrow> h_data (hs[i := r] ! k) \<noteq> h_data (hs[i := r] ! j))"
  proof (cases "j = i")
    case True
    then show ?thesis using r i apart by (auto simp: nth_list_update)
  next
    case False
    show ?thesis
    proof (cases "h_data (hs ! j) = NULL")
      case live: False
      have jl: "j < length hs" using j by simp
      have "client_handle mth g (hs ! j)"
        using clientsD(1) [OF C jl live] g clients_hash [OF C i jl live False]
        by (auto simp: client_handle_def)
      moreover have "h_data (hs[i := r] ! k) \<noteq> h_data (hs ! j)" if "k < length hs" "k \<noteq> j" for k
        using clientsD(2) [OF C jl live that] apart [OF jl False] that live by (cases "k = i") auto
      ultimately show ?thesis using False by simp
    qed (use False in simp)
  qed
qed

text \<open>\<open>session_at s0 mth mh eh f hs s\<close>: the table knows \<open>f\<close> and the client holds \<open>hs\<close>.\<close>

definition session_at ::
  "cstate \<Rightarrow> mem_handle \<Rightarrow> mem_handle \<Rightarrow> mem_handle \<Rightarrow> nat \<Rightarrow> mem_handle list \<Rightarrow> cstate \<Rightarrow> bool" where
  "session_at s0 mth mh eh n hs s \<longleftrightarrow>
     (\<exists>f. table_inv s0 mth mh eh f s \<and> clients mth f hs \<and> card (dom f) \<le> n)"

lemma session_atI:
  "table_inv s0 mth mh eh f s \<Longrightarrow> clients mth f hs \<Longrightarrow> card (dom f) \<le> n \<Longrightarrow> session_at s0 mth mh eh n hs s"
  by (auto simp: session_at_def)

lemma perform_alloc:
  assumes "session_at s0 mth mh eh n hs s" and A: "apart_answers s0" and n: "n < 15"
  shows "runs (perform_table (memtbl_ops (Suc d)) mth (Alloc_call sz) hs) s (session_at s0 mth mh eh (Suc n))"
proof -
  obtain f where I: "table_inv s0 mth mh eh f s" and C: "clients mth f hs" and c: "card (dom f) \<le> n"
    using assms(1) by (auto simp: session_at_def)
  have small: "card (dom f) < 16" using c n by simp
  show ?thesis
    unfolding perform_table.simps runs_cbind runs_ret
  proof (rule runs_conseq [OF session_alloc [OF I A small]])
    fix r t
    assume P: "if h_data r = NULL then r = null_handle \<and> table_inv s0 mth mh eh f t
      else h_alloc r = mem_allocator_memtbl mth \<and> f (hash_ptr (h_data r)) = None \<and>
        table_inv s0 mth mh eh (f(hash_ptr (h_data r) \<mapsto> r)) t"
    show "session_at s0 mth mh eh (Suc n) (hs @ [r]) t"
    proof (cases "h_data r = NULL")
      case True
      have "clients mth f (hs @ [r])"
        using C True unfolding clients_def by (auto simp: nth_append less_Suc_eq)
      then show ?thesis using P True c by (auto intro: session_atI)
    next
      case False
      then have "card (dom (f(hash_ptr (h_data r) \<mapsto> r))) \<le> Suc n"
        using P c card_dom_new [OF table_invD(10) [OF I], of "hash_ptr (h_data r)"] by simp
      then show ?thesis using P False clients_add [OF C] by (auto intro: session_atI)
    qed
  qed
qed

lemma perform_resize:
  assumes "session_at s0 mth mh eh n hs s" and A: "apart_answers s0" and n: "n \<le> 15" and sz: "sz \<noteq> 0"
  shows "runs (perform_table (memtbl_ops (Suc d)) mth (Resize_call i sz) hs) s (session_at s0 mth mh eh n)"
proof -
  obtain f where I: "table_inv s0 mth mh eh f s" and C: "clients mth f hs" and c: "card (dom f) \<le> n"
    using assms(1) by (auto simp: session_at_def)
  have small: "card (dom f) < 16" using c n by simp
  let ?h = "hs ! i" and ?k = "hash_ptr (h_data (hs ! i))"
  show ?thesis
  proof (cases "i < length hs \<and> h_data ?h \<noteq> NULL")
    case False
    then show ?thesis
      using I C c by (auto simp: runs_def cbind_apply mem_realloc_def mem_is_valid_def intro: session_atI)
  next
    case True
    note ch = clientsD(1) [OF C True [THEN conjunct1] True [THEN conjunct2]]
    have there: "f ?k \<noteq> None" using ch by (auto simp: client_handle_def)
    have "runs (mem_realloc (memtbl_ops (Suc d)) ?h sz) s
        (\<lambda>r t. session_at s0 mth mh eh n (if mem_is_valid r then hs[i := r] else hs) t)"
    proof (rule runs_conseq [OF session_realloc [OF I A small ch sz]])
      fix r t
      assume P: "if h_data r = NULL then r = null_handle \<and> table_inv s0 mth mh eh f t
        else h_alloc r = mem_allocator_memtbl mth \<and>
          (h_data r = h_data ?h \<and> table_inv s0 mth mh eh f t \<or>
           f (hash_ptr (h_data r)) = None \<and> table_inv s0 mth mh eh (f(hash_ptr (h_data r) \<mapsto> r, ?k := None)) t)"
      consider "h_data r = NULL" | "h_data r \<noteq> NULL" "h_data r = h_data ?h" "table_inv s0 mth mh eh f t"
        | "h_data r \<noteq> NULL" "f (hash_ptr (h_data r)) = None"
          "table_inv s0 mth mh eh (f(hash_ptr (h_data r) \<mapsto> r, ?k := None)) t"
        using P by argo
      then show "session_at s0 mth mh eh n (if mem_is_valid r then hs[i := r] else hs) t"
      proof cases
        case 1
        then show ?thesis using P C c by (auto simp: mem_is_valid_def intro: session_atI)
      next
        case 2
        have "client_handle mth f r" using ch 2 P by (simp add: client_handle_def)
        then have "clients mth f (hs[i := r])"
          using True 2 by (intro clients_replace [OF C]) auto
        then show ?thesis using 2 c by (auto simp: mem_is_valid_def intro: session_atI)
      next
        case 3
        let ?g = "f(hash_ptr (h_data r) \<mapsto> r, ?k := None)"
        have k: "hash_ptr (h_data r) \<noteq> ?k" using 3 there by auto
        have "client_handle mth ?g r" using k P 3 by (simp add: client_handle_def)
        then have "clients mth ?g (hs[i := r])"
          using True 3 by (intro clients_replace [OF C]) auto
        moreover have "card (insert (hash_ptr (h_data r)) (dom f) - {?k}) = card (dom f)"
          using card_dom_new [OF table_invD(10) [OF I] 3(2)] there table_invD(10) [OF I]
          by (subst card_Diff_singleton) auto
        ultimately show ?thesis using 3 c by (auto simp: mem_is_valid_def intro: session_atI)
      qed
    qed
    then show ?thesis using True by (simp add: runs_cbind runs_ret)
  qed
qed

lemma perform_free:
  assumes "session_at s0 mth mh eh n hs s" and A: "apart_answers s0" and n: "n \<le> 15"
  shows "runs (perform_table (memtbl_ops (Suc d)) mth (Free_call i) hs) s (session_at s0 mth mh eh n)"
proof -
  obtain f where I: "table_inv s0 mth mh eh f s" and C: "clients mth f hs" and c: "card (dom f) \<le> n"
    using assms(1) by (auto simp: session_at_def)
  have small: "card (dom f) \<le> 16" using c n by simp
  let ?k = "hash_ptr (h_data (hs ! i))"
  show ?thesis
  proof (cases "i < length hs \<and> h_data (hs ! i) \<noteq> NULL")
    case False
    have "clients mth f (hs[i := null_handle])" if "i < length hs" "h_data (hs ! i) = NULL"
      using C that unfolding clients_def by (auto simp: nth_list_update)
    then show ?thesis
      using False I C c
      by (auto simp: runs_def cbind_apply mem_free_def mem_is_valid_def intro: session_atI)
  next
    case True
    note ch = clientsD(1) [OF C True [THEN conjunct1] True [THEN conjunct2]]
    have "clients mth (f(?k := None)) (hs[i := null_handle])"
      using True by (intro clients_replace [OF C]) auto
    moreover have "card (dom (f(?k := None))) \<le> n"
      using c card_mono [OF table_invD(10) [OF I], of "dom f - {?k}"] by auto
    ultimately have "runs (mem_free (memtbl_ops (Suc d)) (hs ! i)) s
        (\<lambda>r t. session_at s0 mth mh eh n (hs[i := r]) t)"
      by (intro runs_conseq [OF session_free [OF I A small ch]]) (auto intro: session_atI)
    then show ?thesis using True by (simp add: runs_cbind runs_ret)
  qed
qed

lemma perform_tables_runs:
  assumes "session_at s0 mth mh eh n hs s" and A: "apart_answers s0" and "n + allocs cs \<le> 15"
    and "\<forall>c \<in> set cs. \<not> resizes_to_zero c"
  shows "runs (perform_tables (memtbl_ops (Suc d)) mth cs hs) s (session_at s0 mth mh eh 15)"
  using assms(1,3,4)
proof (induction cs arbitrary: n hs s)
  case Nil
  then obtain f where "table_inv s0 mth mh eh f s" "clients mth f hs" "card (dom f) \<le> 15"
    by (auto simp: session_at_def)
  then show ?case by (auto simp: runs_def intro: session_atI)
next
  case (Cons c cs)
  have "runs (perform_table (memtbl_ops (Suc d)) mth c hs) s (session_at s0 mth mh eh (n + allocs [c]))"
  proof (cases c)
    case (Alloc_call sz)
    then show ?thesis using perform_alloc [OF Cons.prems(1) A] Cons.prems(2) by simp
  next
    case (Resize_call i sz)
    then show ?thesis using perform_resize [OF Cons.prems(1) A, of sz] Cons.prems(2,3) by simp
  next
    case (Free_call i)
    then show ?thesis using perform_free [OF Cons.prems(1) A] Cons.prems(2) by simp
  qed
  moreover have "n + allocs [c] + allocs cs \<le> 15" using Cons.prems(2) by (cases c) simp_all
  ultimately show ?case
    using Cons.prems(3) by (auto simp: runs_cbind intro: Cons.IH elim!: runs_conseq)
qed

section \<open>The end of a session\<close>

lemma table_inv_registered:
  assumes I: "table_inv s0 mth mh eh f s" and n: "card (dom f) \<le> 16"
  obtains m es where "registered mth mh eh m es s" "slot_bases 0 es = bases_of f"
proof -
  note D = table_invD [OF I]
  obtain m es where ok: "map_ok MEM_ALLOCATOR_PLAIN mh m es s" and td: "tidy es" and lk: "lookup es = f"
      and m: "entries_mh m = eh" "table_size m = 32" "unat (entry_count m) = card (dom f)" "length es = 32"
    using D(3) by (rule home_mapE)
  note ch = map_okD(2) [OF ok]
  have key: "key_hash (es ! i) \<noteq> 0" if "i < 32" "es ! i \<noteq> zero_entry" for i
    using td that m(4) nth_mem [of i es] by (auto simp: tidy_def)
  have val: "f (key_hash (es ! i)) = Some (value_handle (es ! i))" if "i < 32" "es ! i \<noteq> zero_entry" for i
    using key [OF that] that m(4) lookup_iff [OF ch] by (auto simp: lk)
  have "slot_ok mth mh eh s i (es ! i)" if i: "i < 32" "es ! i \<noteq> zero_entry" for i
  proof -
    have "home es (key_hash (es ! i)) = i" using td key [OF i] i m(4) by (simp add: tidy_def at_home_def)
    then have "unat (key_hash (es ! i)) mod 32 = i" using m(4) by (simp add: home_def)
    then show ?thesis
      using D(8) [OF val [OF i]] key [OF i] unfolding known_def slot_ok_def table_bases_def by blast
  qed
  then have reg: "registered mth mh eh m es s"
    using ok m n D(2,6) unfolding registered_def session_foot_def by auto
  have "slot_bases 0 es = bases_of f"
  proof (rule set_eqI)
    fix a
    have "a \<in> slot_bases 0 es \<longleftrightarrow> (\<exists>i < 32. es ! i \<noteq> zero_entry \<and> a = pbase (h_data (value_handle (es ! i))))"
      using m(4) by (auto simp: slot_bases_def in_set_conv_nth)
    also have "\<dots> \<longleftrightarrow> (\<exists>k v. f k = Some v \<and> a = pbase (h_data v))"
    proof
      assume "\<exists>i < 32. es ! i \<noteq> zero_entry \<and> a = pbase (h_data (value_handle (es ! i)))"
      then show "\<exists>k v. f k = Some v \<and> a = pbase (h_data v)" using val by blast
    next
      assume "\<exists>k v. f k = Some v \<and> a = pbase (h_data v)"
      then obtain i where "i < 32" "key_hash (es ! i) \<noteq> 0" "a = pbase (h_data (value_handle (es ! i)))"
        using lookup_iff [OF ch] m(4) lk by auto
      then show "\<exists>i < 32. es ! i \<noteq> zero_entry \<and> a = pbase (h_data (value_handle (es ! i)))"
        by (auto simp: zero_entry_def)
    qed
    also have "\<dots> \<longleftrightarrow> a \<in> bases_of f" by (auto simp: bases_of_def ran_def)
    finally show "a \<in> slot_bases 0 es \<longleftrightarrow> a \<in> bases_of f" .
  qed
  then show ?thesis using that reg by blast
qed

lemma table_inv_was_free:
  assumes I: "table_inv s0 mth mh eh f s" and a: "a \<in> bases_of f \<or> a \<in> table_bases mth mh eh"
  shows "heap s0 a = None"
  using a
proof
  assume "a \<in> bases_of f"
  then obtain k v where v: "f k = Some v" "a = pbase (h_data v)" by (rule bases_ofE)
  from table_invD(8) [OF I v(1)] show ?thesis by (simp add: known_def v(2))
qed (rule table_invD(7) [OF I])

lemma session_destroy:
  assumes "session_at s0 mth mh eh 15 hs s"
  shows "runs (memtbl_destroy (memtbl_ops (Suc d)) mth) s (\<lambda>x t. env_same s0 t \<and> heap t = heap s0)"
proof -
  obtain f where I: "table_inv s0 mth mh eh f s" and c: "card (dom f) \<le> 16"
    using assms by (auto simp: session_at_def)
  note D = table_invD [OF I]
  obtain m es where reg: "registered mth mh eh m es s" and sb: "slot_bases 0 es = bases_of f"
    using I c by (rule table_inv_registered)
  obtain b where "owned s mth b" using D(5) by blast
  then have "runs (memtbl_destroy (memtbl_ops (Suc d)) mth) s (\<lambda>x t. env_same s t \<and> heap t = (\<lambda>a.
      if a \<in> slot_bases 0 es \<union> table_bases mth mh eh then None else heap s a))"
    unfolding table_bases_def by (rule memtbl_destroy_runs [OF reg D(4)])
  then show ?thesis
  proof (rule runs_conseq, elim conjE, intro conjI)
    fix t assume e: "env_same s t" and h: "heap t = (\<lambda>a.
      if a \<in> slot_bases 0 es \<union> table_bases mth mh eh then None else heap s a)"
    show "env_same s0 t" using D(1) e by (rule env_same_trans)
    show "heap t = heap s0"
    proof (rule ext)
      fix a show "heap t a = heap s0 a"
        using table_inv_was_free [OF I, of a] D(9) [of a] by (simp add: h sb)
    qed
  qed
qed

lemma created_session:
  "runs (memtbl_create tb MEM_ALLOCATOR_PLAIN) s (\<lambda>mth t. env_same s t \<and>
     (if h_data mth = NULL then heap t = heap s else \<exists>mh eh. session_at s mth mh eh 0 [] t))"
proof (rule runs_conseq [OF memtbl_create_new], elim conjE, intro conjI, assumption)
  fix mth t
  assume e: "env_same s t" and P: "if h_data mth = NULL then mth = null_handle \<and> heap t = heap s
      else \<exists>mh eh. new_table mth mh eh t \<and>
        heap s (pbase (h_data mth)) = None \<and> heap s (pbase (h_data mh)) = None \<and>
        heap s (pbase (h_data eh)) = None \<and>
        (\<forall>a. a \<notin> {pbase (h_data mth), pbase (h_data mh), pbase (h_data eh)} \<longrightarrow> heap t a = heap s a)"
  show "if h_data mth = NULL then heap t = heap s else \<exists>mh eh. session_at s mth mh eh 0 [] t"
  proof (cases "h_data mth = NULL")
    case False
    then obtain mh eh where N: "new_table mth mh eh t"
        and free: "\<forall>a \<in> table_bases mth mh eh. heap s a = None"
        and rest: "\<forall>a. a \<notin> table_bases mth mh eh \<longrightarrow> heap t a = heap s a"
      using P by (auto simp: table_bases_def)
    have "home_map MEM_ALLOCATOR_PLAIN mh eh Map.empty t"
      using N unfolding new_table_def by (auto intro!: home_mapI simp: empty_map_def)
    then have "table_inv s mth mh eh Map.empty t"
      using N e free rest unfolding table_inv_def new_table_def session_foot_def by simp
    then have "session_at s mth mh eh 0 [] t" by (rule session_atI) (simp_all add: clients_def)
    then show ?thesis using False by auto
  qed (use P in simp)
qed

text \<open>
  C20. A session on a memory table leaks nothing: after the table is created, used for any
  allocations, resizes (also ones that move the block) and releases, any of which the system
  allocator may refuse, and destroyed, the heap is what it was before; no call faults. There are at
  most 15 allocations and no resize to 0, and the addresses that the system allocator gives have
  hashes that are not 0 and lead to different home slots.
\<close>

theorem table_session_leak_free:
  assumes "apart_answers s" and "allocs cs \<le> 15" and "\<forall>c \<in> set cs. \<not> resizes_to_zero c"
  shows "runs (table_session (memtbl_ops (Suc d)) cs) s (\<lambda>x t. env_same s t \<and> heap t = heap s)"
  unfolding table_session_def runs_cbind
proof (rule runs_conseq [OF created_session], elim conjE)
  fix mth t
  assume e: "env_same s t"
    and P: "if h_data mth = NULL then heap t = heap s else \<exists>mh eh. session_at s mth mh eh 0 [] t"
  show "runs (if \<not> mem_is_valid mth then ret ()
      else cbind (perform_tables (memtbl_ops (Suc d)) mth cs []) (\<lambda>hs. memtbl_destroy (memtbl_ops (Suc d)) mth)) t
    (\<lambda>x u. env_same s u \<and> heap u = heap s)"
  proof (cases "h_data mth = NULL")
    case True
    then show ?thesis using P e by (simp add: mem_is_valid_def runs_ret)
  next
    case False
    then obtain mh eh where S: "session_at s mth mh eh 0 [] t" using P by auto
    have "runs (perform_tables (memtbl_ops (Suc d)) mth cs []) t (session_at s mth mh eh 15)"
      using perform_tables_runs [OF S assms(1) _ assms(3)] assms(2) by simp
    then show ?thesis
      using False by (auto simp: mem_is_valid_def runs_cbind intro: session_destroy elim!: runs_conseq)
  qed
qed

definition table_answers :: "nat \<Rightarrow> 64 word" where
  "table_answers i = (if i = 0 then 0x6000 else if i = 1 then 0x6100 else if i = 2 then 0x5000
     else if i = 3 then 0x5800 else if i = 4 then 0x5900 else if i = 5 then 0x5a00 else 0x5b00)"

definition table_session_state :: cstate where
  "table_session_state = (sample_state [] 0 table_answers)\<lparr>heap := Map.empty\<rparr>"

lemma table_session_hashes:
  "hash_ptr (Ptr 0x6000 0) = 127525612" "hash_ptr (Ptr 0x6100 0) = 1005535207"
  "hash_ptr (Ptr 0x5800 0) = 2051422676" "hash_ptr (Ptr 0x5900 0) = 2929432271"
  "hash_ptr (Ptr 0x5a00 0) = 3807441866" "hash_ptr (Ptr 0x5b00 0) = 390484165"
  by code_simp+

definition table_answer_list :: "64 word list" where
  "table_answer_list = [0x6000, 0x6100, 0x5000, 0x5800, 0x5900, 0x5a00, 0x5b00]"

lemma table_session_apart: "apart_answers table_session_state"
proof -
  have sub: "answer_set table_session_state \<subseteq> set table_answer_list"
    by (auto simp: answer_set_def table_session_state_def sample_state_def table_answers_def table_answer_list_def)
  have "inj_on (\<lambda>a. unat (hash_ptr (Ptr a 0)) mod 32) (set table_answer_list)"
    by (simp add: table_session_hashes table_answer_list_def)
  then have inj: "inj_on (\<lambda>a. unat (hash_ptr (Ptr a 0)) mod 32) (answer_set table_session_state)"
    using sub by (rule inj_on_subset)
  have "\<forall>a \<in> set table_answer_list. hash_ptr (Ptr a 0) \<noteq> 0"
    by (simp add: table_session_hashes table_answer_list_def)
  then have "0 \<notin> answer_hashes table_session_state"
    using sub unfolding answer_hashes_def by fastforce
  then show ?thesis using inj by (simp add: apart_answers_def)
qed

theorem table_session_leak_free_witness:
  "runs (table_session (memtbl_ops 1)
      [Alloc_call 16, Alloc_call 32, Resize_call 0 64, Free_call 1, Alloc_call 8]) table_session_state
    (\<lambda>x t. heap t = Map.empty)"
  using table_session_leak_free [OF table_session_apart,
      of "[Alloc_call 16, Alloc_call 32, Resize_call 0 64, Free_call 1, Alloc_call 8]" 0]
  by (auto simp: table_session_state_def elim!: runs_conseq)

end
