(* ===== verification/Ds_Memtbl_Faults.thy ===== *)
theory Ds_Memtbl_Faults
  imports Ds_Memtbl_Props
begin

text \<open>
  A resize to size 0 through a memory table, where the realloc of the C library frees the block.
\<close>

lemma realloc_zero_exec:
  assumes "owned s h b" and "realloc0_frees s"
  obtains t where "realloc (h_data h) 0 s = Inr (NULL, t)" "env_same s t"
    "heap t = (heap s)(pbase (h_data h) := None)"
  using assms that by (auto simp: realloc_def libc_defs owned_def env_same_def ptr_null_iff)

lemma free_dangling:
  "heap s (pbase p) = None \<Longrightarrow> p \<noteq> NULL \<Longrightarrow> free p s = Inl Bad_free"
  by (simp add: free_def)

lemma table_free_dangling:
  assumes th: "table_holds mth mh eh f n s" and h: "h_alloc h = mem_allocator_memtbl mth" "h_data h \<noteq> NULL"
    and reg: "f (hash_ptr (h_data h)) = Some v" "h_data v = h_data h"
    and del: "map_deletable mh eh (hash_ptr (h_data h)) s"
    and out: "pbase (h_data h) \<notin> {pbase (h_data mh), pbase (h_data eh)}"
    and dead: "heap s (pbase (h_data h)) = None"
  shows "mem_free (memtbl_ops (Suc d)) h s = Inl Bad_free"
proof -
  let ?s = "s\<lparr>sigint := SIG_IGN\<rparr>"
  have "table_holds mth mh eh f n ?s" using th by simp
  then have tab: "table_at mth mh ?s" and st: "map_store mh eh f n ?s" by (simp_all add: table_holds_def)
  have "map_store mh eh f n s" using th by (simp add: table_holds_def)
  then have del': "map_deletable mh eh (hash_ptr (h_data h)) ?s"
    by (rule table_map.deletable_law [OF del]) simp
  obtain t where d: "map_delete_ptr (memtbl_ops d) mh (h_data h) ?s = Inr (True, t)"
      and post: "frame {pbase (h_data mh), pbase (h_data eh)} ?s t \<and>
        map_store mh eh (f(hash_ptr (h_data h) := None)) n t"
    using table_map.delete_law [OF st reg(1) del'] by (rule runs_TrueE)
  have "heap t (pbase (h_data h)) = None" using post dead out by (simp add: frame_def)
  then have "memtbl_free (memtbl_ops d) h ?s = Inl Bad_free"
    using h by (simp add: table_map.memtbl_free_unfold [OF tab st h reg] cbind_apply d free_dangling)
  then show ?thesis
    unfolding mem_ops_memtbl(1) [OF h] by (simp add: sigint_guard_def signal_int_def cbind_apply)
qed

text \<open>
  C25. A resize to 0 of a handle of a memory table, on a C library whose realloc frees the block
  then, releases the block and returns an invalid handle as a failure does, but the table keeps the
  entry: mem_p of the old handle still gives the address of the released block, and freeing the
  handle frees the block twice.
\<close>

theorem memtbl_realloc_zero_dangles:
  assumes "table_holds mth mh eh f n s" and "h_alloc h = mem_allocator_memtbl mth" and "owned s h b"
    and "f (hash_ptr (h_data h)) = Some v" and "h_data v = h_data h"
    and "map_deletable mh eh (hash_ptr (h_data h)) s"
    and "pbase (h_data h) \<notin> {pbase (h_data mth), pbase (h_data mh), pbase (h_data eh)}"
    and "realloc0_frees s"
  shows "runs (mem_realloc (memtbl_ops (Suc d)) h 0) s (\<lambda>r t. r = null_handle \<and>
    heap t = (heap s)(pbase (h_data h) := None) \<and>
    mem_p (memtbl_ops (Suc d)) h t = Inr (h_data h, t) \<and>
    mem_free (memtbl_ops (Suc d)) h t = Inl Bad_free)"
proof -
  let ?s = "s\<lparr>sigint := SIG_IGN\<rparr>"
  have nn: "h_data h \<noteq> NULL" using assms(3) by (rule owned_not_null)
  have "table_holds mth mh eh f n ?s" using assms(1) by simp
  then have tab: "table_at mth mh ?s" and st: "map_store mh eh f n ?s" by (simp_all add: table_holds_def)
  have "owned ?s h b" "realloc0_frees ?s" using assms(3,8) by (simp_all add: owned_def)
  then obtain t where rl: "realloc (h_data h) 0 ?s = Inr (NULL, t)" "env_same ?s t"
      and ht: "heap t = (heap ?s)(pbase (h_data h) := None)"
    by (rule realloc_zero_exec)
  let ?t = "t\<lparr>sigint := sigint s\<rparr>"
  have same: "heap ?t a = heap s a" if "a \<noteq> pbase (h_data h)" for a using that ht by simp
  have "memtbl_realloc (memtbl_ops d) h 0 ?s = Inr (null_handle, t)"
    using table_map.self_p_exec [OF tab st assms(2) nn] nn
    by (simp add: memtbl_realloc_def mem_is_valid_def cbind_apply assms(2,4,5)
        table_map.table_map_exec [OF tab st] rl(1))
  then have run: "mem_realloc (memtbl_ops (Suc d)) h 0 s = Inr (null_handle, ?t)"
    unfolding mem_ops_memtbl(4) [OF assms(2) nn]
    by (simp add: sigint_guard_def signal_int_def cbind_apply)
  have "table_at mth mh ?t" "map_store mh eh f n ?t"
    using assms(1,7) same unfolding table_holds_def
    by (auto intro: table_at_frame table_map.frame_law)
  then have th: "table_holds mth mh eh f n ?t" using assms(1) by (simp add: table_holds_def)
  have st0: "map_store mh eh f n s" using assms(1) by (simp add: table_holds_def)
  have "map_deletable mh eh (hash_ptr (h_data h)) ?t"
    by (rule table_map.deletable_law [OF assms(6) st0]) (use assms(7) same in auto)
  then have "mem_free (memtbl_ops (Suc d)) h ?t = Inl Bad_free"
    using assms(7) ht by (intro table_free_dangling [OF th assms(2) nn assms(4,5)]) simp_all
  moreover have "mem_p (memtbl_ops (Suc d)) h ?t = Inr (h_data h, ?t)"
    using table_holds_p [OF th assms(2) nn] assms(4,5) by simp
  ultimately show ?thesis using run ht by (simp add: runs_def)
qed

definition zero_frees_state :: cstate where
  "zero_frees_state = (sample_mem_table owned_entries 1 (\<lambda>_. 0))\<lparr>realloc0_frees := True\<rparr>"

theorem memtbl_realloc_zero_dangles_witness:
  "runs (mem_realloc (memtbl_ops 1) sample_owned 0) zero_frees_state (\<lambda>r t. r = null_handle \<and>
     mem_p (memtbl_ops 1) sample_owned t = Inr (Ptr 0x5000 0, t) \<and>
     mem_free (memtbl_ops 1) sample_owned t = Inl Bad_free)"
proof -
  let ?s = "sample_mem_table owned_entries 1 (\<lambda>_. 0)"
  have heap: "heap zero_frees_state = heap ?s" by (simp add: zero_frees_state_def)
  have th: "table_holds sample_mth sample_mh sample_table_mh (lookup owned_entries) 15 zero_frees_state"
    using sample_holds heap by (rule table_holds_heap)
  have "map_store sample_mh sample_table_mh (lookup owned_entries) 15 ?s"
    using sample_holds by (simp add: table_holds_def)
  then have del: "map_deletable sample_mh sample_table_mh (hash_ptr (h_data sample_owned)) zero_frees_state"
    by (rule table_map.deletable_law [OF sample_deletable]) (simp add: heap)
  have own: "owned zero_frees_state sample_owned \<lparr>b_size = 8, b_heap = True, b_content = Fresh\<rparr>"
    using sample_own heap by (simp add: owned_def)
  have al: "h_alloc sample_owned = mem_allocator_memtbl sample_mth" "h_data sample_owned = Ptr 0x5000 0"
    "realloc0_frees zero_frees_state"
    by (simp_all add: sample_owned_def zero_frees_state_def)
  have reg: "lookup owned_entries (hash_ptr (h_data sample_owned)) = Some sample_owned"
    using owned_lookup al(2) by simp
  show ?thesis
    unfolding One_nat_def
    by (rule runs_conseq [OF memtbl_realloc_zero_dangles [OF th al(1) own reg refl del sample_apart al(3)]])
      (simp add: al(2))
qed

end
