(* ===== verification/Ds_Str_Proofs.thy ===== *)
theory Ds_Str_Proofs
  imports Ds_Key_Props Ds_Strbuf
begin

text \<open>
  What the loops of the str functions compute, on texts of fewer than 2^32 characters (their
  counters are unsigned int while sizes are size_t).
\<close>

lemma unat_ucast_uint [simp]: "unat (ucast (i :: uint) :: size_t) = unat i"
  by (simp add: unsigned_ucast_eq take_bit_nat_eq_self order.strict_trans [OF unsigned_less])

lemma uint_guard:
  "unat n = k \<Longrightarrow> (ucast (i :: uint) :: size_t) < n \<longleftrightarrow> unat i < k"
  by (simp add: word_less_nat_alt)

lemma unat_of_nat_uint: "n < 2 ^ 32 \<Longrightarrow> unat (of_nat n :: uint) = n"
  by (simp add: unat_of_nat)

lemma unat_of_nat_size: "n < 2 ^ 64 \<Longrightarrow> unat (of_nat n :: size_t) = n"
  by (simp add: unat_of_nat)

lemma size_eqI: "unat (n :: size_t) = k \<Longrightarrow> n = of_nat k"
  by (metis of_nat_unat ucast_id)

section \<open>Whitespace\<close>

lemma isspace_ascii: "c < 128 \<Longrightarrow> isspace c = ret (is_space c)"
  by (simp add: isspace_def)

lemma scan_while_exec:
  assumes ch: "chars_at p cs s" and n: "unat n = length cs" and small: "length cs < 2 ^ 32"
    and ascii: "\<forall>c \<in> set cs. c < 128"
  shows "unat i \<le> length cs \<Longrightarrow> length cs - unat i < fuel \<Longrightarrow> scan_while w fuel p n i s =
    Inr (of_nat (unat i + length (takeWhile (\<lambda>c. is_space c = w) (drop (unat i) cs))), s)"
proof (induction fuel arbitrary: i)
  case (Suc fuel)
  show ?case
  proof (cases "unat i < length cs")
    case False
    then show ?thesis by (simp add: uint_guard [OF n])
  next
    case True
    have d: "drop (unat i) cs = cs ! unat i # drop (Suc (unat i)) cs"
      using True by (simp add: Cons_nth_drop_Suc)
    have up: "unat (i + 1) = Suc (unat i)" using True small by (rule unat_next)
    have c: "cs ! unat i < 128" using ascii True by simp
    show ?thesis
      using True Suc.prems Suc.IH [of "i + 1"] up
      by (simp add: uint_guard [OF n] cbind_apply load_byte_chars [OF ch True] isspace_ascii [OF c] d)
  qed
qed simp

text \<open>The three parts that str_split_whitespace_pop sees: leading space, a word, and the rest.\<close>

definition lead :: "byte list \<Rightarrow> byte list" where
  "lead cs = takeWhile is_space cs"

definition first_word :: "byte list \<Rightarrow> byte list" where
  "first_word cs = takeWhile (\<lambda>c. \<not> is_space c) (dropWhile is_space cs)"

definition after_word :: "byte list \<Rightarrow> byte list" where
  "after_word cs = dropWhile is_space (dropWhile (\<lambda>c. \<not> is_space c) (dropWhile is_space cs))"

definition word_gap :: "byte list \<Rightarrow> byte list" where
  "word_gap cs = takeWhile is_space (dropWhile (\<lambda>c. \<not> is_space c) (dropWhile is_space cs))"

lemma split_parts: "cs = lead cs @ first_word cs @ word_gap cs @ after_word cs"
  by (simp add: lead_def first_word_def word_gap_def after_word_def)

lemma first_word_drop: "first_word cs = takeWhile (\<lambda>c. \<not> is_space c) (drop (length (lead cs)) cs)"
  by (simp add: first_word_def lead_def dropWhile_eq_drop)

lemma word_gap_drop:
  "word_gap cs = takeWhile is_space (drop (length (lead cs) + length (first_word cs)) cs)"
  by (simp add: word_gap_def first_word_def lead_def dropWhile_eq_drop add.commute)

lemma after_word_drop:
  "after_word cs = drop (length (lead cs) + length (first_word cs) + length (word_gap cs)) cs"
  by (subst (4) split_parts) simp

lemma split_length:
  "length cs = length (lead cs) + length (first_word cs) + length (word_gap cs) + length (after_word cs)"
  by (subst split_parts) simp

lemma load_first_byte: "chars_at p cs s \<Longrightarrow> cs \<noteq> [] \<Longrightarrow> load_byte p s = Inr (cs ! 0, s)"
  using load_byte_chars [of p cs s 0] by simp

lemma str_split_whitespace_exec:
  assumes rep: "str_rep h cs s" and small: "length cs < 2 ^ 32" and ascii: "\<forall>c \<in> set cs. c < 128"
    and c0: "load_byte (h_data h) s = Inr (c0, s)" "c0 < 128"
  shows "str_split_whitespace_pop tb h part s = Inr
    (((if after_word cs = [] then null_handle
      else mem_handle_from_ptr (ptr_add (h_data h) (length cs - length (after_word cs)))
             (of_nat (length (after_word cs)))),
     mem_handle_from_ptr (ptr_add (h_data h) (length (lead cs))) (of_nat (length (first_word cs)))), s)"
proof -
  note D = str_repD [OF rep]
  let ?fuel = "Suc (unat (h_size h))" and ?l = "length (lead cs)" and ?w = "length (first_word cs)"
    and ?g = "length (word_gap cs)"
  note scan = scan_while_exec [OF D(2,3) small ascii]
  have le: "?l + ?w + ?g \<le> length cs" using split_length [of cs] by simp
  then have u: "unat (of_nat ?l :: uint) = ?l" "unat (of_nat (?l + ?w) :: uint) = ?l + ?w"
    "unat (of_nat (?l + ?w + ?g) :: uint) = ?l + ?w + ?g"
    using small by (intro unat_of_nat_uint; simp)+
  have start: "is_space c0 \<Longrightarrow> scan_while True ?fuel (h_data h) (h_size h) 0 s = Inr (of_nat ?l, s)"
    "\<not> is_space c0 \<Longrightarrow> ?l = 0"
    using scan [of 0 ?fuel True] D(3) c0(1) load_first_byte [OF D(2)]
    by (simp_all add: lead_def del: scan_while.simps) (cases cs; auto)
  have word: "scan_while False ?fuel (h_data h) (h_size h) (of_nat ?l) s = Inr (of_nat (?l + ?w), s)"
    using scan [of "of_nat ?l" ?fuel False] le u(1) D(3) by (simp add: first_word_drop)
  have gap: "scan_while True ?fuel (h_data h) (h_size h) (of_nat (?l + ?w)) s = Inr (of_nat (?l + ?w + ?g), s)"
    using scan [of "of_nat (?l + ?w)" ?fuel True] le u(2) D(3) by (simp add: word_gap_drop)
  have part_size: "(ucast ((of_nat (?l + ?w) :: uint) - of_nat ?l) :: size_t) = of_nat ?w"
  proof (rule word_unat_eq_iff [THEN iffD2])
    have "(of_nat (?l + ?w) :: uint) - of_nat ?l = of_nat ?w" by simp
    moreover have "unat (of_nat ?w :: uint) = ?w" "unat (of_nat ?w :: size_t) = ?w"
      using le small by (intro unat_of_nat_uint unat_of_nat_size; simp)+
    ultimately show "unat (ucast ((of_nat (?l + ?w) :: uint) - of_nat ?l) :: size_t) = unat (of_nat ?w :: size_t)"
      by simp
  qed
  have ends: "(ucast (of_nat (?l + ?w + ?g) :: uint) :: size_t) = h_size h \<longleftrightarrow> after_word cs = []"
    using u(3) D(3) split_length [of cs] by (simp add: word_unat_eq_iff)
  have rest_size: "h_size h - ucast (of_nat (?l + ?w + ?g) :: uint) = (of_nat (length (after_word cs)) :: size_t)"
  proof -
    have "h_size h = of_nat (length cs)" using D(3) by (rule size_eqI)
    moreover have "(ucast (of_nat (?l + ?w + ?g) :: uint) :: size_t) = of_nat (?l + ?w + ?g)"
      using u(3) by (intro size_eqI) simp
    moreover have "length cs = (?l + ?w + ?g) + length (after_word cs)" by (rule split_length)
    ultimately show ?thesis by (simp only: of_nat_add) simp
  qed
  have rest_at: "length cs - length (after_word cs) = ?l + ?w + ?g"
    using split_length [of cs] by linarith
  note steps = str_split_whitespace_pop_def str_is_valid_def cbind_apply str_rep_p [OF rep] isspace_ascii
    Let_def str_length_def word gap part_size rest_size rest_at
  show ?thesis
  proof (cases "is_space c0")
    case True
    then show ?thesis
      using rep c0 ends u start(1) by (simp add: steps del: of_nat_add scan_while.simps)
  next
    case False
    then have l: "?l = 0" by (rule start(2))
    have word0: "scan_while False ?fuel (h_data h) (h_size h) 0 s = Inr (of_nat ?w, s)" using word by (simp only: l semiring_1_class.of_nat_0 add_0_left)
    have "lead cs = []" using l by simp
    then show ?thesis
      using False rep c0 ends u gap part_size rest_size by (simp add: steps word0 del: of_nat_add scan_while.simps)
  qed
qed

lemma first_word_empty: "first_word cs = [] \<Longrightarrow> dropWhile is_space cs = []"
proof (rule ccontr)
  assume "first_word cs = []" and "dropWhile is_space cs \<noteq> []"
  then show False using hd_dropWhile [of is_space cs] by (cases "dropWhile is_space cs") (auto simp: first_word_def)
qed

section \<open>Searching\<close>

text \<open>\<open>occurs ds cs i\<close>: the text \<open>ds\<close> stands at position \<open>i\<close> of \<open>cs\<close>.\<close>

definition occurs :: "byte list \<Rightarrow> byte list \<Rightarrow> nat \<Rightarrow> bool" where
  "occurs ds cs i \<longleftrightarrow> i + length ds \<le> length cs \<and> take (length ds) (drop i cs) = ds"

definition find_text :: "byte list \<Rightarrow> byte list \<Rightarrow> nat option" where
  "find_text ds cs = List.find (occurs ds cs) [0..<length cs - length ds + 1]"

lemma match_offset_exec:
  assumes hay: "chars_at p cs s" and needle: "chars_at q ds s" and small: "length cs < 2 ^ 32"
    and n: "unat n = length ds" and fits: "unat i + length ds \<le> length cs"
  shows "unat off \<le> length ds \<Longrightarrow> take (unat off) (drop (unat i) cs) = take (unat off) ds \<Longrightarrow>
    \<exists>r. match_offset p i q n off s = Inr (r, s) \<and> (r = n \<longleftrightarrow> occurs ds cs (unat i))"
proof (induction "length ds - unat off" arbitrary: off rule: less_induct)
  case less
  show ?case
  proof (cases "off < n")
    case False
    then have "unat off = length ds" using less.prems n by (simp add: word_less_nat_alt)
    then have "off = n" "occurs ds cs (unat i)"
      using n fits less.prems(2) by (simp_all add: word_unat_eq_iff occurs_def)
    then show ?thesis using False by (subst match_offset.simps) simp
  next
    case True
    then have lt: "unat off < length ds" using n by (simp add: word_less_nat_alt)
    have up: "unat (off + 1) = Suc (unat off)" using True by (rule unat_plus_one)
    have add: "unat (ucast i + off) = unat i + unat off"
    proof -
      have "unat (ucast i :: size_t) + unat off < 2 ^ LENGTH(64)" using fits lt small by simp
      then show ?thesis by (simp add: unat_word_ariths)
    qed
    have at: "load_byte (ptr_add p (unat i + unat off)) s = Inr (cs ! (unat i + unat off), s)"
      using fits lt by (intro load_byte_chars [OF hay]) simp
    show ?thesis
    proof (cases "cs ! (unat i + unat off) = ds ! unat off")
      case same: True
      have "take (unat (off + 1)) (drop (unat i) cs) = take (unat (off + 1)) ds"
        using less.prems(2) same lt fits by (simp add: up take_Suc_conv_app_nth)
      then have "\<exists>r. match_offset p i q n (off + 1) s = Inr (r, s) \<and> (r = n \<longleftrightarrow> occurs ds cs (unat i))"
        using lt up by (intro less.hyps) simp_all
      then show ?thesis
        using True same
        by (subst match_offset.simps) (simp add: cbind_apply add at load_byte_chars [OF needle lt])
    next
      case False
      have "\<not> occurs ds cs (unat i)"
      proof
        assume "occurs ds cs (unat i)"
        then have "take (length ds) (drop (unat i) cs) ! unat off = ds ! unat off" by (simp add: occurs_def)
        then show False using False lt fits by simp
      qed
      moreover have "off \<noteq> n" using True by simp
      ultimately show ?thesis
        using True False
        by (subst match_offset.simps) (simp add: cbind_apply add at load_byte_chars [OF needle lt])
    qed
  qed
qed

lemma str_find_loop_exec:
  assumes hay: "chars_at p cs s" and needle: "chars_at q ds s" and small: "length cs < 2 ^ 31"
    and n: "unat n = length ds" and le: "length ds \<le> length cs"
    and limit: "unat limit = length cs - length ds + 1"
  shows "unat i \<le> unat limit \<Longrightarrow> unat limit - unat i < fuel \<Longrightarrow> str_find_loop fuel p q limit n i s =
    Inr (case List.find (occurs ds cs) [unat i..<unat limit] of None \<Rightarrow> - 1 | Some j \<Rightarrow> of_nat j, s)"
proof (induction fuel arbitrary: i)
  case (Suc fuel)
  show ?case
  proof (cases "unat i < unat limit")
    case False
    then show ?thesis by (simp add: word_less_nat_alt)
  next
    case True
    have up: "unat (i + 1) = Suc (unat i)" using True limit le small by (intro unat_next [of _ "length cs + 1"]) simp_all
    have "\<exists>r. match_offset p i q n 0 s = Inr (r, s) \<and> (r = n \<longleftrightarrow> occurs ds cs (unat i))"
      using True limit le small by (intro match_offset_exec [OF hay needle _ n]) simp_all
    then obtain r where "match_offset p i q n 0 s = Inr (r, s)" "r = n \<longleftrightarrow> occurs ds cs (unat i)" by blast
    then show ?thesis
      using True up Suc.IH [of "i + 1"] Suc.prems
      by (simp add: word_less_nat_alt cbind_apply upt_conv_Cons)
  qed
qed simp

lemma str_find_exec:
  assumes hay: "str_rep h cs s" and needle: "str_rep g ds s" and small: "length cs < 2 ^ 31"
  shows "str_find tb h g s = Inr
    (if length cs < length ds then - 1 else case find_text ds cs of None \<Rightarrow> - 1 | Some j \<Rightarrow> of_nat j, s)"
proof -
  note H = str_repD [OF hay] and G = str_repD [OF needle]
  have cmp: "h_size h < h_size g \<longleftrightarrow> length cs < length ds"
    using H(3) G(3) by (simp add: word_less_nat_alt)
  show ?thesis
  proof (cases "length cs < length ds")
    case True
    then show ?thesis using hay needle cmp by (simp add: str_find_def str_is_valid_def)
  next
    case False
    let ?limit = "h_size h - h_size g + 1"
    have "h_size g \<le> h_size h" using False H(3) G(3) by (simp add: word_le_nat_alt)
    then have sub: "unat (h_size h - h_size g) = length cs - length ds"
      using H(3) G(3) by (simp add: unat_sub)
    then have "unat (h_size h - h_size g) + 1 < 2 ^ LENGTH(64)" using small by simp
    then have limit: "unat ?limit = length cs - length ds + 1"
      using sub by (simp add: unat_word_ariths)
    then show ?thesis
      using False cmp hay needle
        str_find_loop_exec [OF H(2) G(2) small G(3) _ limit, of 0 "Suc (unat ?limit)"]
      by (simp add: str_find_def str_is_valid_def cbind_apply str_rep_p [OF hay] str_rep_p [OF needle]
          find_text_def Let_def del: str_find_loop.simps upt_Suc)
  qed
qed

lemma find_text_Some_iff: "length ds \<le> length cs \<Longrightarrow>
    find_text ds cs = Some i \<longleftrightarrow> occurs ds cs i \<and> (\<forall>j < i. \<not> occurs ds cs j)"
  unfolding find_text_def find_upt_Some_iff by (auto simp: occurs_def)

lemma find_text_None_iff: "length ds \<le> length cs \<Longrightarrow> find_text ds cs = None \<longleftrightarrow> (\<forall>j. \<not> occurs ds cs j)"
  unfolding find_text_def find_None_iff by (auto simp: occurs_def simp del: upt_Suc)

section \<open>Comparing\<close>

text \<open>The lexicographic order of two texts, as chars, which are signed: -1, 0 or 1.\<close>

fun compare_text :: "byte list \<Rightarrow> byte list \<Rightarrow> int" where
  "compare_text [] [] = 0"
| "compare_text [] (d # ds) = - 1"
| "compare_text (c # cs) [] = 1"
| "compare_text (c # cs) (d # ds) =
     (if c = d then compare_text cs ds else if sint c < sint d then - 1 else 1)"

lemma common_prefix_exec:
  assumes "chars_at p cs s" and "chars_at q ds s" and n: "unat n = min (length cs) (length ds)"
  shows "unat i \<le> unat n \<Longrightarrow> \<exists>j. common_prefix p q n i s = Inr (j, s) \<and> unat j \<le> unat n \<and>
    compare_text (drop (unat i) cs) (drop (unat i) ds) = compare_text (drop (unat j) cs) (drop (unat j) ds) \<and>
    (unat j < unat n \<longrightarrow> cs ! unat j \<noteq> ds ! unat j)"
proof (induction "unat n - unat i" arbitrary: i rule: less_induct)
  case less
  show ?case
  proof (cases "i < n")
    case False
    then show ?thesis using less.prems by (subst common_prefix.simps) (simp add: word_less_nat_alt)
  next
    case True
    then have lt: "unat i < length cs" "unat i < length ds" using n by (simp_all add: word_less_nat_alt)
    have up: "unat (i + 1) = Suc (unat i)" using True by (rule unat_plus_one)
    show ?thesis
    proof (cases "cs ! unat i = ds ! unat i")
      case same: True
      have "unat n - unat (i + 1) < unat n - unat i" "unat (i + 1) \<le> unat n" using True up by (simp_all add: word_less_nat_alt)
      from less.hyps [OF this] same True lt up show ?thesis
        by (subst common_prefix.simps)
          (simp add: cbind_apply load_byte_chars [OF assms(1)] load_byte_chars [OF assms(2)]
            Cons_nth_drop_Suc [symmetric])
    next
      case False
      then show ?thesis
        using True lt
        by (subst common_prefix.simps)
          (simp add: cbind_apply load_byte_chars [OF assms(1)] load_byte_chars [OF assms(2)] word_less_nat_alt)
    qed
  qed
qed

lemma str_compare_exec:
  assumes f: "str_rep h cs s" and g: "str_rep g ds s" and small: "length cs < 2 ^ 32 \<or> length ds < 2 ^ 32"
  shows "str_compare tb h g s = Inr (compare_text cs ds, s)"
proof -
  note F = str_repD [OF f] and G = str_repD [OF g]
  let ?n = "ucast (if h_size h < h_size g then h_size h else h_size g) :: uint"
  have "unat (if h_size h < h_size g then h_size h else h_size g) = min (length cs) (length ds)"
    using F(3) G(3) by (simp add: word_less_nat_alt)
  then have n: "unat ?n = min (length cs) (length ds)"
    using small by (auto simp: unsigned_ucast_eq take_bit_nat_eq_self)
  obtain j where j: "common_prefix (h_data h) (h_data g) ?n 0 s = Inr (j, s)" "unat j \<le> unat ?n"
      "compare_text cs ds = compare_text (drop (unat j) cs) (drop (unat j) ds)"
      "unat j < unat ?n \<longrightarrow> cs ! unat j \<noteq> ds ! unat j"
    using common_prefix_exec [OF F(2) G(2) n, of 0] by auto
  have at: "ucast j = h_size h \<longleftrightarrow> unat j = length cs" "ucast j = h_size g \<longleftrightarrow> unat j = length ds"
    "h_size h = h_size g \<longleftrightarrow> length cs = length ds"
    using F(3) G(3) by (simp_all add: word_unat_eq_iff)
  consider (first) "unat j = length cs" | (second) "unat j = length ds" "unat j < length cs"
    | (differ) "unat j < length cs" "unat j < length ds"
    using j(2) n by linarith
  then show ?thesis
  proof cases
    case first
    then show ?thesis
      using j(1,2,3) n at f g
      by (cases "drop (unat j) ds")
        (auto simp: str_compare_def str_is_valid_def cbind_apply str_rep_p [OF f] str_rep_p [OF g] Let_def)
  next
    case second
    then show ?thesis
      using j(1,2,3) n at f g
      by (cases "drop (unat j) cs")
        (auto simp: str_compare_def str_is_valid_def cbind_apply str_rep_p [OF f] str_rep_p [OF g] Let_def)
  next
    case differ
    then show ?thesis
      using j n at f g
      by (simp add: str_compare_def str_is_valid_def cbind_apply str_rep_p [OF f] str_rep_p [OF g] Let_def
          load_byte_chars [OF F(2)] load_byte_chars [OF G(2)] Cons_nth_drop_Suc [symmetric])
  qed
qed

section \<open>Splitting\<close>

lemma str_rep_sub:
  assumes rep: "str_rep h cs s" and "i + n \<le> length cs" and "unat k = n"
  shows "str_rep (mem_handle_from_ptr (ptr_add (h_data h) i) k) (take n (drop i cs)) s"
  using chars_at_sub [OF str_repD(2) [OF rep] assms(2)] assms(2,3)
  by (simp add: str_rep_def transparent_def mem_handle_from_ptr_def)

lemma occurs_split: "occurs ds cs i \<Longrightarrow> cs = take i cs @ ds @ drop (i + length ds) cs"
  by (metis occurs_def append_take_drop_id drop_drop add.commute)

lemma str_split_pop_exec:
  assumes h: "str_rep h cs s" and g: "str_rep g ds s" and small: "length cs < 2 ^ 31"
    and i: "find_text ds cs = Some i" and le: "length ds \<le> length cs"
  shows "str_split_pop tb h g part s = Inr
    ((mem_handle_from_ptr (ptr_add (h_data h) (i + length ds)) (of_nat (length cs - i - length ds)),
      mem_handle_from_ptr (h_data h) (of_nat i)), s)"
proof -
  note H = str_repD [OF h] and G = str_repD [OF g]
  have fit: "i + length ds \<le> length cs" using i le by (simp add: find_text_Some_iff occurs_def)
  then have small_i: "i < 2 ^ 31" using small by simp
  then have si: "sint (of_nat i :: uint) = int i" by (simp add: signed_of_nat signed_take_bit_int_eq_self)
  have sc: "(scast (of_nat i :: uint) :: size_t) = of_nat i"
    using si small_i by (simp add: signed_scast_eq sint_eqD signed_take_bit_int_eq_self signed_of_nat) 
  have ne: "(of_nat i :: uint) \<noteq> - 1"
  proof
    assume "(of_nat i :: uint) = - 1"
    then have "sint (of_nat i :: uint) = - 1" by simp
    then show False using si by simp
  qed
  have len: "h_size h = of_nat (length cs)" "h_size g = of_nat (length ds)"
    using H(3) G(3) by (simp_all add: size_eqI)
  have sum: "length cs = i + length ds + (length cs - i - length ds)" using fit by simp
  have size: "h_size h - of_nat i - h_size g = of_nat (length cs - i - length ds)"
    unfolding len by (subst sum) simp
  have ug: "uint (h_size g) = int (length ds)" using G(3) by (metis uint_nat)
  have "str_find tb h g s = Inr (of_nat i, s)" using str_find_exec [OF h g small, of tb] le i by simp
  then show ?thesis
    using h g ne
    by (simp add: str_split_pop_def str_is_valid_def cbind_apply str_rep_p [OF h] ptr_addi_def si sc ug size
        nat_add_distrib ptr_add_def add.assoc)
qed

lemma space_at_base: "pbase p = pbase q \<Longrightarrow> space_at p bs s \<Longrightarrow> space_at q bs s"
  by (auto simp: space_at_def block_at_Inr_iff)

end
