(* ===== verification/Ds_Str_Props.thy ===== *)
theory Ds_Str_Props
  imports Ds_Str_Proofs
begin

text \<open>
  The properties of searching, comparing, splitting and copying strs.
\<close>

text \<open>
  C34. str_find returns the first position at which the second text occurs in the first, or -1
  when it does not occur, for texts of fewer than 2^31 characters.
\<close>

theorem str_find_first:
  assumes "str_rep h cs s" and "str_rep g ds s" and "length cs < 2 ^ 31"
  shows "\<exists>r. str_find tb h g s = Inr (r, s) \<and>
    (if \<forall>j. \<not> occurs ds cs j then sint r = - 1
     else sint r = int (LEAST j. occurs ds cs j))"
proof (cases "\<exists>j. occurs ds cs j")
  case False
  then have "find_text ds cs = None \<or> length cs < length ds" by (cases "length cs < length ds") (auto simp: find_text_None_iff)
  then show ?thesis using False str_find_exec [OF assms, of tb] by auto
next
  case True
  then have le: "length ds \<le> length cs" by (auto simp: occurs_def)
  define i where "i = (LEAST j. occurs ds cs j)"
  have i: "occurs ds cs i" "\<forall>j < i. \<not> occurs ds cs j"
    using True unfolding i_def by (auto intro: LeastI dest: not_less_Least)
  then have "find_text ds cs = Some i" using le by (simp add: find_text_Some_iff)
  then have "str_find tb h g s = Inr (of_nat i, s)" using str_find_exec [OF assms, of tb] le by simp
  moreover have "sint (of_nat i :: uint) = int i"
  proof -
    have "i < 2 ^ 31" using i(1) assms(3) by (simp add: occurs_def)
    then show ?thesis by (simp add: signed_of_nat signed_take_bit_int_eq_self)
  qed
  ultimately show ?thesis using True by (auto simp: i_def)
qed

theorem str_find_first_witness:
  "\<exists>r. str_find (memtbl_ops 0) (mem_handle_from_ptr (Ptr 0x7000 0) 3) (mem_handle_from_ptr (Ptr 0x7000 1) 1)
      (sample_texts [72, 101, 101]) = Inr (r, sample_texts [72, 101, 101]) \<and> sint r = 1"
proof -
  let ?cs = "[72, 101, 101] :: byte list" and ?s = "sample_texts [72, 101, 101]"
  have h: "str_rep (mem_handle_from_ptr (Ptr 0x7000 0) 3) ?cs ?s"
    using sample_texts_str [of ?cs "0x7000"] by simp
  have g: "str_rep (mem_handle_from_ptr (Ptr 0x7000 1) 1) [101] ?s"
    using chars_at_sub [OF str_repD(2) [OF h], of 1 1]
    by (simp add: str_rep_def transparent_def mem_handle_from_ptr_def ptr_add_def)
  have "(LEAST j. occurs [101] ?cs j) = 1"
  proof (rule Least_equality)
    fix j assume "occurs [101] ?cs j"
    then show "1 \<le> j" by (cases j) (auto simp: occurs_def)
  qed (simp add: occurs_def)
  moreover have "occurs [101] ?cs 1" by (simp add: occurs_def)
  then have "\<not> (\<forall>j. \<not> occurs [101] ?cs j)" by blast
  ultimately show ?thesis using str_find_first [OF h g, of "memtbl_ops 0"] by (simp only: if_False) simp
qed

text \<open>
  C35. str_compare is the lexicographic order of the two texts, chars compared as signed numbers, if
  at least one of them has fewer than 2^32 characters: 0 for equal texts, -1 when the first is
  smaller or a proper prefix, 1 otherwise.
\<close>

theorem str_compare_lexicographic:
  assumes "str_rep h cs s" and "str_rep g ds s" and "length cs < 2 ^ 32 \<or> length ds < 2 ^ 32"
  shows "\<exists>r. str_compare tb h g s = Inr (r, s) \<and> (r = 0 \<longleftrightarrow> cs = ds) \<and>
    (r = - 1 \<longleftrightarrow> (map sint cs, map sint ds) \<in> lexord {(a, b). a < b}) \<and>
    (r = 1 \<longleftrightarrow> (map sint ds, map sint cs) \<in> lexord {(a, b). a < b})"
proof -
  have "(compare_text cs ds = 0 \<longleftrightarrow> cs = ds) \<and>
    (compare_text cs ds = - 1 \<longleftrightarrow> (map sint cs, map sint ds) \<in> lexord {(a, b). a < b}) \<and>
    (compare_text cs ds = 1 \<longleftrightarrow> (map sint ds, map sint cs) \<in> lexord {(a, b). a < b})"
  proof (induction cs ds rule: compare_text.induct)
    case (4 c cs d ds)
    have "c \<noteq> d \<Longrightarrow> sint c \<noteq> sint d" using sint_eqD by blast
    then show ?case using 4 by (auto simp: not_less dest: order.strict_trans)
  qed auto
  then show ?thesis using str_compare_exec [OF assms, of tb] by auto
qed

theorem str_compare_lexicographic_witness:
  "str_compare (memtbl_ops 0) (mem_handle_from_ptr (Ptr 0x7000 0) 3) (mem_handle_from_ptr (Ptr 0x8000 0) 3)
      (sample_texts [72, 200, 101]) = Inr (0, sample_texts [72, 200, 101])"
proof -
  let ?cs = "[72, 200, 101] :: byte list" and ?s = "sample_texts [72, 200, 101]"
  have h: "str_rep (mem_handle_from_ptr (Ptr 0x7000 0) 3) ?cs ?s"
    "str_rep (mem_handle_from_ptr (Ptr 0x8000 0) 3) ?cs ?s"
    using sample_texts_str [of ?cs "0x7000"] sample_texts_str [of ?cs "0x8000"] by simp_all
  show ?thesis using str_compare_lexicographic [OF h, of "memtbl_ops 0"] by auto
qed

text \<open>
  str_split_pop splits a text at the first occurrence of the delimiter: the part before it and
  the rest after it are references into the same characters and together give the text back; with
  no occurrence the part is the whole text and the rest is invalid.
\<close>

theorem str_split_pop_parts:
  assumes "str_rep h cs s" and "str_rep g ds s" and "length cs < 2 ^ 31"
  shows "\<exists>rest part. str_split_pop tb h g part0 s = Inr ((rest, part), s) \<and>
    (if \<forall>j. \<not> occurs ds cs j then rest = null_handle \<and> str_rep part cs s
     else \<exists>xs ys. cs = xs @ ds @ ys \<and> (\<forall>j < length xs. \<not> occurs ds cs j) \<and>
       str_rep part xs s \<and> str_rep rest ys s)"
proof (cases "\<exists>j. occurs ds cs j")
  case False
  then have "find_text ds cs = None \<or> length cs < length ds"
    by (cases "length cs < length ds") (auto simp: find_text_None_iff)
  then have "str_find tb h g s = Inr (- 1, s)" using str_find_exec [OF assms, of tb] by auto
  then have "str_split_pop tb h g part0 s = Inr ((null_handle, mem_handle_from_ptr (h_data h) (h_size h)), s)"
    using assms(1,2) by (simp add: str_split_pop_def str_is_valid_def cbind_apply str_rep_p [OF assms(1)])
  moreover have "str_rep (mem_handle_from_ptr (h_data h) (h_size h)) cs s"
    using str_repD [OF assms(1)] by (simp add: str_rep_def transparent_def mem_handle_from_ptr_def)
  ultimately show ?thesis using False by simp
next
  case True
  then have le: "length ds \<le> length cs" by (auto simp: occurs_def)
  then obtain i where i: "find_text ds cs = Some i" using True find_text_None_iff by (cases "find_text ds cs") auto
  then have occ: "occurs ds cs i" "\<forall>j < i. \<not> occurs ds cs j" using le by (simp_all add: find_text_Some_iff)
  then have fit: "i + length ds \<le> length cs" by (simp add: occurs_def)
  have "str_rep (mem_handle_from_ptr (ptr_add (h_data h) 0) (of_nat i)) (take i (drop 0 cs)) s"
    using fit assms(3) by (intro str_rep_sub [OF assms(1)]) (simp_all add: unat_of_nat)
  moreover have "str_rep (mem_handle_from_ptr (ptr_add (h_data h) (i + length ds)) (of_nat (length cs - i - length ds)))
      (take (length cs - i - length ds) (drop (i + length ds) cs)) s"
    using fit assms(3) by (intro str_rep_sub [OF assms(1)] unat_of_nat_size) simp_all
  moreover have "length (take i cs) = i" "\<not> (\<forall>j. \<not> occurs ds cs j)" using fit True by simp_all
  moreover have "take (length cs - i - length ds) (drop (i + length ds) cs) = drop (i + length ds) cs" by simp
  ultimately show ?thesis
    using str_split_pop_exec [OF assms i le, of tb part0] occ(2) occurs_split [OF occ(1)]
    by (simp only: if_False drop_0 ptr_add_0) metis
qed

theorem str_split_pop_parts_witness:
  "\<exists>rest part. str_split_pop (memtbl_ops 0) (mem_handle_from_ptr (Ptr 0x7000 0) 3) (mem_handle_from_ptr (Ptr 0x7000 1) 1)
      null_handle (sample_texts [72, 101, 101]) = Inr ((rest, part), sample_texts [72, 101, 101]) \<and>
    str_rep part [72] (sample_texts [72, 101, 101]) \<and> str_rep rest [101] (sample_texts [72, 101, 101])"
proof -
  let ?cs = "[72, 101, 101] :: byte list" and ?s = "sample_texts [72, 101, 101]"
  have h: "str_rep (mem_handle_from_ptr (Ptr 0x7000 0) 3) ?cs ?s"
    using sample_texts_str [of ?cs "0x7000"] by simp
  have g: "str_rep (mem_handle_from_ptr (Ptr 0x7000 1) 1) [101] ?s"
    using chars_at_sub [OF str_repD(2) [OF h], of 1 1]
    by (simp add: str_rep_def transparent_def mem_handle_from_ptr_def ptr_add_def)
  have occ: "occurs [101] ?cs 1" by (simp add: occurs_def)
  have split: "xs = [72] \<and> ys = [101]" if "?cs = xs @ [101] @ ys" "\<forall>j < length xs. \<not> occurs [101] ?cs j" for xs ys
  proof -
    have "length xs \<le> 1" using that(2) occ by (meson not_le)
    then show ?thesis using that(1) by (cases xs) auto
  qed
  have some: "\<not> (\<forall>j. \<not> occurs [101] ?cs j)" and small: "length ?cs < 2 ^ 31" using occ by (blast, simp)
  from str_split_pop_parts [OF h g small, of "memtbl_ops 0" null_handle, unfolded if_not_P [OF some]]
  obtain rest part xs ys where
      "str_split_pop (memtbl_ops 0) (mem_handle_from_ptr (Ptr 0x7000 0) 3) (mem_handle_from_ptr (Ptr 0x7000 1) 1)
        null_handle ?s = Inr ((rest, part), ?s)"
      and eq: "?cs = xs @ [101] @ ys" "\<forall>j < length xs. \<not> occurs [101] ?cs j" "str_rep part xs ?s" "str_rep rest ys ?s"
    by blast
  then show ?thesis using split [OF eq(1,2)] by blast
qed

text \<open>
  str_split_whitespace_pop skips leading whitespace and returns the next word and the rest
  after the whitespace that follows it, for an ASCII text of fewer than 2^32 characters: the word
  holds no whitespace and is empty only at the end of the text, the rest is invalid when nothing
  is left and otherwise begins with the next word, and the four parts give the text back.
\<close>

theorem str_split_whitespace_pop_parts:
  assumes "str_rep h cs s" and "cs \<noteq> []" and "length cs < 2 ^ 32" and "\<forall>c \<in> set cs. c < 128"
  shows "\<exists>rest part sp w gap ys. str_split_whitespace_pop tb h part0 s = Inr ((rest, part), s) \<and>
    cs = sp @ w @ gap @ ys \<and> (\<forall>c \<in> set sp \<union> set gap. is_space c) \<and> (\<forall>c \<in> set w. \<not> is_space c) \<and>
    str_rep part w s \<and> (w = [] \<longrightarrow> gap = [] \<and> ys = []) \<and>
    (if ys = [] then rest = null_handle else str_rep rest ys s \<and> \<not> is_space (hd ys))"
proof -
  let ?l = "length (lead cs)" and ?w = "length (first_word cs)" and ?y = "length (after_word cs)"
  have c0: "load_byte (h_data h) s = Inr (cs ! 0, s)" "cs ! 0 < 128"
    using load_first_byte [OF str_repD(2) [OF assms(1)] assms(2)] assms(2,4) by simp_all
  have len: "length cs = ?l + ?w + length (word_gap cs) + ?y" by (rule split_length)
  have word: "take ?w (drop ?l cs) = first_word cs" by (subst (3) split_parts) simp
  have rest: "take ?y (drop (length cs - ?y) cs) = after_word cs" using len by (subst (3) split_parts) simp
  have "str_rep (mem_handle_from_ptr (ptr_add (h_data h) ?l) (of_nat ?w)) (take ?w (drop ?l cs)) s"
    using len assms(3) by (intro str_rep_sub [OF assms(1)]) (simp_all add: unat_of_nat)
  moreover have "str_rep (mem_handle_from_ptr (ptr_add (h_data h) (length cs - ?y)) (of_nat ?y))
      (take ?y (drop (length cs - ?y) cs)) s"
    using len assms(3) by (intro str_rep_sub [OF assms(1)]) (simp_all add: unat_of_nat)
  moreover have "\<forall>c \<in> set (lead cs) \<union> set (word_gap cs). is_space c" "\<forall>c \<in> set (first_word cs). \<not> is_space c"
    by (auto simp: lead_def word_gap_def first_word_def dest: set_takeWhileD)
  moreover have "first_word cs = [] \<longrightarrow> word_gap cs = [] \<and> after_word cs = []"
    by (intro impI) (drule first_word_empty,
      simp only: word_gap_def after_word_def dropWhile.simps takeWhile.simps simp_thms)
  moreover have "after_word cs \<noteq> [] \<longrightarrow> \<not> is_space (hd (after_word cs))"
    unfolding after_word_def using hd_dropWhile by blast
  ultimately have parts: "str_rep (mem_handle_from_ptr (ptr_add (h_data h) ?l) (of_nat ?w)) (first_word cs) s"
      "\<forall>c \<in> set (lead cs) \<union> set (word_gap cs). is_space c" "\<forall>c \<in> set (first_word cs). \<not> is_space c"
      "first_word cs = [] \<longrightarrow> word_gap cs = [] \<and> after_word cs = []"
      "if after_word cs = [] then (if after_word cs = [] then null_handle
         else mem_handle_from_ptr (ptr_add (h_data h) (length cs - ?y)) (of_nat ?y)) = null_handle
       else str_rep (if after_word cs = [] then null_handle
         else mem_handle_from_ptr (ptr_add (h_data h) (length cs - ?y)) (of_nat ?y)) (after_word cs) s \<and>
         \<not> is_space (hd (after_word cs))"
    unfolding word rest by simp_all
  show ?thesis
    by (intro exI conjI, rule str_split_whitespace_exec [OF assms(1,3,4) c0], rule split_parts) (rule parts)+
qed

theorem str_split_whitespace_pop_parts_witness:
  "\<exists>rest part sp w gap ys. str_split_whitespace_pop (memtbl_ops 0) (mem_handle_from_ptr (Ptr 0x7000 0) 3)
      null_handle (sample_texts [32, 72, 101]) = Inr ((rest, part), sample_texts [32, 72, 101]) \<and>
    [32, 72, 101] = sp @ w @ gap @ ys \<and> str_rep part w (sample_texts [32, 72, 101])"
  using str_split_whitespace_pop_parts [OF sample_texts_str [of "[32, 72, 101]" "0x7000"],
      of "memtbl_ops 0" null_handle]
  by (simp del: ex_simps) blast

text \<open>
  C39. str_write_cstr_to_buf never writes past the buffer: for a buffer of at least one byte it
  stores as much of the text as fits before a terminator, the terminator, and nothing else; the
  result is a str with the characters that were copied.
\<close>

theorem str_write_cstr_to_buf_bounds:
  assumes "str_rep h cs s" and "space_at buf bs s" and "unat bufsize \<le> length bs - poff buf" and "0 < bufsize"
    and "poff buf \<le> length bs" and "pbase buf \<noteq> pbase (h_data h)"
  shows "runs (str_write_cstr_to_buf tb h buf bufsize) s (\<lambda>r t. env_same s t \<and>
    str_rep r (take (unat bufsize - 1) cs) t \<and> h_data r = buf \<and>
    (\<exists>bs'. space_at buf bs' t \<and> length bs' = length bs \<and>
       take (poff buf) bs' = take (poff buf) bs \<and>
       drop (poff buf) bs' = map Some (take (unat bufsize - 1) cs) @ Some 0 #
         drop (poff buf + Suc (length (take (unat bufsize - 1) cs))) bs) \<and>
    (\<forall>a. a \<noteq> pbase buf \<longrightarrow> heap t a = heap s a))"
proof -
  note H = str_repD [OF assms(1)]
  let ?k = "length (take (unat bufsize - 1) cs)" and ?cs = "take (unat bufsize - 1) cs"
  let ?n = "if h_size h < bufsize - 1 then h_size h else bufsize - 1"
  have b1: "unat (bufsize - 1) = unat bufsize - 1" using assms(4) by (simp add: unat_minus_one word_gt_0)
  have n: "unat ?n = ?k" using H(3) b1 by (simp add: word_less_nat_alt min_def)
  have pos: "0 < unat bufsize" using assms(4) by (simp add: unat_gt_0 word_gt_0)
  have "take ?k cs = ?cs" "?k \<le> length cs" by (simp_all add: min_def)
  then have src: "chars_at (h_data h) ?cs s" using chars_at_sub [OF H(2), of 0 ?k] by (simp del: length_take)
  have room: "poff buf + Suc ?k \<le> length bs" using assms(3,5) pos by simp
  let ?bs1 = "splice bs (poff buf) (map Some ?cs)"
  let ?s1 = "set_content buf (Bytes ?bs1) s"
  have cp: "memcpy buf (h_data h) ?n s = Inr ((), ?s1)"
    using room n by (intro memcpy_exec [OF src assms(2) _ assms(6)]) simp_all
  have l1: "length ?bs1 = length bs" using room by (intro length_splice) simp
  have sp1: "space_at buf ?bs1 ?s1" by (rule space_at_set [OF assms(2)])
  then have sp1': "space_at (ptr_add buf ?k) ?bs1 ?s1" by (rule space_at_base [rotated]) simp
  let ?bs2 = "splice ?bs1 (poff buf + ?k) [Some 0]"
  let ?s2 = "set_content (ptr_add buf ?k) (Bytes ?bs2) ?s1"
  have st: "store_bytes (ptr_add buf ?k) [Some 0] ?s1 = Inr ((), ?s2)"
    using store_bytes_exec [OF sp1', of "[Some 0]"] room l1 by simp
  have l2: "length ?bs2 = length bs" using room l1 by (simp add: length_splice)
  have sp2: "space_at buf ?bs2 ?s2" by (rule space_at_base [OF _ space_at_set [OF sp1']]) simp
  have pre: "take (poff buf) ?bs2 = take (poff buf) bs"
    using room by (simp add: splice_def min_def)
  have post: "drop (poff buf) ?bs2 = map Some ?cs @ Some 0 # drop (poff buf + Suc ?k) bs"
    using room by (simp add: splice_def)
  have "buf \<noteq> NULL" using assms(2) by (auto simp: space_at_def block_at_Inr_iff)
  then have run: "str_write_cstr_to_buf tb h buf bufsize s = Inr (mem_handle_from_ptr buf ?n, ?s2)"
    using cp st assms(1) n
    by (simp add: str_write_cstr_to_buf_def str_is_valid_def cbind_apply str_rep_p [OF assms(1)] Let_def)
  have "chars_at buf ?cs ?s2"
    using room l2 post by (intro chars_at_space [OF sp2]) simp_all
  then have "str_rep (mem_handle_from_ptr buf ?n) ?cs ?s2"
    using n by (simp add: str_rep_def transparent_def mem_handle_from_ptr_def)
  then show ?thesis
    using sp2 l2 pre post
    by (auto simp: runs_def run heap_set_content mem_handle_from_ptr_def)
qed

theorem str_write_cstr_to_buf_bounds_witness:
  "runs (str_write_cstr_to_buf (memtbl_ops 0) (mem_handle_from_ptr (Ptr 0x7000 0) 3) (Ptr 0x8000 0) 3)
     (sample_texts [72, 101, 108])
     (\<lambda>r t. \<exists>bs. space_at (Ptr 0x8000 0) bs t \<and> bs = [Some 72, Some 101, Some 0])"
proof -
  let ?cs = "[72, 101, 108] :: byte list" and ?s = "sample_texts [72, 101, 108]"
  have h: "str_rep (mem_handle_from_ptr (Ptr 0x7000 0) 3) ?cs ?s"
    using sample_texts_str [of ?cs "0x7000"] by simp
  have sp: "space_at (Ptr 0x8000 0) (map Some ?cs) ?s"
    by (simp add: space_at_def block_at_def sample_texts_def text_block_def block_bytes_def)
  show ?thesis
    by (rule runs_conseq [OF str_write_cstr_to_buf_bounds [OF h sp, of 3]])
      (auto simp: mem_handle_from_ptr_def take_Cons')
qed

end
