(* ===== verification/Ds_Split.thy ===== *)
theory Ds_Split
  imports Ds_Str_Proofs
begin

text \<open>
  Splitting a text by calling a pop function until the rest is invalid, the way str.h shows: the
  client loops, what they return as functions on texts, and the proof that they end with it. The
  loop over words is the one of process_line in m65tool.c.
\<close>

section \<open>The words of a text\<close>

lemma after_word_shorter: "cs \<noteq> [] \<Longrightarrow> length (after_word cs) < length cs"
proof -
  assume "cs \<noteq> []"
  then have "lead cs \<noteq> [] \<or> first_word cs \<noteq> []"
    using first_word_empty [of cs] by (auto simp: lead_def dropWhile_eq_self_iff takeWhile_eq_Nil_iff)
  then show ?thesis using split_length [of cs] by auto
qed

lemma parts_of_nil [simp]: "first_word [] = []" "after_word [] = []"
  by (simp_all add: first_word_def after_word_def)

function split_words :: "byte list \<Rightarrow> byte list list" where
  "split_words cs = (if first_word cs = [] then [] else first_word cs # split_words (after_word cs))"
  by pat_completeness auto
termination
  by (relation "measure length") (auto intro!: after_word_shorter)

declare split_words.simps [simp del]

lemma split_words_nil [simp]: "split_words [] = []"
  by (simp add: split_words.simps)

lemma split_words_none: "first_word cs = [] \<Longrightarrow> after_word cs = [] \<and> split_words cs = []"
  using first_word_empty [of cs] by (simp add: split_words.simps after_word_def del: dropWhile_eq_Nil_conv)

text \<open>Text that fits a line of the program: ASCII, fewer than 2^32 characters.\<close>

definition plain_text :: "byte list \<Rightarrow> bool" where
  "plain_text cs \<longleftrightarrow> (\<forall>c \<in> set cs. c < 128) \<and> length cs < 2 ^ 32"

lemma plain_text_after: "plain_text cs \<Longrightarrow> plain_text (after_word cs)"
  unfolding plain_text_def by (metis after_word_drop split_length le_add2 le_less_trans in_set_dropD)

lemma split_words_words: "w \<in> set (split_words cs) \<Longrightarrow> w \<noteq> [] \<and> (\<forall>c \<in> set w. \<not> is_space c)"
proof (induction cs rule: split_words.induct)
  case (1 cs)
  show ?case
  proof (cases "first_word cs = []")
    case True
    then show ?thesis using "1.prems" by (simp add: split_words_none)
  next
    case False
    then consider "w = first_word cs" | "w \<in> set (split_words (after_word cs))"
      using "1.prems" by (subst (asm) split_words.simps) auto
    then show ?thesis
    proof cases
      case 1
      then show ?thesis using False by (auto simp: first_word_def dest: set_takeWhileD)
    next
      case 2
      then show ?thesis by (rule "1.IH" [OF False])
    qed
  qed
qed

lemma dropWhile_nil: "dropWhile P xs = [] \<longleftrightarrow> (\<forall>x \<in> set xs. P x)"
  by (induction xs) auto

lemma split_words_nil_iff: "split_words cs = [] \<longleftrightarrow> (\<forall>c \<in> set cs. is_space c)"
proof -
  have "split_words cs = [] \<longleftrightarrow> first_word cs = []" by (subst split_words.simps) simp
  also have "\<dots> \<longleftrightarrow> dropWhile is_space cs = []"
    using first_word_empty [of cs] by (auto simp: first_word_def simp del: dropWhile_eq_Nil_conv)
  finally show ?thesis by (simp only: dropWhile_nil)
qed

lemma concat_split_words: "concat (split_words cs) = filter (\<lambda>c. \<not> is_space c) cs"
proof (induction cs rule: split_words.induct)
  case (1 cs)
  have parts: "filter (\<lambda>c. \<not> is_space c) cs = first_word cs @ filter (\<lambda>c. \<not> is_space c) (after_word cs)"
  proof -
    have "filter (\<lambda>c. \<not> is_space c) (lead cs) = []" "filter (\<lambda>c. \<not> is_space c) (word_gap cs) = []"
        "filter (\<lambda>c. \<not> is_space c) (first_word cs) = first_word cs"
      by (auto simp: lead_def word_gap_def first_word_def filter_empty_conv filter_id_conv dest: set_takeWhileD)
    then show ?thesis by (subst split_parts) simp
  qed
  show ?case
  proof (cases "first_word cs = []")
    case True
    then show ?thesis using parts split_words_none [OF True] by simp
  next
    case False
    then show ?thesis using parts 1 [OF False] by (subst split_words.simps) simp
  qed
qed

section \<open>The parts between delimiters\<close>

lemma find_text_less: "find_text ds cs = Some i \<Longrightarrow> i + length ds \<le> length cs"
  by (auto simp: find_text_def find_Some_iff occurs_def simp del: upt_Suc)

function split_text :: "byte list \<Rightarrow> byte list \<Rightarrow> byte list list" where
  "split_text ds cs =
     (if ds = [] then [] else
      case find_text ds cs of None \<Rightarrow> [cs] | Some i \<Rightarrow> take i cs # split_text ds (drop (i + length ds) cs))"
  by pat_completeness auto
termination
proof (relation "measure (length \<circ> snd)")
  fix ds cs :: "byte list" and i
  assume ds: "ds \<noteq> []" and i: "find_text ds cs = Some i"
  have "0 < length ds" using ds by simp
  then have "length cs - (i + length ds) < length cs" using find_text_less [OF i] by linarith
  then show "((ds, drop (i + length ds) cs), ds, cs) \<in> measure (length \<circ> snd)" by simp
qed simp

declare split_text.simps [simp del]

fun join :: "byte list \<Rightarrow> byte list list \<Rightarrow> byte list" where
  "join ds [] = []"
| "join ds [cs] = cs"
| "join ds (cs # xs) = cs @ ds @ join ds xs"

lemma split_text_not_nil: "ds \<noteq> [] \<Longrightarrow> split_text ds cs \<noteq> []"
  by (subst split_text.simps) (simp split: option.splits)

lemma join_Cons: "xs \<noteq> [] \<Longrightarrow> join ds (cs # xs) = cs @ ds @ join ds xs"
  by (cases xs) simp_all

text \<open>The parts give the text back, and no part holds the delimiter.\<close>

lemma find_text_None: "find_text ds cs = None \<longleftrightarrow> (\<forall>j. \<not> occurs ds cs j)"
proof (cases "length ds \<le> length cs")
  case False
  then have "\<not> occurs ds cs j" for j by (simp add: occurs_def)
  then show ?thesis by (simp add: find_text_def find_None_iff del: upt_Suc)
qed (rule find_text_None_iff)

lemma find_text_Some: "find_text ds cs = Some i \<longleftrightarrow> occurs ds cs i \<and> (\<forall>j < i. \<not> occurs ds cs j)"
proof (cases "length ds \<le> length cs")
  case False
  then have "\<not> occurs ds cs j" for j by (simp add: occurs_def)
  then show ?thesis by (simp add: find_text_def find_Some_iff del: upt_Suc)
qed (rule find_text_Some_iff)

lemma join_split_text: "ds \<noteq> [] \<Longrightarrow> join ds (split_text ds cs) = cs"
proof (induction ds cs rule: split_text.induct)
  case (1 ds cs)
  show ?case
  proof (cases "find_text ds cs")
    case None
    then show ?thesis using "1.prems" by (subst split_text.simps) simp
  next
    case (Some i)
    then have "join ds (split_text ds cs) = take i cs @ ds @ drop (i + length ds) cs"
      using 1 split_text_not_nil [OF "1.prems"] by (subst split_text.simps) (simp add: join_Cons)
    also have "\<dots> = cs" using occurs_split [of ds cs i] Some by (simp add: find_text_Some)
    finally show ?thesis .
  qed
qed

lemma occurs_take: "occurs ds (take i cs) j \<Longrightarrow> ds \<noteq> [] \<Longrightarrow> occurs ds cs j \<and> j < i"
proof -
  assume o: "occurs ds (take i cs) j" and ds: "ds \<noteq> []"
  have pos: "0 < length ds" using ds by simp
  have le: "j + length ds \<le> length cs" "j + length ds \<le> i" using o by (simp_all add: occurs_def)
  then have "take (length ds) (drop j (take i cs)) = take (length ds) (drop j cs)"
    by (simp add: drop_take min_def)
  moreover have "j < i" using le pos by linarith
  ultimately show ?thesis using o le by (simp add: occurs_def)
qed

lemma split_text_free: "ds \<noteq> [] \<Longrightarrow> p \<in> set (split_text ds cs) \<Longrightarrow> \<not> occurs ds p j"
proof (induction ds cs rule: split_text.induct)
  case (1 ds cs)
  show ?case
  proof (cases "find_text ds cs")
    case None
    then show ?thesis using "1.prems" find_text_None [of ds cs] by (subst (asm) split_text.simps) simp
  next
    case (Some i)
    then have "p = take i cs \<or> p \<in> set (split_text ds (drop (i + length ds) cs))"
      using "1.prems" by (subst (asm) split_text.simps) auto
    then show ?thesis
      using Some occurs_take [of ds i cs j] "1.IH" [OF "1.prems"(1) Some] "1.prems"(1)
      by (auto simp: find_text_Some)
  qed
qed

text \<open>
  \<open>leftmost ds xs\<close>: of the texts \<open>xs\<close> joined with \<open>ds\<close>, each ends at the first occurrence of \<open>ds\<close>
  in what is joined from it on, and the last one has none. A text is joined from one such list only.
\<close>

fun leftmost :: "byte list \<Rightarrow> byte list list \<Rightarrow> bool" where
  "leftmost ds [] \<longleftrightarrow> False"
| "leftmost ds [x] \<longleftrightarrow> (\<forall>j. \<not> occurs ds x j)"
| "leftmost ds (x # xs) \<longleftrightarrow> (\<forall>j < length x. \<not> occurs ds (join ds (x # xs)) j) \<and> leftmost ds xs"

lemma leftmost_Cons:
  "xs \<noteq> [] \<Longrightarrow> leftmost ds (x # xs) \<longleftrightarrow> (\<forall>j < length x. \<not> occurs ds (join ds (x # xs)) j) \<and> leftmost ds xs"
  by (cases xs) simp_all

lemma leftmost_split_text: "ds \<noteq> [] \<Longrightarrow> leftmost ds (split_text ds cs)"
proof (induction ds cs rule: split_text.induct)
  case (1 ds cs)
  show ?case
  proof (cases "find_text ds cs")
    case None
    then have "split_text ds cs = [cs]" using "1.prems" by (subst split_text.simps) simp
    then show ?thesis using None by (simp add: find_text_None)
  next
    case (Some i)
    let ?rest = "drop (i + length ds) cs"
    have i: "\<forall>j < i. \<not> occurs ds cs j" using Some by (simp add: find_text_Some)
    have eq: "split_text ds cs = take i cs # split_text ds ?rest"
      using "1.prems" Some by (subst split_text.simps) simp
    have "join ds (take i cs # split_text ds ?rest) = cs"
      using join_split_text [OF "1.prems", of cs] unfolding eq .
    then show ?thesis
      unfolding eq leftmost_Cons [OF split_text_not_nil [OF "1.prems"]]
      using i 1 Some by simp
  qed
qed

lemma split_text_join: "leftmost ds xs \<Longrightarrow> ds \<noteq> [] \<Longrightarrow> split_text ds (join ds xs) = xs"
proof (induction ds xs rule: leftmost.induct)
  case (2 ds x)
  then have "find_text ds x = None" by (simp add: find_text_None)
  then show ?case using 2 by (subst split_text.simps) simp
next
  case (3 ds x y ys)
  let ?cs = "join ds (x # y # ys)"
  have eq: "?cs = x @ ds @ join ds (y # ys)" by simp
  have "occurs ds ?cs (length x)" unfolding eq by (simp add: occurs_def)
  then have "find_text ds ?cs = Some (length x)" using 3 by (simp add: find_text_Some)
  moreover have "take (length x) ?cs = x" "drop (length x + length ds) ?cs = join ds (y # ys)"
    unfolding eq by simp_all
  ultimately show ?case using 3 by (subst split_text.simps) (simp del: join.simps)
qed simp

section \<open>The client loops\<close>

fun split_loop :: "table_ops \<Rightarrow> nat \<Rightarrow> mem_handle \<Rightarrow> mem_handle \<Rightarrow> mem_handle list prog" where
  "split_loop tb 0 strval delim = raise Out_of_fuel"
| "split_loop tb (Suc fuel) strval delim =
     (if \<not> str_is_valid strval then ret []
      else cbind (str_split_pop tb strval delim null_handle) (\<lambda>(rest, part).
        cbind (split_loop tb fuel rest delim) (\<lambda>parts. ret (part # parts))))"

fun split_words_loop :: "table_ops \<Rightarrow> nat \<Rightarrow> mem_handle \<Rightarrow> mem_handle list prog" where
  "split_words_loop tb 0 strval = raise Out_of_fuel"
| "split_words_loop tb (Suc fuel) strval =
     (if \<not> str_is_valid strval then ret []
      else cbind (str_split_whitespace_pop tb strval null_handle) (\<lambda>(rest, part).
        cbind (split_words_loop tb fuel rest) (\<lambda>parts. ret (part # parts))))"

lemma null_invalid [simp]: "\<not> mem_is_valid null_handle"
  by (simp add: mem_is_valid_def)

lemma split_loop_end [simp]: "split_loop tb (Suc fuel) null_handle g s = Inr ([], s)"
  by (simp add: str_is_valid_def mem_is_valid_def)

lemma split_words_loop_end [simp]: "split_words_loop tb (Suc fuel) null_handle s = Inr ([], s)"
  by (simp add: str_is_valid_def mem_is_valid_def)

text \<open>One pop, on the texts.\<close>

lemma str_split_pop_last:
  assumes h: "str_rep h cs s" and g: "str_rep g ds s" and small: "length cs < 2 ^ 31" and none: "find_text ds cs = None"
  shows "str_split_pop tb h g part s = Inr ((null_handle, mem_handle_from_ptr (h_data h) (h_size h)), s)"
    and "str_rep (mem_handle_from_ptr (h_data h) (h_size h)) cs s"
proof -
  have "str_find tb h g s = Inr (- 1, s)" using str_find_exec [OF h g small, of tb] none by simp
  then show "str_split_pop tb h g part s = Inr ((null_handle, mem_handle_from_ptr (h_data h) (h_size h)), s)"
    using h g by (simp add: str_split_pop_def str_is_valid_def cbind_apply str_rep_p [OF h])
  show "str_rep (mem_handle_from_ptr (h_data h) (h_size h)) cs s"
    using str_repD [OF h] by (simp add: str_rep_def transparent_def mem_handle_from_ptr_def)
qed

lemma str_split_pop_more:
  assumes h: "str_rep h cs s" and g: "str_rep g ds s" and small: "length cs < 2 ^ 31" and i: "find_text ds cs = Some i"
  obtains rest p where "str_split_pop tb h g part s = Inr ((rest, p), s)"
    and "str_rep p (take i cs) s" and "str_rep rest (drop (i + length ds) cs) s"
proof -
  have fit: "i + length ds \<le> length cs" using i by (rule find_text_less)
  let ?n = "length cs - i - length ds"
  have "str_rep (mem_handle_from_ptr (ptr_add (h_data h) 0) (of_nat i)) (take i (drop 0 cs)) s"
    using fit small by (intro str_rep_sub [OF h] unat_of_nat_size) simp_all
  moreover have "str_rep (mem_handle_from_ptr (ptr_add (h_data h) (i + length ds)) (of_nat ?n))
      (take ?n (drop (i + length ds) cs)) s"
    using fit small by (intro str_rep_sub [OF h] unat_of_nat_size) simp_all
  ultimately show thesis
    using str_split_pop_exec [OF h g small i, where tb = tb and part = part] fit that by simp
qed

lemma split_loop_runs:
  assumes g: "str_rep g ds s" and ds: "ds \<noteq> []"
  shows "str_rep h cs s \<Longrightarrow> length cs < 2 ^ 31 \<Longrightarrow> length cs + 1 < fuel \<Longrightarrow>
    \<exists>ps. split_loop tb fuel h g s = Inr (ps, s) \<and> list_all2 (\<lambda>p xs. str_rep p xs s) ps (split_text ds cs)"
proof (induction fuel arbitrary: h cs)
  case (Suc fuel)
  note h = Suc.prems(1) and small = Suc.prems(2)
  obtain f where f: "fuel = Suc f" using Suc.prems(3) by (cases fuel) auto
  show ?case
  proof (cases "find_text ds cs")
    case None
    have "split_text ds cs = [cs]" using None ds by (subst split_text.simps) simp
    then show ?thesis
      using h None f str_split_pop_last(1) [OF h g small None, of tb null_handle] str_split_pop_last(2) [OF h g small None] by (simp add: str_is_valid_def cbind_apply)
  next
    case (Some i)
    obtain rest p where pop: "str_split_pop tb h g null_handle s = Inr ((rest, p), s)"
        and p: "str_rep p (take i cs) s" and rest: "str_rep rest (drop (i + length ds) cs) s"
      using str_split_pop_more [OF h g small Some] .
    have "0 < length ds" using ds by simp
    then have "length cs - (i + length ds) + 1 < fuel" using find_text_less [OF Some] Suc.prems(3) by linarith
    then have "length (drop (i + length ds) cs) + 1 < fuel" "length (drop (i + length ds) cs) < 2 ^ 31"
      using small by simp_all
    then obtain ps where "split_loop tb fuel rest g s = Inr (ps, s)"
        "list_all2 (\<lambda>p xs. str_rep p xs s) ps (split_text ds (drop (i + length ds) cs))"
      using Suc.IH [OF rest] by blast
    moreover have "split_text ds cs = take i cs # split_text ds (drop (i + length ds) cs)"
      using Some ds by (subst split_text.simps) simp
    ultimately show ?thesis using h p pop by (simp add: str_is_valid_def cbind_apply)
  qed
qed simp

text \<open>With an empty delimiter the rest is the whole text, again and again.\<close>

lemma split_loop_forever:
  assumes g: "str_rep g [] s"
  shows "str_rep h cs s \<Longrightarrow> length cs < 2 ^ 31 \<Longrightarrow> split_loop tb fuel h g s = Inl Out_of_fuel"
proof (induction fuel arbitrary: h)
  case (Suc fuel)
  have "find_text [] cs = Some 0" by (simp add: find_text_Some occurs_def)
  from str_split_pop_more [OF Suc.prems(1) g Suc.prems(2) this, of tb null_handle]
  obtain rest p where pop: "str_split_pop tb h g null_handle s = Inr ((rest, p), s)" and "str_rep rest cs s"
    by (metis list.size(3) add_0 drop0)
  then have "split_loop tb fuel rest g s = Inl Out_of_fuel" using Suc by blast
  then show ?case using Suc.prems(1) pop by (simp add: str_is_valid_def cbind_apply)
qed simp

lemma split_words_loop_runs:
  assumes "str_rep h cs s" and "plain_text cs" and "cs \<noteq> []" and "length cs < fuel"
  shows "\<exists>ps. split_words_loop tb fuel h s = Inr (ps, s) \<and> list_all2 (\<lambda>p xs. str_rep p xs s) ps
    (if split_words cs = [] then [[]] else split_words cs)"
  using assms
proof (induction fuel arbitrary: h cs)
  case (Suc fuel)
  note h = Suc.prems(1)
  have plain: "length cs < 2 ^ 32" "\<forall>c \<in> set cs. c < 128" using Suc.prems(2) by (auto simp: plain_text_def)
  have c0: "load_byte (h_data h) s = Inr (cs ! 0, s)" "cs ! 0 < 128"
    using load_first_byte [OF str_repD(2) [OF h]] Suc.prems(3) plain(2) by simp_all
  obtain f where f: "fuel = Suc f" using Suc.prems(3,4) by (cases fuel) auto
  let ?p = "mem_handle_from_ptr (ptr_add (h_data h) (length (lead cs))) (of_nat (length (first_word cs)))"
  let ?y = "length (after_word cs)"
  note pop = str_split_whitespace_exec [OF h plain c0, of tb null_handle]
  have len: "length cs = length (lead cs) + length (first_word cs) + length (word_gap cs) + ?y" by (rule split_length)
  have "take (length (first_word cs)) (drop (length (lead cs)) cs) = first_word cs" by (subst (3) split_parts) simp
  then have p: "str_rep ?p (first_word cs) s"
    using str_rep_sub [OF h, of "length (lead cs)" "length (first_word cs)"] len plain(1) by (simp add: unat_of_nat)
  show ?case
  proof (cases "after_word cs = []")
    case True
    then have "split_words cs = (if first_word cs = [] then [] else [first_word cs])"
      by (subst split_words.simps) simp
    then have "(if split_words cs = [] then [[]] else split_words cs) = [first_word cs]" by simp
    then show ?thesis using h pop True p f by (simp add: str_is_valid_def cbind_apply)
  next
    case False
    let ?rest = "mem_handle_from_ptr (ptr_add (h_data h) (length cs - ?y)) (of_nat ?y)"
    have "take ?y (drop (length cs - ?y) cs) = after_word cs" using len by (subst (3) split_parts) simp
    then have rest: "str_rep ?rest (after_word cs) s"
      using str_rep_sub [OF h, of "length cs - ?y" ?y] len plain(1) by (simp add: unat_of_nat)
    have fw: "first_word cs \<noteq> []" using False split_words_none by blast
    have "after_word cs = c # es \<Longrightarrow> \<not> is_space c" for c es
      using hd_dropWhile [of is_space "dropWhile (\<lambda>c. \<not> is_space c) (dropWhile is_space cs)"] by (auto simp: after_word_def)
    then have "first_word (after_word cs) \<noteq> []"
      using False by (cases "after_word cs") (auto simp: first_word_def)
    then have more: "split_words (after_word cs) \<noteq> []" by (subst split_words.simps) simp
    have "length (after_word cs) < fuel" using after_word_shorter [OF Suc.prems(3)] Suc.prems(4) by simp
    then obtain ps where "split_words_loop tb fuel ?rest s = Inr (ps, s)"
        "list_all2 (\<lambda>p xs. str_rep p xs s) ps (split_words (after_word cs))"
      using Suc.IH [OF rest plain_text_after [OF Suc.prems(2)] False] more by auto
    moreover have "split_words cs = first_word cs # split_words (after_word cs)"
      using fw by (subst split_words.simps) simp
    ultimately show ?thesis using h pop False p by (simp add: str_is_valid_def cbind_apply)
  qed
qed simp

end
