(* ===== verification/Ds_Split_Props.thy ===== *)
theory Ds_Split_Props
  imports Ds_Split
begin

text \<open>
  The properties of the loops over str_split_pop and str_split_whitespace_pop.
\<close>

text \<open>
  C36. The loop over str_split_pop that str.h shows ends, for every text of fewer than 2^31
  characters and every non-empty delimiter. Its parts joined with the delimiter give the text back;
  each of them ends at the first occurrence of the delimiter in what is left of the text, and none
  holds the delimiter. They are the only parts that are joined to the text and are cut off at first
  occurrences.
\<close>

theorem str_split_pop_loop:
  assumes "str_rep h cs s" and "str_rep g ds s" and "ds \<noteq> []" and "length cs < 2 ^ 31"
  shows "\<exists>ps xs. split_loop tb (length cs + 2) h g s = Inr (ps, s) \<and> list_all2 (\<lambda>p x. str_rep p x s) ps xs \<and>
    join ds xs = cs \<and> leftmost ds xs \<and> (\<forall>x \<in> set xs. \<forall>j. \<not> occurs ds x j) \<and>
    (\<forall>ys. join ds ys = cs \<and> leftmost ds ys \<longrightarrow> ys = xs)"
proof -
  obtain ps where run: "split_loop tb (length cs + 2) h g s = Inr (ps, s)"
      and parts: "list_all2 (\<lambda>p x. str_rep p x s) ps (split_text ds cs)"
    using split_loop_runs [OF assms(2,3,1,4), of "length cs + 2" tb] by auto
  moreover have "\<forall>x \<in> set (split_text ds cs). \<forall>j. \<not> occurs ds x j" using split_text_free [OF assms(3)] by blast
  moreover have "\<forall>ys. join ds ys = cs \<and> leftmost ds ys \<longrightarrow> ys = split_text ds cs"
    using split_text_join [OF _ assms(3)] by metis
  ultimately show ?thesis
    using join_split_text [OF assms(3), of cs] leftmost_split_text [OF assms(3), of cs] by blast
qed

lemma sample_delimiter:
  "str_rep (mem_handle_from_ptr (Ptr 0x7000 0) 3) [72, 101, 72] (sample_texts [72, 101, 72])"
  "str_rep (mem_handle_from_ptr (Ptr 0x7000 1) 1) [101] (sample_texts [72, 101, 72])"
  "str_rep (mem_handle_from_ptr (Ptr 0x7000 1) 0) [] (sample_texts [72, 101, 72])"
proof -
  show h: "str_rep (mem_handle_from_ptr (Ptr 0x7000 0) 3) [72, 101, 72] (sample_texts [72, 101, 72])"
    using sample_texts_str [of "[72, 101, 72]" "0x7000"] by simp
  show "str_rep (mem_handle_from_ptr (Ptr 0x7000 1) 1) [101] (sample_texts [72, 101, 72])"
    "str_rep (mem_handle_from_ptr (Ptr 0x7000 1) 0) [] (sample_texts [72, 101, 72])"
    using chars_at_sub [OF str_repD(2) [OF h], of 1 1] chars_at_sub [OF str_repD(2) [OF h], of 1 0]
    by (simp_all add: str_rep_def transparent_def mem_handle_from_ptr_def ptr_add_def)
qed

theorem str_split_pop_loop_witness:
  "\<exists>ps xs. split_loop (memtbl_ops 0) (length [72, 101, 72 :: byte] + 2) (mem_handle_from_ptr (Ptr 0x7000 0) 3)
      (mem_handle_from_ptr (Ptr 0x7000 1) 1) (sample_texts [72, 101, 72]) = Inr (ps, sample_texts [72, 101, 72]) \<and>
    list_all2 (\<lambda>p x. str_rep p x (sample_texts [72, 101, 72])) ps [[72], [72]]"
proof -
  have "[101] \<noteq> ([] :: byte list)" "length [72, 101, 72 :: byte] < 2 ^ 31" by simp_all
  note loop = str_split_pop_loop [OF sample_delimiter(1,2) this, of "memtbl_ops 0"]
  have first: "\<not> occurs [101] ([72] :: byte list) j" "j < 1 \<longrightarrow> \<not> occurs [101] ([72, 101, 72] :: byte list) j" for j
    by (cases j; simp add: occurs_def)+
  have "join [101] [[72], [72]] = [72, 101, 72 :: byte]" "leftmost [101] [[72], [72 :: byte]]"
    using first by simp_all
  then show ?thesis using loop by blast
qed

text \<open>
  C37. The loop over str_split_pop never ends for an empty delimiter and a text of fewer than 2^31
  characters: the delimiter is found at position 0, the part is empty and the rest is the whole text
  again. With every amount of fuel the loop is still running.
\<close>

theorem str_split_pop_empty_delimiter:
  assumes "str_rep h cs s" and "str_rep g [] s" and "length cs < 2 ^ 31"
  shows "split_loop tb fuel h g s = Inl Out_of_fuel"
  using assms by (intro split_loop_forever)

theorem str_split_pop_empty_delimiter_witness:
  "\<forall>fuel. split_loop (memtbl_ops 0) fuel (mem_handle_from_ptr (Ptr 0x7000 0) 3) (mem_handle_from_ptr (Ptr 0x7000 1) 0)
      (sample_texts [72, 101, 72]) = Inl Out_of_fuel"
  using str_split_pop_empty_delimiter [OF sample_delimiter(1,3)] by simp

text \<open>
  C38. The loop over str_split_whitespace_pop, on an ASCII text of at least one and fewer than 2^32
  characters, ends with references to the words of the text in order: no word is empty or holds
  whitespace, and together they are the characters that are not whitespace. A text without words
  gives one empty part, as str.h says.
\<close>

theorem str_split_whitespace_loop:
  assumes "str_rep h cs s" and "plain_text cs" and "cs \<noteq> []"
  shows "\<exists>ps xs. split_words_loop tb (length cs + 1) h s = Inr (ps, s) \<and> list_all2 (\<lambda>p x. str_rep p x s) ps xs \<and>
    (if \<forall>c \<in> set cs. is_space c then xs = [[]]
     else xs = split_words cs \<and> concat xs = filter (\<lambda>c. \<not> is_space c) cs \<and>
       (\<forall>x \<in> set xs. x \<noteq> [] \<and> (\<forall>c \<in> set x. \<not> is_space c)))"
proof -
  have "length cs < length cs + 1" by simp
  from split_words_loop_runs [OF assms this, of tb] obtain ps where
      "split_words_loop tb (length cs + 1) h s = Inr (ps, s)"
      "list_all2 (\<lambda>p x. str_rep p x s) ps (if split_words cs = [] then [[]] else split_words cs)"
    by blast
  then show ?thesis
    using split_words_words concat_split_words [of cs] unfolding split_words_nil_iff
    by (intro exI [of _ ps] exI [of _ "if \<forall>c \<in> set cs. is_space c then [[]] else split_words cs"]) auto
qed

theorem str_split_whitespace_loop_witness:
  "\<exists>ps xs. split_words_loop (memtbl_ops 0) (length [72, 32, 101, 10 :: byte] + 1) (mem_handle_from_ptr (Ptr 0x7000 0) 4)
      (sample_texts [72, 32, 101, 10]) = Inr (ps, sample_texts [72, 32, 101, 10]) \<and>
    list_all2 (\<lambda>p x. str_rep p x (sample_texts [72, 32, 101, 10])) ps [[72], [101]]"
proof -
  have h: "str_rep (mem_handle_from_ptr (Ptr 0x7000 0) 4) [72, 32, 101, 10] (sample_texts [72, 32, 101, 10])"
    using sample_texts_str [of "[72, 32, 101, 10]" "0x7000"] by simp
  have txts: "plain_text [72, 32, 101, 10]" "[72, 32, 101, 10] \<noteq> ([] :: byte list)" by (simp_all add: plain_text_def)
  have "split_words [72, 32, 101, 10] = [[72], [101]]" by code_simp
  moreover have "\<not> (\<forall>c \<in> set [72, 32, 101, 10]. is_space c)" by (simp add: is_space_def)
  ultimately show ?thesis
    using str_split_whitespace_loop [OF h txts, of "memtbl_ops 0"] by (simp only: if_False) metis
qed

end
