(* ===== verification/Ds_Strbuf_Proofs.thy ===== *)
theory Ds_Strbuf_Proofs
  imports Ds_Str_Proofs
begin

text \<open>
  String buffers of the plain allocator. \<open>strbuf_at buf b bs s\<close>: the structure \<open>b\<close> and the bytes
  \<open>bs\<close> of its data block; \<open>strbuf_rep buf cs s\<close>: a buffer with the text \<open>cs\<close> and room
  for at least one character.
\<close>

definition strbuf_at :: "mem_handle \<Rightarrow> strbuf \<Rightarrow> byte option list \<Rightarrow> cstate \<Rightarrow> bool" where
  "strbuf_at buf b bs s \<longleftrightarrow>
     h_alloc buf = MEM_ALLOCATOR_PLAIN \<and> h_alloc (sb_data b) = MEM_ALLOCATOR_PLAIN \<and>
     load_strbuf (h_data buf) s = Inr (b, s) \<and> (\<exists>k. owned s buf k) \<and>
     (\<exists>k. owned s (sb_data b) k \<and> block_bytes k = Inr bs) \<and>
     pbase (h_data buf) \<noteq> pbase (h_data (sb_data b)) \<and>
     length bs = unat (h_size (sb_data b)) \<and> unat (sb_length b) \<le> length bs"

definition strbuf_rep :: "mem_handle \<Rightarrow> byte list \<Rightarrow> cstate \<Rightarrow> bool" where
  "strbuf_rep buf cs s \<longleftrightarrow> (\<exists>b bs. strbuf_at buf b bs s \<and> bs \<noteq> [] \<and> unat (sb_length b) = length cs \<and>
     take (length cs) bs = map Some cs)"

lemma strbuf_atD:
  assumes "strbuf_at buf b bs s"
  shows "h_alloc buf = MEM_ALLOCATOR_PLAIN" "h_alloc (sb_data b) = MEM_ALLOCATOR_PLAIN"
    "load_strbuf (h_data buf) s = Inr (b, s)" "pbase (h_data buf) \<noteq> pbase (h_data (sb_data b))"
    "length bs = unat (h_size (sb_data b))" "unat (sb_length b) \<le> length bs"
    "h_data buf \<noteq> NULL" "h_data (sb_data b) \<noteq> NULL" "space_at (h_data (sb_data b)) bs s"
    "poff (h_data (sb_data b)) = 0"
  using assms by (auto simp: strbuf_at_def owned_def space_at_def block_at_Inr_iff ptr_null_iff)

lemma strbuf_at_owned:
  assumes "strbuf_at buf b bs s"
  obtains k where "owned s (sb_data b) k" "block_bytes k = Inr bs"
  using assms by (auto simp: strbuf_at_def)

lemma strbuf_at_p:
  assumes "strbuf_at buf b bs s"
  shows "mem_p tb buf = ret (h_data buf)" "mem_p tb (sb_data b) = ret (h_data (sb_data b))"
  using strbuf_atD(1,2) [OF assms] by (simp_all add: mem_p_transparent)

lemma strbuf_at_frame:
  "strbuf_at buf b bs s \<Longrightarrow> heap t (pbase (h_data buf)) = heap s (pbase (h_data buf)) \<Longrightarrow>
   heap t (pbase (h_data (sb_data b))) = heap s (pbase (h_data (sb_data b))) \<Longrightarrow> strbuf_at buf b bs t"
  unfolding strbuf_at_def owned_def by (auto intro: load_strbuf_frame)

lemma strbuf_is_valid_exec: "strbuf_at buf b bs s \<Longrightarrow> strbuf_is_valid tb buf s = Inr (True, s)"
  using strbuf_atD(3,7,8) [of buf b bs s]
  by (simp add: strbuf_is_valid_def mem_is_valid_def cbind_apply strbuf_at_p)

text \<open>The other live blocks are left alone.\<close>

definition others_same :: "64 word set \<Rightarrow> cstate \<Rightarrow> cstate \<Rightarrow> bool" where
  "others_same S s t \<longleftrightarrow> env_same s t \<and> (\<forall>a. a \<notin> S \<and> heap s a \<noteq> None \<longrightarrow> heap t a = heap s a)"

lemma others_same_refl [simp]: "others_same S s s"
  by (simp add: others_same_def)

lemma others_same_set [intro]: "pbase p \<in> S \<Longrightarrow> others_same S s t \<Longrightarrow> others_same S s (set_content p c t)"
  by (auto simp: others_same_def heap_set_content)

lemma others_same_trans:
  assumes "others_same {a, d} s t" and "others_same {a, e} t u" and "e = d \<or> heap s e = None"
  shows "others_same {a, d} s u"
  using assms unfolding others_same_def by (auto dest: env_same_trans)

text \<open>
  \<open>moved d d' s t\<close>: the block at \<open>d\<close> went to \<open>d'\<close>, which is \<open>d\<close> or was unused,
  and nothing else was allocated: of the addresses that were unused, and \<open>d\<close>, only \<open>d'\<close> is in use.
\<close>

definition moved :: "64 word \<Rightarrow> 64 word \<Rightarrow> cstate \<Rightarrow> cstate \<Rightarrow> bool" where
  "moved d d' s t \<longleftrightarrow> (d' = d \<or> heap s d' = None) \<and>
     (\<forall>a. a \<noteq> d' \<and> (heap s a = None \<or> a = d) \<longrightarrow> heap t a = None)"

lemma heap_None_set_content [simp]: "heap (set_content p c s) a = None \<longleftrightarrow> heap s a = None"
  by (simp add: heap_set_content)

lemma moved_refl [simp]: "moved d d s s"
  by (auto simp: moved_def)

lemma moved_trans: "moved d d' s t \<Longrightarrow> moved d' d'' t u \<Longrightarrow> d'' \<noteq> d' \<longrightarrow> d'' = d \<or> heap s d'' = None \<Longrightarrow> moved d d'' s u"
  unfolding moved_def by metis

lemma moved_set_content [simp]: "moved d d' s (set_content p c t) = moved d d' s t"
  by (simp add: moved_def)

section \<open>Growing\<close>

lemma strbuf_at_set:
  assumes at: "strbuf_at buf b bs s" and buf: "h_alloc buf = MEM_ALLOCATOR_PLAIN"
    and d: "h_alloc d = MEM_ALLOCATOR_PLAIN" "owned t d k" "block_bytes k = Inr bs'" "length bs' = unat (h_size d)"
    and len: "unat n \<le> length bs'"
    and keep: "heap t (pbase (h_data buf)) = heap s (pbase (h_data buf))"
    and ne: "pbase (h_data buf) \<noteq> pbase (h_data d)"
  shows "strbuf_at buf \<lparr>sb_data = d, sb_length = n\<rparr> bs'
    (set_content (h_data buf) (Strbuf_obj \<lparr>sb_data = d, sb_length = n\<rparr>) t)"
proof -
  have "load_strbuf (h_data buf) t = Inr (b, t)" by (rule load_strbuf_frame [OF strbuf_atD(3) [OF at] keep])
  then have "load_strbuf (h_data buf) (set_content (h_data buf) (Strbuf_obj \<lparr>sb_data = d, sb_length = n\<rparr>) t)
      = Inr (\<lparr>sb_data = d, sb_length = n\<rparr>, set_content (h_data buf) (Strbuf_obj \<lparr>sb_data = d, sb_length = n\<rparr>) t)"
    by (rule load_strbuf_set)
  then show ?thesis
    using assms by (auto simp: strbuf_at_def owned_def heap_set_content)
qed

definition data_base :: "strbuf \<Rightarrow> 64 word" where
  "data_base b = pbase (h_data (sb_data b))"

lemma mem_realloc_plain_calls:
  "h_alloc h = MEM_ALLOCATOR_PLAIN \<Longrightarrow> owned s h k \<Longrightarrow> n \<noteq> 0 \<Longrightarrow> mem_realloc tb h n s = Inr (r, t) \<Longrightarrow>
   calls t = Suc (calls s)"
  using owned_not_null [of s h k]
  by (auto simp: mem_realloc_plain plain_realloc_def mem_is_valid_def libc_defs cbind_apply owned_def Let_def
      split: if_splits sum.splits)

text \<open>
  One call of grow_strbuf asks the allocator once: twice the room, or a buffer that has lost its
  data.
\<close>

definition grew :: "mem_handle \<Rightarrow> strbuf \<Rightarrow> byte option list \<Rightarrow> cstate \<Rightarrow> bool \<Rightarrow> cstate \<Rightarrow> bool" where
  "grew buf b bs s r t \<longleftrightarrow> others_same {pbase (h_data buf), data_base b} s t \<and> calls t = Suc (calls s) \<and>
    (if r then \<exists>b' bs'. strbuf_at buf b' bs' t \<and> sb_length b' = sb_length b \<and> length bs' = 2 * length bs \<and>
        take (length bs) bs' = bs \<and> moved (data_base b) (data_base b') s t
     else \<exists>b'. load_strbuf (h_data buf) t = Inr (b', t) \<and> h_data (sb_data b') = NULL \<and>
        heap t (data_base b) = heap s (data_base b))"

lemma grow_strbuf_runs:
  assumes at: "strbuf_at buf b bs s" and pos: "bs \<noteq> []" and small: "2 * length bs < 2 ^ 64"
  shows "runs (grow_strbuf tb buf) s (grew buf b bs s)"
proof -
  note D = strbuf_atD [OF at]
  obtain k where k: "owned s (sb_data b) k" "block_bytes k = Inr bs" using at by (rule strbuf_at_owned)
  let ?n = "h_size (sb_data b) * 2"
  have n: "unat ?n = 2 * length bs"
    using D(5) small by (simp add: unat_word_ariths)
  then have nz: "?n \<noteq> 0" using pos by (metis length_0_conv mult_eq_0_iff unat_0 zero_neq_numeral)
  have "bytes_of (b_size k) (b_content k) = Some bs" using k(2) by (auto simp: block_bytes_def split: option.splits)
  then obtain c bs' where c: "resize_content (b_size k) ?n (b_content k) = Inr c" "bytes_of ?n c = Some bs'"
      "length bs' = unat ?n" "take (length bs) bs' = take (unat ?n) bs"
    by (rule resize_bytes)
  obtain r t where re: "mem_realloc tb (sb_data b) ?n s = Inr (r, t)"
      and post: "realloc_post k (sb_data b) ?n s r t"
    using plain.realloc_law [OF D(2) k(1) nz c(1)] by (rule runsE)
  have e: "env_same s t" using post by (simp add: realloc_post_def)
  have once: "calls t = Suc (calls s)" by (rule mem_realloc_plain_calls [OF D(2) k(1) nz re])
  have keep: "heap t (pbase (h_data buf)) = heap s (pbase (h_data buf))"
    using post at D(4) by (auto simp: realloc_post_def strbuf_at_def owned_def)
  have ld: "load_strbuf (h_data buf) t = Inr (b, t)" by (rule load_strbuf_frame [OF D(3) keep])
  let ?b = "b\<lparr>sb_data := r\<rparr>"
  let ?t = "set_content (h_data buf) (Strbuf_obj ?b) t"
  have run: "grow_strbuf tb buf s = Inr (mem_is_valid r, ?t)"
    by (simp add: grow_strbuf_def cbind_apply strbuf_at_p [OF at] D(3) re update_strbuf_exec [OF ld] Let_def)
  show ?thesis
  proof (cases "h_data r = NULL")
    case True
    then have "heap t = heap s" using post by (auto simp: realloc_post_def)
    moreover have "load_strbuf (h_data buf) ?t = Inr (?b, ?t)" by (rule load_strbuf_set [OF ld])
    ultimately show ?thesis
      using run True e D(4) once
      by (auto simp: runs_def grew_def mem_is_valid_def others_same_def data_base_def heap_set_content)
  next
    case False
    then obtain a where a: "a \<noteq> 0" "a = pbase (h_data (sb_data b)) \<or> heap s a = None"
        and r: "r = \<lparr>h_data = Ptr a 0, h_size = ?n, h_alloc = MEM_ALLOCATOR_PLAIN\<rparr>"
        and ht: "heap t = (heap s)(pbase (h_data (sb_data b)) := None, a \<mapsto> \<lparr>b_size = ?n, b_heap = True, b_content = c\<rparr>)"
      using post c(1) D(2) by (auto simp: realloc_post_def)
    have ne: "pbase (h_data buf) \<noteq> a" using a(2) D(4) at by (auto simp: strbuf_at_def owned_def)
    have b: "?b = \<lparr>sb_data = r, sb_length = sb_length b\<rparr>" by (cases b) simp
    have "strbuf_at buf ?b bs' ?t"
      unfolding b
      by (rule strbuf_at_set [OF at D(1) _ _ _ _ _ keep])
        (use a r ht c n D(6) ne in \<open>auto simp: owned_def block_bytes_def\<close>)
    moreover have "others_same {pbase (h_data buf), data_base b} s ?t"
      using e a(2) ht by (auto simp: others_same_def data_base_def heap_set_content)
    moreover have "take (length bs) bs' = bs" using c(4) n by simp
    moreover have "moved (data_base b) a s ?t" using a(2) ht by (auto simp: moved_def data_base_def)
    ultimately show ?thesis
      using run False r n c(3) once
      by (auto simp: runs_def grew_def mem_is_valid_def data_base_def intro!: exI [of _ ?b] exI [of _ bs'])
  qed
qed


text \<open>
  The growth loop. The size doubles, so \<open>Suc k\<close> rounds of fuel are enough to reach a need of at
  most \<open>2 ^ k\<close> times the size; a need of fewer than 2^63 bytes never overflows the size. Every
  round asks the allocator once, and no round comes after the need is met.
\<close>

definition doubled :: "nat \<Rightarrow> nat \<Rightarrow> nat \<Rightarrow> nat \<Rightarrow> bool" where
  "doubled n need n' k \<longleftrightarrow> need \<le> n' \<and> n' = n * 2 ^ k \<and> (k = 0 \<or> n * 2 ^ (k - 1) < need)"

lemma doubled_step: "n < need \<Longrightarrow> doubled (2 * n) need n' k \<Longrightarrow> doubled n need n' (Suc k)"
  by (cases k) (auto simp: doubled_def)

lemma doubled_le: "doubled n need n' k \<Longrightarrow> need \<le> n * 2 ^ j \<Longrightarrow> k \<le> j"
proof (rule ccontr)
  assume d: "doubled n need n' k" and j: "need \<le> n * 2 ^ j" and "\<not> k \<le> j"
  then have "j \<le> k - 1" by simp
  then have "(2::nat) ^ j \<le> 2 ^ (k - 1)" by simp
  then have "n * 2 ^ j \<le> n * 2 ^ (k - 1)" by (rule mult_le_mono2)
  with j have "need \<le> n * 2 ^ (k - 1)" by (rule le_trans)
  then show False using d \<open>\<not> k \<le> j\<close> by (simp add: doubled_def)
qed

definition grown :: "mem_handle \<Rightarrow> strbuf \<Rightarrow> byte option list \<Rightarrow> nat \<Rightarrow> cstate \<Rightarrow> bool \<Rightarrow> cstate \<Rightarrow> bool" where
  "grown buf b bs need s r t \<longleftrightarrow> others_same {pbase (h_data buf), data_base b} s t \<and>
    (if r then \<exists>b' bs' k. strbuf_at buf b' bs' t \<and> sb_length b' = sb_length b \<and>
        doubled (length bs) need (length bs') k \<and> calls t = calls s + k \<and>
        take (length bs) bs' = bs \<and> moved (data_base b) (data_base b') s t
     else \<exists>b'. load_strbuf (h_data buf) t = Inr (b', t) \<and> h_data (sb_data b') = NULL)"

lemma moved_others_trans:
  assumes "others_same {p, d} s t" and "moved d d' s t" and "moved d' d'' t u" and "d'' \<noteq> p"
  shows "moved d d'' s u"
  using assms by (intro moved_trans [OF assms(2,3)]) (auto simp: moved_def others_same_def)

lemma grown_trans:
  assumes o: "others_same {pbase (h_data buf), data_base b} s t" and len: "sb_length b' = sb_length b"
    and bs': "length bs' = 2 * length bs" "take (length bs) bs' = bs"
    and m: "moved (data_base b) (data_base b') s t" and once: "calls t = Suc (calls s)" "length bs < need"
    and g: "grown buf b' bs' need t r u"
  shows "grown buf b bs need s r u"
proof -
  have o': "others_same {pbase (h_data buf), data_base b} s u"
    using g m by (intro others_same_trans [OF o]) (auto simp: grown_def moved_def)
  show ?thesis
  proof (cases r)
    case False
    then show ?thesis using g o' by (simp add: grown_def)
  next
    case True
    then obtain b2 bs2 k where b2: "strbuf_at buf b2 bs2 u" "sb_length b2 = sb_length b'"
        "doubled (length bs') need (length bs2) k"
        "take (length bs') bs2 = bs'" "moved (data_base b') (data_base b2) t u" "calls u = calls t + k"
      using g by (auto simp: grown_def)
    have "take (length bs) bs2 = take (length bs) (take (length bs') bs2)" using bs'(1) by (simp add: min_def)
    then have "take (length bs) bs2 = bs" using b2(4) bs'(2) by simp
    moreover have "moved (data_base b) (data_base b2) s u"
      using strbuf_atD(4) [OF b2(1)] by (intro moved_others_trans [OF o m b2(5)]) (simp add: data_base_def)
    moreover have "doubled (length bs) need (length bs2) (Suc k)" "calls u = calls s + Suc k"
      using b2(3,6) bs'(1) once by (simp_all add: doubled_step)
    ultimately show ?thesis using True o' b2(1,2) len unfolding grown_def by auto
  qed
qed

lemma grow_loop_runs:
  assumes "strbuf_at buf b bs s" and "bs \<noteq> []" and "unat (sb_length b + n) = need" and "need < 2 ^ 63"
    and "need \<le> length bs * 2 ^ k" and "k < fuel"
  shows "runs (grow_loop tb fuel buf (h_data buf) n) s (grown buf b bs need s)"
  using assms
proof (induction fuel arbitrary: b bs s k)
  case (Suc fuel)
  note at = Suc.prems(1)
  note D = strbuf_atD [OF at]
  have guard: "h_size (sb_data b) < sb_length b + n \<longleftrightarrow> length bs < need"
    using D(5) Suc.prems(3) by (simp add: word_less_nat_alt)
  show ?case
  proof (cases "length bs < need")
    case False
    then show ?thesis
      using guard at by (auto simp: runs_def cbind_apply D(3) grown_def doubled_def intro!: exI [of _ b] exI [of _ bs])
  next
    case True
    then obtain k' where k: "k = Suc k'" using Suc.prems(5) by (cases k) auto
    have "2 * length bs < 2 ^ 64" using True Suc.prems(4) by simp
    from grow_strbuf_runs [OF at Suc.prems(2) this, of tb]
    obtain r t where g: "grow_strbuf tb buf s = Inr (r, t)" and post: "grew buf b bs s r t"
      by (rule runsE)
    then have o: "others_same {pbase (h_data buf), data_base b} s t" and once: "calls t = Suc (calls s)"
      by (simp_all add: grew_def)
    show ?thesis
    proof (cases r)
      case False
      then show ?thesis
        using guard True g o post by (auto simp: runs_def cbind_apply D(3) grown_def grew_def)
    next
      case r: True
      then obtain b' bs' where b': "strbuf_at buf b' bs' t" "sb_length b' = sb_length b" "length bs' = 2 * length bs"
          "take (length bs) bs' = bs" "moved (data_base b) (data_base b') s t"
        using post by (auto simp: grew_def)
      have "runs (grow_loop tb fuel buf (h_data buf) n) t (grown buf b' bs' need t)"
        using Suc.prems(2-6) b' k by (intro Suc.IH [of b' bs' t k']) auto
      then have "runs (grow_loop tb fuel buf (h_data buf) n) t (grown buf b bs need s)"
        by (rule runs_conseq) (rule grown_trans [OF o b'(2-5) once True])
      then show ?thesis using guard True r g by (simp add: runs_def cbind_apply D(3))
    qed
  qed
qed simp

text \<open>The fuel of the source's loop: 64 doublings.\<close>

lemma grow_loop_enough:
  assumes at: "strbuf_at buf b bs s" and pos: "bs \<noteq> []" and need: "length cs + unat n < 2 ^ 63"
    and len: "unat (sb_length b) = length cs"
  shows "runs (grow_loop tb GROW_FUEL buf (h_data buf) n) s (grown buf b bs (length cs + unat n) s)"
proof -
  have "unat (sb_length b) + unat n < 2 ^ LENGTH(64)" using need len by simp
  then have sum: "unat (sb_length b + n) = length cs + unat n" using len by (simp add: unat_word_ariths)
  have "1 \<le> length bs" using pos by (cases bs) simp_all
  then have "(1::nat) * 2 ^ 63 \<le> length bs * 2 ^ 63" by (rule mult_le_mono1)
  then have "length cs + unat n \<le> length bs * 2 ^ 63" using need by simp
  then show ?thesis by (rule grow_loop_runs [OF at pos sum need]) (simp add: GROW_FUEL_def)
qed

section \<open>Appending\<close>

text \<open>The text a concatenation reads: characters outside the buffer's two blocks.\<close>

fun source_at :: "csource \<Rightarrow> byte list \<Rightarrow> 64 word set \<Rightarrow> cstate \<Rightarrow> bool" where
  "source_at (From_ptr p) ds S s \<longleftrightarrow> chars_at p ds s \<and> pbase p \<notin> S"
| "source_at (Local_char c) ds S s \<longleftrightarrow> ds = [c]"

lemma copy_source_exec:
  assumes src: "source_at src ds S t" and room: "space_at d bs t" "poff d + length ds \<le> length bs"
    and apart: "pbase d \<in> S" and n: "unat n = length ds"
  shows "copy_source d src n t = Inr ((), set_content d (Bytes (splice bs (poff d) (map Some ds))) t)"
proof (cases src)
  case (From_ptr p)
  then show ?thesis using src apart room n by (auto intro: memcpy_exec)
next
  case (Local_char c)
  then show ?thesis using src room store_bytes_exec [of d bs t "[Some c]"] by simp
qed

text \<open>
  The common part of the appends: grow, write at the end of the text, and count the characters.
\<close>

definition append_with :: "table_ops \<Rightarrow> mem_handle \<Rightarrow> (ptr \<Rightarrow> unit prog) \<Rightarrow> size_t \<Rightarrow> size_t \<Rightarrow> bool prog" where
  "append_with tb buf w n m = cbind (grow_loop tb GROW_FUEL buf (h_data buf) n) (\<lambda>grown.
     if \<not> grown then ret False else
     cbind (load_strbuf (h_data buf)) (\<lambda>b. cbind (mem_p tb (sb_data b)) (\<lambda>p.
     cbind (w (ptr_add p (unat (sb_length b)))) (\<lambda>_.
     cbind (update_strbuf (h_data buf) (\<lambda>b. b\<lparr>sb_length := sb_length b + m\<rparr>)) (\<lambda>_. ret True)))))"

lemma do_strbuf_concatenate_unfold:
  "strbuf_at buf b bs s \<Longrightarrow> do_strbuf_concatenate tb buf src n s = append_with tb buf (\<lambda>d. copy_source d src n) n n s"
  by (simp add: do_strbuf_concatenate_def append_with_def cbind_apply [of "strbuf_is_valid _ _"]
      strbuf_is_valid_exec strbuf_at_p)

text \<open>
  What an append does, when it writes \<open>ws\<close> and counts the first \<open>m\<close> characters of it: the text is
  longer, or the buffer has lost its data.
\<close>

definition appended ::
  "table_ops \<Rightarrow> mem_handle \<Rightarrow> strbuf \<Rightarrow> byte option list \<Rightarrow> byte list \<Rightarrow> byte list \<Rightarrow> nat \<Rightarrow> size_t \<Rightarrow> cstate \<Rightarrow> bool \<Rightarrow> cstate \<Rightarrow> bool" where
  "appended tb buf b bs cs ws m n s r t \<longleftrightarrow> others_same {pbase (h_data buf), data_base b} s t \<and>
    (\<exists>u. grow_loop tb GROW_FUEL buf (h_data buf) n s = Inr (r, u)) \<and>
    (if r then \<exists>b' bs' k. strbuf_at buf b' bs' t \<and> unat (sb_length b') = length cs + m \<and>
        take (length cs + length ws) bs' = map Some (cs @ ws) \<and> (cs \<noteq> [] \<or> ws \<noteq> [] \<or> bs' ! 0 = bs ! 0) \<and> bs' \<noteq> [] \<and>
        doubled (length bs) (length cs + length ws) (length bs') k \<and> calls t = calls s + k \<and>
        moved (data_base b) (data_base b') s t
     else strbuf_is_valid tb buf t = Inr (False, t))"

lemma append_with_runs:
  assumes at: "strbuf_at buf b bs s" and pos: "bs \<noteq> []" and cs: "unat (sb_length b) = length cs" "take (length cs) bs = map Some cs"
    and n: "unat n = length ws" and m: "unat m \<le> length ws" and small: "length cs + length ws < 2 ^ 63"
    and w: "\<And>t d bs'. others_same {pbase (h_data buf), data_base b} s t \<Longrightarrow> pbase d = data_base b \<or> heap s (pbase d) = None \<Longrightarrow>
      space_at d bs' t \<Longrightarrow> poff d + length ws \<le> length bs' \<Longrightarrow>
      w d t = Inr ((), set_content d (Bytes (splice bs' (poff d) (map Some ws))) t)"
  shows "runs (append_with tb buf w n m) s (appended tb buf b bs cs ws (unat m) n s)"
proof -
  note D = strbuf_atD [OF at]
  obtain r t where g: "grow_loop tb GROW_FUEL buf (h_data buf) n s = Inr (r, t)"
      and gr: "grown buf b bs (length cs + length ws) s r t"
    using grow_loop_enough [OF at pos _ cs(1), of n tb] n small by (auto elim!: runsE)
  have o: "others_same {pbase (h_data buf), data_base b} s t" using gr by (simp add: grown_def)
  show ?thesis
  proof (cases r)
    case False
    then obtain b' where "load_strbuf (h_data buf) t = Inr (b', t)" "h_data (sb_data b') = NULL"
      using gr by (auto simp: grown_def)
    then have "strbuf_is_valid tb buf t = Inr (False, t)"
      using D(7) strbuf_at_p(1) [OF at] by (simp add: strbuf_is_valid_def mem_is_valid_def cbind_apply)
    then show ?thesis using False o g by (simp add: runs_def appended_def append_with_def cbind_apply)
  next
    case True
    then obtain b' bs' k where at': "strbuf_at buf b' bs' t" and len': "sb_length b' = sb_length b"
        and twice: "doubled (length bs) (length cs + length ws) (length bs') k" "calls t = calls s + k" and keep: "take (length bs) bs' = bs"
        and mv: "moved (data_base b) (data_base b') s t"
      using gr by (auto simp: grown_def)
    then have base: "data_base b' = data_base b \<or> heap s (data_base b') = None" by (simp add: moved_def)
    have fits: "length cs + length ws \<le> length bs'" using twice(1) by (simp add: doubled_def)
    note D' = strbuf_atD [OF at']
    let ?d = "ptr_add (h_data (sb_data b')) (length cs)"
    let ?bs = "splice bs' (length cs) (map Some ws)"
    let ?t = "set_content ?d (Bytes ?bs) t"
    let ?b = "b'\<lparr>sb_length := sb_length b' + m\<rparr>"
    let ?u = "set_content (h_data buf) (Strbuf_obj ?b) ?t"
    have sp: "space_at ?d bs' t" by (rule space_at_base [OF _ D'(9)]) simp
    have cp: "w ?d t = Inr ((), ?t)"
      using w [OF o _ sp] base fits D'(10) by (simp add: data_base_def)
    have ld: "load_strbuf (h_data buf) ?t = Inr (b', ?t)"
      using D'(4) by (intro load_strbuf_frame [OF D'(3)]) (simp add: heap_set_content)
    have run: "append_with tb buf w n m s = Inr (True, ?u)"
      using True cp cs(1) len'
      by (simp add: append_with_def cbind_apply g D'(3) strbuf_at_p [OF at'] update_strbuf_exec [OF ld])
    have le: "length cs \<le> length bs" using D(6) cs(1) by simp
    have l: "length ?bs = length bs'" using fits by (simp add: length_splice)
    have all: "take (length cs + length ws) ?bs = map Some (cs @ ws)"
    proof -
      have "take (length cs) bs' = take (length cs) (take (length bs) bs')" using le by (simp add: min_def)
      also have "\<dots> = map Some cs" using keep cs(2) by simp
      finally show ?thesis using fits by (simp add: splice_def)
    qed
    have "unat (sb_length b') + unat m < 2 ^ LENGTH(64)" using cs(1) len' m small by simp
    then have sum: "unat (sb_length b' + m) = length cs + unat m"
      using cs(1) len' by (simp add: unat_word_ariths)
    obtain k' where k': "owned t (sb_data b') k'" "block_bytes k' = Inr bs'" using at' by (rule strbuf_at_owned)
    have "strbuf_at buf ?b ?bs ?u"
    proof -
      have b: "?b = \<lparr>sb_data = sb_data b', sb_length = sb_length b' + m\<rparr>" by (cases b') simp
      show ?thesis
        unfolding b
        by (rule strbuf_at_set [OF at' D'(1) D'(2), where k = "k'\<lparr>b_content := Bytes ?bs\<rparr>"])
          (use k' D'(4,5) l fits sum m in \<open>auto simp: owned_def block_bytes_def heap_set_content\<close>)
    qed
    moreover have "others_same {pbase (h_data buf), data_base b} s ?u"
      using o base D'(4) by (auto simp: others_same_def heap_set_content data_base_def)
    moreover have "cs = [] \<and> ws = [] \<longrightarrow> ?bs ! 0 = bs ! 0"
      using keep pos by (auto simp: splice_def) (metis length_greater_0_conv nth_take)
    moreover have "?bs \<noteq> []" using l keep pos by auto
    moreover have "moved (data_base b) (data_base ?b) s ?u" using mv by (simp add: data_base_def)
    ultimately show ?thesis
      using run True all sum g twice l
      by (auto simp: runs_def appended_def intro!: exI [of _ ?b] exI [of _ ?bs] exI [of _ k])
  qed
qed

lemma concatenate_runs:
  assumes at: "strbuf_at buf b bs s" and pos: "bs \<noteq> []" and cs: "unat (sb_length b) = length cs" "take (length cs) bs = map Some cs"
    and n: "unat n = length ds" and small: "length cs + length ds < 2 ^ 63"
    and src: "\<And>t e. others_same {pbase (h_data buf), data_base b} s t \<Longrightarrow> e = data_base b \<or> heap s e = None \<Longrightarrow>
      source_at src ds {e} t"
  shows "runs (do_strbuf_concatenate tb buf src n) s (appended tb buf b bs cs ds (length ds) n s)"
  using append_with_runs [OF at pos cs n _ small, of n "\<lambda>d. copy_source d src n" tb] n
    copy_source_exec [OF src _ _ _ n]
  by (simp add: runs_def do_strbuf_concatenate_unfold [OF at])

text \<open>
  What vsnprintf wrote for the length that the first call returned: all characters and the
  terminator, which is not counted.
\<close>

lemma strbuf_concatenate_printf_unfold:
  assumes "strbuf_at buf b bs s" and "fmt \<noteq> NULL" and "n = word_of_int (vsnprintf_length out + 1)"
    and "vsnprintf_length out < 2 ^ 31 - 1"
  shows "strbuf_concatenate_printf tb buf fmt out s
    = append_with tb buf (\<lambda>p. vsnprintf_write p n out) n (n - 1) s"
  unfolding strbuf_concatenate_printf_def append_with_def assms(3)
  using assms(2,4)
  by (simp add: cbind_apply [of "strbuf_is_valid _ _"] cbind_apply [of "int_plus_one _"] int_plus_one_def
      strbuf_is_valid_exec [OF assms(1)] strbuf_at_p [OF assms(1)] Let_def del: of_int_add)

lemma printf_runs:
  assumes at: "strbuf_at buf b bs s" and pos: "bs \<noteq> []" and cs: "unat (sb_length b) = length cs" "take (length cs) bs = map Some cs"
    and small: "length cs + length ds + 1 < 2 ^ 63" and fmt: "fmt \<noteq> NULL" and fits: "length ds < 2 ^ 31 - 1"
  shows "runs (strbuf_concatenate_printf tb buf fmt (Some ds)) s
    (appended tb buf b bs cs (ds @ [0]) (length ds) (of_nat (length ds + 1)) s)"
proof -
  let ?n = "of_nat (length ds + 1) :: size_t"
  have n: "word_of_int (vsnprintf_length (Some ds) + 1) = ?n" and le: "vsnprintf_length (Some ds) < 2 ^ 31 - 1"
    using fits by (simp_all add: vsnprintf_length_def)
  have un: "unat ?n = length (ds @ [0])" using small unat_of_nat_size [of "length ds + 1"] by simp
  then have nz: "?n \<noteq> 0" by (metis length_0_conv snoc_eq_iff_butlast unat_0)
  have um: "unat (?n - 1) = length ds" using small unat_of_nat_size [of "length ds"] by simp
  have "vsnprintf_write d ?n (Some ds) = store_bytes d (map Some (ds @ [0]))" for d
    using un nz by (simp add: vsnprintf_write_def)
  then have w: "vsnprintf_write d ?n (Some ds) t = Inr ((), set_content d (Bytes (splice bs' (poff d) (map Some (ds @ [0])))) t)"
    if "space_at d bs' t" "poff d + length (ds @ [0]) \<le> length bs'" for d t bs'
    using store_bytes_exec [OF that(1), of "map Some (ds @ [0])"] that(2) by simp
  note strbuf_concatenate_printf_unfold [OF at fmt n [symmetric] le, of tb]
  moreover have "runs (append_with tb buf (\<lambda>p. vsnprintf_write p ?n (Some ds)) ?n (?n - 1)) s
      (appended tb buf b bs cs (ds @ [0]) (unat (?n - 1)) ?n s)"
    by (rule append_with_runs [OF at pos cs un]) (use small um w in simp_all)
  ultimately show ?thesis by (simp only: runs_def um)
qed

section \<open>Creation\<close>

lemma strbuf_create_runs:
  "runs (strbuf_create tb MEM_ALLOCATOR_PLAIN n) s (\<lambda>r t. env_same s t \<and>
     (if h_data r = NULL then r = null_handle \<and> heap t = heap s
      else \<exists>b. strbuf_at r b (replicate (unat n) (Some 0)) t \<and> sb_length b = 0 \<and>
        heap s (pbase (h_data r)) = None \<and> heap s (data_base b) = None \<and>
        (\<forall>a. a \<notin> {pbase (h_data r), data_base b} \<longrightarrow> heap t a = heap s a)))"
proof -
  obtain r t1 where al: "mem_alloc tb MEM_ALLOCATOR_PLAIN sizeof_strbuf s = Inr (r, t1)"
      and post: "alloc_post Fresh MEM_ALLOCATOR_PLAIN sizeof_strbuf s r t1"
    using plain.alloc_law by (rule runsE)
  show ?thesis
  proof (cases "h_data r = NULL")
    case True
    then show ?thesis using al post
      by (auto simp: strbuf_create_def cbind_apply mem_is_valid_def runs_def alloc_post_def)
  next
    case False
    let ?fresh = "\<lparr>b_size = sizeof_strbuf, b_heap = True, b_content = Fresh\<rparr>"
    obtain a where a: "a \<noteq> 0" "heap s a = None"
        and r: "r = \<lparr>h_data = Ptr a 0, h_size = sizeof_strbuf, h_alloc = MEM_ALLOCATOR_PLAIN\<rparr>"
        and h1: "heap t1 = (heap s)(a \<mapsto> ?fresh)" and e1: "env_same s t1"
      using False post by (auto simp: alloc_post_def)
    have p: "mem_p tb r = ret (Ptr a 0)" by (simp add: mem_p_transparent r)
    obtain d t2 where al2: "mem_alloc_clear tb MEM_ALLOCATOR_PLAIN n t1 = Inr (d, t2)"
        and post2: "alloc_post Zeroed MEM_ALLOCATOR_PLAIN n t1 d t2"
      using plain.alloc_clear_law by (rule runsE)
    show ?thesis
    proof (cases "h_data d = NULL")
      case True
      then have h2: "heap t2 = heap t1" "env_same t1 t2" using post2 by (auto simp: alloc_post_def)
      then have "owned t2 r ?fresh" using a h1 by (simp add: owned_def r)
      from plain.free_law [OF _ this, of tb]
      have "runs (mem_free tb r) t2 (\<lambda>x u. x = null_handle \<and> env_same t2 u \<and> heap u = (heap t2)(a := None))"
        by (simp add: r)
      moreover have "(heap t2)(a := None) = heap s" using a h1 h2 by (auto simp: fun_eq_iff)
      ultimately show ?thesis
        using False True e1 h2(2) al al2
        by (auto simp: strbuf_create_def cbind_apply mem_is_valid_def runs_def split: sum.splits
            dest: env_same_trans)
    next
      case d: False
      then obtain a2 where a2: "a2 \<noteq> 0" "heap t1 a2 = None"
          and dh: "d = \<lparr>h_data = Ptr a2 0, h_size = n, h_alloc = MEM_ALLOCATOR_PLAIN\<rparr>"
          and h2: "heap t2 = (heap t1)(a2 \<mapsto> \<lparr>b_size = n, b_heap = True, b_content = Zeroed\<rparr>)"
          and e2: "env_same t1 t2"
        using post2 by (auto simp: alloc_post_def)
      have ne: "a2 \<noteq> a" using a2(2) h1 by auto
      have b: "block_at (Ptr a 0) t2 = Inr ?fresh" using a h1 h2 ne by (simp add: block_at_Inr_iff)
      let ?b = "\<lparr>sb_data = d, sb_length = 0\<rparr>"
      let ?t = "set_content (Ptr a 0) (Strbuf_obj ?b) t2"
      have z: "zero_strbuf\<lparr>sb_data := d\<rparr> = ?b" by (simp add: zero_strbuf_def)
      have u1: "update_strbuf (Ptr a 0) (\<lambda>b. b\<lparr>sb_data := d\<rparr>) t2 = Inr ((), ?t)"
        and l1: "load_strbuf (Ptr a 0) ?t = Inr (?b, ?t)"
        using update_struct_fresh [OF b, of sizeof_strbuf the_strbuf Strbuf_obj "\<lambda>b. b\<lparr>sb_data := d\<rparr>" zero_strbuf]
        by (simp_all add: update_strbuf_def load_strbuf_def z)
      have run: "strbuf_create tb MEM_ALLOCATOR_PLAIN n s = Inr (r, ?t)"
        using False d by (simp add: strbuf_create_def cbind_apply mem_is_valid_def al al2 p u1 update_strbuf_exec [OF l1])
      have "strbuf_at r ?b (replicate (unat n) (Some 0)) ?t"
        using l1 a a2 ne h1 h2
        by (auto simp: strbuf_at_def r dh owned_def heap_set_content block_bytes_def)
      moreover have "heap s a2 = None" using a2(2) h1 ne by simp
      moreover have "env_same s ?t" using env_same_trans [OF e1 e2] by simp
      ultimately show ?thesis
        using run a h1 h2 by (auto simp: runs_def r dh data_base_def heap_set_content intro!: exI [of _ ?b])
    qed
  qed
qed

section \<open>Reading and resetting\<close>

lemma strbuf_str_exec:
  assumes at: "strbuf_at buf b bs s" and cs: "unat (sb_length b) = length cs" "take (length cs) bs = map Some cs"
  shows "strbuf_str tb buf s = Inr ((sb_data b)\<lparr>h_size := sb_length b, h_alloc := MEM_ALLOCATOR_NOT_ALLOCATED\<rparr>, s)"
    and "str_rep ((sb_data b)\<lparr>h_size := sb_length b, h_alloc := MEM_ALLOCATOR_NOT_ALLOCATED\<rparr>) cs s"
proof -
  note D = strbuf_atD [OF at]
  show "strbuf_str tb buf s = Inr ((sb_data b)\<lparr>h_size := sb_length b, h_alloc := MEM_ALLOCATOR_NOT_ALLOCATED\<rparr>, s)"
    using D(3,7) by (simp add: strbuf_str_def mem_is_valid_def cbind_apply strbuf_at_p [OF at])
  have "chars_at (h_data (sb_data b)) cs s"
    using D(6,10) cs by (intro chars_at_space [OF D(9)]) simp_all
  then show "str_rep ((sb_data b)\<lparr>h_size := sb_length b, h_alloc := MEM_ALLOCATOR_NOT_ALLOCATED\<rparr>) cs s"
    using cs(1) by (simp add: str_rep_def transparent_def)
qed

lemma strbuf_reset_exec:
  assumes at: "strbuf_at buf b bs s"
  shows "strbuf_reset tb buf s = Inr ((), set_content (h_data buf) (Strbuf_obj (b\<lparr>sb_length := 0\<rparr>)) s)"
    and "strbuf_at buf (b\<lparr>sb_length := 0\<rparr>) bs (set_content (h_data buf) (Strbuf_obj (b\<lparr>sb_length := 0\<rparr>)) s)"
proof -
  note D = strbuf_atD [OF at]
  show "strbuf_reset tb buf s = Inr ((), set_content (h_data buf) (Strbuf_obj (b\<lparr>sb_length := 0\<rparr>)) s)"
    using D(7) by (simp add: strbuf_reset_def mem_is_valid_def strbuf_at_p [OF at] update_strbuf_exec [OF D(3)])
  obtain k where k: "owned s (sb_data b) k" "block_bytes k = Inr bs" using at by (rule strbuf_at_owned)
  have b: "b\<lparr>sb_length := 0\<rparr> = \<lparr>sb_data = sb_data b, sb_length = 0\<rparr>" by (cases b) simp
  show "strbuf_at buf (b\<lparr>sb_length := 0\<rparr>) bs (set_content (h_data buf) (Strbuf_obj (b\<lparr>sb_length := 0\<rparr>)) s)"
    unfolding b by (rule strbuf_at_set [OF at D(1,2) k]) (use D in simp_all)
qed

end
