(* ===== verification/Ds_Supply.thy ===== *)
theory Ds_Supply
  imports Ds_Sigint
begin

text \<open>
  Relations between the start and the end of a run that all library functions respect because the
  primitives do: the locale \<open>stable_relation\<close>. Its instance \<open>supplied\<close> says where new blocks
  come from (the answers of the system allocator, one per call), so that an allocator that never
  runs out before a run never runs out during it.
\<close>

locale stable_relation =
  fixes R :: "cstate \<Rightarrow> cstate \<Rightarrow> bool"
  assumes refl_law [intro, simp]: "reflp R" and trans_law [intro, simp]: "transp R"
    and store_law: "evolves R (store p g)"
    and content_law: "R s (set_content p c s)"
    and malloc_law: "evolves R (malloc n)"
    and free_law: "evolves R (free p)"
    and realloc_law: "evolves R (realloc p n)"
    and signal_law: "evolves R (signal_int h)"
begin

lemma load_law: "evolves R (load p f)"
  by (auto simp: load_Inr_iff intro!: evolvesI reflpD [OF refl_law])

lemma access:
  "evolves R (load_map p)" "evolves R (update_map p fm)"
  "evolves R (load_memtbl p)" "evolves R (update_memtbl p ft)"
  "evolves R (load_strbuf p)" "evolves R (update_strbuf p fb)"
  "evolves R (load_entry p i)" "evolves R (update_entry p i fe)"
  "evolves R (load_byte p)" "evolves R (store_bytes p cs)"
  "evolves R (load_bytes p k)" "evolves R (memset_zero p n)"
  "evolves R (strlen p)" "evolves R (isspace c)" "evolves R (ptr_addi p j)"
  unfolding access_defs isspace_def ptr_addi_def
  by (rule load_law store_law | simp add: evolves_ret evolves_raise)+

lemma memcpy_law: "evolves R (memcpy d p n)"
proof (rule evolvesI)
  fix s x t assume *: "memcpy d p n s = Inr (x, t)"
  have "evolves R (cbind (load_bytes p (unat n)) (store_bytes d))"
    by (intro evolves_cbind access trans_law)
  then show "R s t"
    using * content_law by (auto simp: memcpy_def split: sum.splits if_splits dest: evolvesD)
qed

lemma guard_law: "evolves R body \<Longrightarrow> evolves R (sigint_guard body)"
  unfolding sigint_guard_def by (intro evolves_cbind trans_law signal_law evolves_ret refl_law)

definition ops_stable :: "table_ops \<Rightarrow> bool" where
  "ops_stable tb \<longleftrightarrow> (\<forall>a n. evolves R (tbl_alloc tb a n)) \<and> (\<forall>h n. evolves R (tbl_realloc tb h n)) \<and>
     (\<forall>h. evolves R (tbl_free tb h)) \<and> (\<forall>h. evolves R (tbl_p tb h))"

lemmas base = evolves_ret [OF refl_law] evolves_return [OF refl_law] evolves_raise evolves_cbind [OF trans_law]
  evolves_if evolves_option evolves_Let access memcpy_law guard_law malloc_law free_law realloc_law

lemma mem_ops:
  assumes "ops_stable tb"
  shows "evolves R (mem_alloc tb a n)" "evolves R (mem_realloc tb h n)"
    "evolves R (mem_free tb h)" "evolves R (mem_p tb h)"
proof -
  have calls: "evolves R (call_alloc tb f a n)" "evolves R (call_realloc tb f h n)"
      "evolves R (call_free tb f h)" for f
    using assms
    by (cases f; auto simp: ops_stable_def plain_alloc_def plain_realloc_def plain_free_def intro!: base)+
  have p: "evolves R (call_p tb f h)" for f
    using assms by (cases f) (auto simp: ops_stable_def mem_handle_data_def intro!: base)
  show "evolves R (mem_alloc tb a n)" "evolves R (mem_realloc tb h n)" "evolves R (mem_free tb h)"
      "evolves R (mem_p tb h)"
    unfolding mem_alloc_def mem_realloc_def mem_free_def mem_p_def by (auto intro!: base calls p)
qed

lemma mem_derived:
  assumes "ops_stable tb"
  shows "evolves R (mem_alloc_clear tb a n)" "evolves R (mem_duplicate_with_allocator tb a h)"
  by (auto simp: mem_alloc_clear_def mem_duplicate_with_allocator_def intro!: base mem_ops [OF assms])

lemma hash_str_loop: "ops_stable tb \<Longrightarrow> evolves R (hash_str_loop tb n key i h)"
  by (induction n arbitrary: i h) (auto intro!: base mem_ops)

lemma copy_entries_law: "evolves R (copy_entries p q n nts i)"
proof (induction "unat n - unat i" arbitrary: i rule: less_induct)
  case less
  show ?case by (subst copy_entries.simps) (auto intro!: base less)
qed

lemma find_entry_loop: "evolves R (find_entry_loop n p ts k st pos)"
  by (induction n arbitrary: pos) (auto simp: Let_def intro!: base)

lemma next_value_pos_law: "ops_stable tb \<Longrightarrow> evolves R (next_value_pos tb p ts i)"
proof (induction "unat ts - unat i" arbitrary: i rule: less_induct)
  case less
  show ?case by (subst next_value_pos.simps) (auto intro!: base mem_ops less)
qed

lemma map_basic:
  assumes "ops_stable tb"
  shows "evolves R (map_create tb a)" "evolves R (map_is_valid tb h)" "evolves R (map_destroy tb h)"
    "evolves R (hash_str tb h)" "evolves R (resize_entries_table tb h g)" "evolves R (find_entry_pos tb h k)"
  by (auto simp: map_create_def map_is_valid_def map_destroy_def hash_str_def new_size_def
      resize_entries_table_def find_entry_pos_def Let_def
      intro!: base mem_ops [OF assms] mem_derived [OF assms] hash_str_loop [OF assms] copy_entries_law find_entry_loop)

lemma map_ops:
  assumes "ops_stable tb"
  shows "evolves R (do_set tb h k v)" "evolves R (do_get tb h k)" "evolves R (do_delete tb h k)"
  by (auto simp: do_set_def do_get_def do_delete_def intro!: base mem_ops [OF assms] map_basic [OF assms])

lemma map_public:
  assumes "ops_stable tb"
  shows "evolves R (map_set_str tb h k v)" "evolves R (map_set_ptr tb h p v)"
    "evolves R (map_get_str tb h k)" "evolves R (map_get_ptr tb h p)"
    "evolves R (map_delete_str tb h k)" "evolves R (map_delete_ptr tb h p)"
  by (auto simp: map_set_str_def map_set_ptr_def map_get_str_def map_get_ptr_def map_delete_str_def
      map_delete_ptr_def intro!: base mem_ops [OF assms] map_basic [OF assms] map_ops [OF assms])

lemma map_iter:
  assumes "ops_stable tb"
  shows "evolves R (map_next_value_iter tb it)" "evolves R (map_first_value_iter tb h)" "evolves R (map_iter_done tb it)"
  by (auto simp: map_next_value_iter_def map_first_value_iter_def map_iter_done_def Let_def
      intro!: base mem_ops [OF assms] next_value_pos_law [OF assms])

lemma self_stable: "ops_stable tb \<Longrightarrow> evolves R (memtbl_p tb h)"
  by (auto simp: memtbl_p_def table_map_def intro!: base map_public)

lemma memtbl_functions:
  assumes "ops_stable tb"
  shows "evolves R (memtbl_alloc tb a n)" "evolves R (memtbl_realloc tb h n)" "evolves R (memtbl_free tb h)"
proof -
  have self: "ops_stable (tb\<lparr>tbl_p := memtbl_p tb\<rparr>)"
    using assms self_stable [OF assms] by (simp add: ops_stable_def)
  show "evolves R (memtbl_alloc tb a n)" "evolves R (memtbl_realloc tb h n)" "evolves R (memtbl_free tb h)"
    by (auto simp: memtbl_alloc_def memtbl_realloc_def memtbl_free_def self_p_def table_map_def Let_def
        intro!: base map_public [OF assms] mem_ops [OF self])
qed

lemma ops_stable_memtbl_ops [simp]: "ops_stable (memtbl_ops d)"
proof (induction d)
  case 0
  then show ?case by (simp add: ops_stable_def memtbl_ops.simps evolves_raise)
next
  case (Suc d)
  then show ?case
    using memtbl_functions [OF Suc] self_stable [OF Suc] by (simp add: ops_stable_def memtbl_ops.simps)
qed

lemma scan_while_law: "evolves R (scan_while w f p n i)"
  by (induction f arbitrary: i) (auto intro!: base)

lemma str_split_whitespace_law: "ops_stable tb \<Longrightarrow> evolves R (str_split_whitespace_pop tb h g)"
  by (auto simp: str_split_whitespace_pop_def Let_def intro!: base mem_ops scan_while_law)

lemma strbuf_basic:
  assumes "ops_stable tb"
  shows "evolves R (strbuf_is_valid tb h)" "evolves R (strbuf_create tb a n)" "evolves R (strbuf_str tb h)"
    "evolves R (strbuf_reset tb h)" "evolves R (grow_strbuf tb h)"
  by (auto simp: strbuf_is_valid_def strbuf_create_def strbuf_str_def strbuf_reset_def grow_strbuf_def Let_def
      intro!: base mem_ops [OF assms] mem_derived [OF assms])

lemma grow_loop_law: "ops_stable tb \<Longrightarrow> evolves R (grow_loop tb f h p n)"
  by (induction f) (auto intro!: base strbuf_basic)

lemma concatenate_law: "ops_stable tb \<Longrightarrow> evolves R (do_strbuf_concatenate tb h src n)"
proof -
  have copy: "evolves R (copy_source d src n)" for d by (cases src) (auto intro!: base)
  assume "ops_stable tb"
  then show ?thesis
    by (auto simp: do_strbuf_concatenate_def Let_def intro!: base mem_ops strbuf_basic grow_loop_law copy)
qed

lemma printf_law: "ops_stable tb \<Longrightarrow> evolves R (strbuf_concatenate_printf tb h p out)"
proof -
  have writes: "evolves R (vsnprintf_write d n out)" for d n by (auto simp: vsnprintf_write_def intro!: base)
  assume "ops_stable tb"
  then show ?thesis
    by (auto simp: strbuf_concatenate_printf_def int_plus_one_def Let_def intro!: base mem_ops strbuf_basic grow_loop_law writes)
qed

end

section \<open>Where new blocks come from\<close>

definition supplied :: "cstate \<Rightarrow> cstate \<Rightarrow> bool" where
  "supplied s t \<longleftrightarrow> answers t = answers s \<and> calls s \<le> calls t \<and>
     (\<forall>a. heap t a \<noteq> None \<longrightarrow> heap s a \<noteq> None \<or> (\<exists>i. calls s \<le> i \<and> i < calls t \<and> a = answers s i))"

lemma supplied_refl: "reflp supplied"
  by (auto simp: supplied_def intro!: reflpI)

lemma supplied_trans: "transp supplied"
proof (rule transpI)
  fix s t u assume st: "supplied s t" and tu: "supplied t u"
  show "supplied s u"
    unfolding supplied_def
  proof (intro conjI allI impI)
    show "answers u = answers s" "calls s \<le> calls u" using st tu by (auto simp: supplied_def)
    fix a assume "heap u a \<noteq> None"
    then show "heap s a \<noteq> None \<or> (\<exists>i. calls s \<le> i \<and> i < calls u \<and> a = answers s i)"
      using st tu unfolding supplied_def by (metis le_trans order_less_le_trans)
  qed
qed

lemma supplied_set_content: "supplied s (set_content p c s)"
  by (auto simp: supplied_def heap_set_content split: if_splits)

interpretation blocks_answered: stable_relation supplied
proof unfold_locales
  fix s p c
  show "supplied s (set_content p c s)" by (rule supplied_set_content)
next
  fix p g show "evolves supplied (store p g)"
    using supplied_set_content by (auto simp: store_def intro!: evolvesI split: sum.splits)
next
  fix n show "evolves supplied (malloc n)"
    by (rule evolvesI) (auto simp: malloc_def libc_defs supplied_def Let_def split: if_splits)
next
  fix p show "evolves supplied (free p)"
    by (rule evolvesI) (auto simp: free_def libc_defs supplied_def split: if_splits option.splits)
next
  fix p n show "evolves supplied (realloc p n)"
    by (rule evolvesI)
      (auto simp: realloc_def libc_defs supplied_def Let_def split: if_splits option.splits sum.splits)
next
  fix h show "evolves supplied (signal_int h)"
    by (rule evolvesI) (auto simp: signal_int_def supplied_def)
qed (rule supplied_refl supplied_trans)+

text \<open>The next \<open>n\<close> answers of the system allocator are new addresses.\<close>

definition stocked :: "nat \<Rightarrow> cstate \<Rightarrow> bool" where
  "stocked n s \<longleftrightarrow>
     (\<forall>i \<in> {calls s..<calls s + n}. answers s i \<noteq> 0 \<and> heap s (answers s i) = None) \<and>
     inj_on (answers s) {calls s..<calls s + n}"

lemma stocked_kept:
  assumes st: "supplied s t" and n: "stocked n s" and k: "calls t + k \<le> calls s + n"
  shows "stocked k t"
  unfolding stocked_def
proof (intro conjI ballI)
  have a: "answers t = answers s" "calls s \<le> calls t"
    and from_answers: "\<forall>a. heap t a \<noteq> None \<longrightarrow> heap s a \<noteq> None \<or> (\<exists>i\<ge>calls s. i < calls t \<and> a = answers s i)"
    using st by (auto simp: supplied_def)
  have new: "\<forall>i \<in> {calls s..<calls s + n}. answers s i \<noteq> 0 \<and> heap s (answers s i) = None"
    and inj: "inj_on (answers s) {calls s..<calls s + n}"
    using n by (auto simp: stocked_def)
  show "inj_on (answers t) {calls t..<calls t + k}" using inj a k by (auto intro: inj_on_subset)
  fix i assume "i \<in> {calls t..<calls t + k}"
  then have i: "i \<in> {calls s..<calls s + n}" "calls t \<le> i" using a(2) k by auto
  show "answers t i \<noteq> 0" using a(1) new i(1) by simp
  show "heap t (answers t i) = None"
  proof (rule ccontr)
    assume "heap t (answers t i) \<noteq> None"
    then obtain j where j: "calls s \<le> j" "j < calls t" "answers s i = answers s j"
      using from_answers new a(1) i(1) by auto
    then have "j \<in> {calls s..<calls s + n}" using i by auto
    then have "i = j" using inj i(1) j(3) by (auto dest: inj_onD)
    then show False using i(2) j(2) by simp
  qed
qed

lemma stocked_fresh: "stocked (Suc n) s \<Longrightarrow> fresh_answer s \<noteq> 0"
  by (auto simp: stocked_def fresh_answer_def Let_def)

lemma stocked_mono: "stocked n s \<Longrightarrow> k \<le> n \<Longrightarrow> stocked k s"
  by (rule stocked_kept [of s s]) (auto simp: reflpD [OF supplied_refl])

text \<open>An allocator that answers one page after the other, above everything that is live.\<close>

lemma stocked_pages:
  assumes ans: "answers s = (\<lambda>i. of_nat (4096 * (i + k)))" and c: "calls s = 0" and k: "0 < k" "n + k < 2 ^ 32"
    and low: "\<And>a. heap s a \<noteq> None \<Longrightarrow> unat a < 4096 * k"
  shows "stocked n s"
proof -
  have u: "unat (of_nat (4096 * (i + k)) :: 64 word) = 4096 * (i + k)" if "i < n" for i
    using that k by (subst unat_of_nat) simp
  have "of_nat (4096 * (i + k)) \<noteq> (0 :: 64 word) \<and> heap s (of_nat (4096 * (i + k))) = None" if "i < n" for i
    using u [OF that] k(1) low [of "of_nat (4096 * (i + k))"]
    by (metis unat_0 add_is_0 mult_is_0 not_less0 not_le zero_neq_numeral le_add2 mult_le_mono2)
  moreover have "inj_on (\<lambda>i. of_nat (4096 * (i + k)) :: 64 word) {0..<n}"
  proof (rule inj_onI)
    fix i j assume "i \<in> {0..<n}" "j \<in> {0..<n}" "(of_nat (4096 * (i + k)) :: 64 word) = of_nat (4096 * (j + k))"
    then have "4096 * (i + k) = 4096 * (j + k)" using u [of i] u [of j] by (metis atLeastLessThan_iff)
    then show "i = j" by simp
  qed
  ultimately show ?thesis unfolding stocked_def ans c by simp
qed

section \<open>Allocations that succeed\<close>

lemma mem_alloc_succeeds:
  assumes "stocked (Suc n) s" and "mem_alloc tb MEM_ALLOCATOR_PLAIN k s = Inr (r, t)"
  shows "h_data r \<noteq> NULL" and "calls t = Suc (calls s)"
  using stocked_fresh [OF assms(1)] assms(2)
  by (auto simp: mem_alloc_plain plain_alloc_def malloc_def sigint_guard_def signal_int_def cbind_apply Let_def
      fresh_answer_def put_block_def log_event_def split: if_splits)

end
