(* ===== verification/Ds_Success.thy ===== *)
theory Ds_Success
  imports Ds_Strbuf_Proofs Ds_Supply
begin

text \<open>
  Calls that succeed while the system allocator still has answers (\<open>stocked\<close>), with the number of
  answers they use up: allocations, the constructors of maps and string buffers, and the growth of
  a buffer by one character.
\<close>

section \<open>Buffers that grow\<close>

lemma mem_realloc_succeeds:
  assumes "stocked (Suc j) s" and "h_alloc h = MEM_ALLOCATOR_PLAIN" and "owned s h k" and "n \<noteq> 0"
    and "mem_realloc tb h n s = Inr (r, t)"
  shows "h_data r \<noteq> NULL"
  using assms owned_not_null [OF assms(3)]
  by (auto simp: mem_realloc_plain plain_realloc_def mem_is_valid_def libc_defs cbind_apply owned_def Let_def
      stocked_def split: if_splits sum.splits)

lemma grow_strbuf_succeeds:
  assumes at: "strbuf_at buf b bs s" and pos: "bs \<noteq> []" and small: "2 * length bs < 2 ^ 64" and sup: "stocked (Suc j) s"
    and run: "grow_strbuf tb buf s = Inr (r, t)"
  shows "r"
proof -
  note D = strbuf_atD [OF at]
  obtain k where k: "owned s (sb_data b) k" using at by (rule strbuf_at_owned)
  have "unat (h_size (sb_data b) * 2) = 2 * length bs" using D(5) small by (simp add: unat_word_ariths)
  then have "h_size (sb_data b) * 2 \<noteq> 0" using pos by (metis length_0_conv mult_eq_0_iff unat_0 zero_neq_numeral)
  note ok = mem_realloc_succeeds [OF sup D(2) k this, of tb]
  show ?thesis
    using run ok
    by (auto simp: grow_strbuf_def cbind_apply strbuf_at_p [OF at] D(3) Let_def mem_is_valid_def split: sum.splits)
qed

text \<open>\<open>j\<close> answers are enough for a need of at most \<open>2 ^ j\<close> times the size.\<close>

lemma grow_loop_succeeds:
  assumes "blocks_answered.ops_stable tb" and "strbuf_at buf b bs s" and "bs \<noteq> []"
    and "unat (sb_length b + n) = need" and "need < 2 ^ 63" and "need \<le> length bs * 2 ^ j" and "stocked j s"
    and "grow_loop tb fuel buf (h_data buf) n s = Inr (r, t)"
  shows "r"
  using assms
proof (induction fuel arbitrary: b bs s j)
  case (Suc fuel)
  note at = Suc.prems(2)
  note D = strbuf_atD [OF at]
  have guard: "h_size (sb_data b) < sb_length b + n \<longleftrightarrow> length bs < need"
    using D(5) Suc.prems(4) by (simp add: word_less_nat_alt)
  show ?case
  proof (cases "length bs < need")
    case False
    then show ?thesis using guard Suc.prems(8) by (simp add: cbind_apply D(3))
  next
    case True
    then obtain i where j: "j = Suc i" using Suc.prems(6) by (cases j) auto
    have small: "2 * length bs < 2 ^ 64" using True Suc.prems(5) by simp
    from grow_strbuf_runs [OF at Suc.prems(3) small, of tb]
    obtain r' u where g: "grow_strbuf tb buf s = Inr (r', u)" and post: "grew buf b bs s r' u" by (rule runsE)
    have "r'" by (rule grow_strbuf_succeeds [OF at Suc.prems(3) small Suc.prems(7) [unfolded j] g])
    then obtain b' bs' where b': "strbuf_at buf b' bs' u" "sb_length b' = sb_length b" "length bs' = 2 * length bs"
        and once: "calls u = Suc (calls s)"
      using post by (auto simp: grew_def)
    have "supplied s u" using blocks_answered.strbuf_basic(5) [OF Suc.prems(1)] g by (rule evolvesD)
    then have "stocked i u" using once j by (intro stocked_kept [OF _ Suc.prems(7)]) simp_all
    moreover have "grow_loop tb fuel buf (h_data buf) n u = Inr (r, t)"
      using guard True g \<open>r'\<close> Suc.prems(8) by (simp add: cbind_apply D(3))
    ultimately show ?thesis
      using Suc.prems(3-6) b' j by (intro Suc.IH [OF Suc.prems(1) b'(1), of i]) auto
  qed
qed simp

section \<open>Constructors\<close>

lemma store_calls: "store p g s = Inr (x, t) \<Longrightarrow> calls t = calls s"
  by (auto simp: store_def split: sum.splits)

lemma update_calls:
  "update_map p fm s = Inr (x, t) \<Longrightarrow> calls t = calls s"
  "update_strbuf p fb s = Inr (x, t) \<Longrightarrow> calls t = calls s"
  "memset_zero p n s = Inr (x, t) \<Longrightarrow> calls t = calls s"
  unfolding access_defs by (auto dest: store_calls)

lemma load_same: "load_map p s = Inr (m, t) \<Longrightarrow> t = s"
  unfolding access_defs by (auto simp: load_Inr_iff)

lemma load_map_stored: "load_map p (set_content p (Map_obj m') s) = Inr (m, t) \<Longrightarrow> m = m'"
  by (auto simp: load_map_def load_struct_def load_Inr_iff struct_of_def block_at_Inr_iff heap_set_content
      split: if_splits option.splits content.splits)

lemma mem_alloc_plain_handle:
  "mem_alloc tb MEM_ALLOCATOR_PLAIN n s = Inr (h, t) \<Longrightarrow> h_data h \<noteq> NULL \<Longrightarrow> h_alloc h = MEM_ALLOCATOR_PLAIN"
  using plain.alloc_law [of tb n s] by (auto simp: runs_def alloc_post_def)

lemma mem_alloc_clear_succeeds:
  assumes "stocked (Suc n) s" and "mem_alloc_clear tb MEM_ALLOCATOR_PLAIN k s = Inr (r, t)"
  shows "h_data r \<noteq> NULL \<and> calls t = Suc (calls s)"
proof -
  obtain h u where u: "mem_alloc tb MEM_ALLOCATOR_PLAIN k s = Inr (h, u)"
    using assms(2) by (auto simp: mem_alloc_clear_def cbind_Inr_iff)
  note ok = mem_alloc_succeeds [OF assms(1) u]
  have "mem_p tb h = ret (h_data h)" using mem_alloc_plain_handle [OF u ok(1)] by (simp add: mem_p_transparent)
  then have "memset_zero (h_data h) k u = Inr ((), t) \<and> r = h"
    using assms(2) ok(1) by (auto simp: mem_alloc_clear_def cbind_apply u mem_is_valid_def split: sum.splits)
  then show ?thesis using ok by (auto dest: update_calls)
qed

lemma map_create_succeeds:
  assumes tb: "blocks_answered.ops_stable tb" and st: "stocked (Suc (Suc n)) s"
    and run: "map_create tb MEM_ALLOCATOR_PLAIN s = Inr (r, t)"
  shows "h_data r \<noteq> NULL \<and> calls t = Suc (Suc (calls s))"
proof -
  obtain mh u where al: "mem_alloc tb MEM_ALLOCATOR_PLAIN sizeof_map s = Inr (mh, u)"
    using run by (auto simp: map_create_def cbind_Inr_iff)
  note ok = mem_alloc_succeeds [OF st al]
  have p: "mem_p tb mh = ret (h_data mh)" using mem_alloc_plain_handle [OF al ok(1)] by (simp add: mem_p_transparent)
  have valid: "mem_is_valid mh" using ok(1) by (simp add: mem_is_valid_def)
  obtain v w where uv: "update_map (h_data mh) (\<lambda>m. m\<lparr>entry_count := 0\<rparr>) u = Inr ((), v)"
      and vw: "update_map (h_data mh) (\<lambda>m. m\<lparr>table_size := INITIAL_TABLE_SIZE\<rparr>) v = Inr ((), w)"
    using run valid by (auto simp: map_create_def cbind_apply al p split: sum.splits)
  obtain eh x y m where ac: "mem_alloc_clear tb MEM_ALLOCATOR_PLAIN (sizeof_map_entry * ucast INITIAL_TABLE_SIZE) w = Inr (eh, x)"
      and xy: "update_map (h_data mh) (\<lambda>m. m\<lparr>entries_mh := eh\<rparr>) x = Inr ((), y)" "load_map (h_data mh) y = Inr (m, y)"
    using run valid load_same by (auto simp: map_create_def cbind_apply al p uv vw split: sum.splits)
  have c: "calls w = Suc (calls s)" using update_calls(1) [OF uv] update_calls(1) [OF vw] ok(2) by simp
  note sup = evolvesD [OF blocks_answered.mem_ops(1) [OF tb] al] evolvesD [OF blocks_answered.access(2) uv]
    evolvesD [OF blocks_answered.access(2) vw]
  have "supplied s w" using sup by (blast intro: transpD [OF supplied_trans])
  then have "stocked (Suc n) w" using c by (intro stocked_kept [OF _ st]) simp_all
  note ok2 = mem_alloc_clear_succeeds [OF this ac]
  have "entries_mh m = eh"
    using xy unfolding update_map_def update_struct_def by (auto simp: store_def split: sum.splits dest: load_map_stored)
  then have "r = mh \<and> t = y" 
    using run valid ok2 by (simp add: map_create_def cbind_apply al p uv vw ac xy mem_is_valid_def)
  then show ?thesis using ok(1) ok2 c update_calls(1) [OF xy(1)] by simp
qed

lemma strbuf_create_succeeds:
  assumes tb: "blocks_answered.ops_stable tb" and st: "stocked (Suc (Suc n)) s"
    and run: "strbuf_create tb MEM_ALLOCATOR_PLAIN k s = Inr (r, t)"
  shows "h_data r \<noteq> NULL \<and> calls t = Suc (Suc (calls s))"
proof -
  obtain h u where al: "mem_alloc tb MEM_ALLOCATOR_PLAIN sizeof_strbuf s = Inr (h, u)"
    using run by (auto simp: strbuf_create_def cbind_Inr_iff)
  note ok = mem_alloc_succeeds [OF st al]
  have p: "mem_p tb h = ret (h_data h)" using mem_alloc_plain_handle [OF al ok(1)] by (simp add: mem_p_transparent)
  have valid: "mem_is_valid h" using ok(1) by (simp add: mem_is_valid_def)
  obtain d v where ac: "mem_alloc_clear tb MEM_ALLOCATOR_PLAIN k u = Inr (d, v)"
    using run valid by (auto simp: strbuf_create_def cbind_apply al split: sum.splits)
  have "stocked (Suc n) u"
    using ok(2) by (intro stocked_kept [OF evolvesD [OF blocks_answered.mem_ops(1) [OF tb] al] st]) simp
  note ok2 = mem_alloc_clear_succeeds [OF this ac]
  then have dv: "mem_is_valid d" by (simp add: mem_is_valid_def)
  obtain w where vw: "update_strbuf (h_data h) (\<lambda>b. b\<lparr>sb_data := d\<rparr>) v = Inr ((), w)"
      and wt: "update_strbuf (h_data h) (\<lambda>b. b\<lparr>sb_length := 0\<rparr>) w = Inr ((), t)" and "r = h"
    using run valid dv by (auto simp: strbuf_create_def cbind_apply al ac p split: sum.splits)
  then show ?thesis using ok ok2 update_calls(2) [OF vw] update_calls(2) [OF wt] by simp
qed

end
