(* ===== verification/Ds_Strbuf_Session.thy ===== *)
theory Ds_Strbuf_Session
  imports Ds_Success
begin

text \<open>
  The life of a string buffer: it is created, appended to, read and reset any number of times, and
  destroyed. The abstract value is the text, or nothing once the allocator has refused to let the
  buffer grow.
\<close>

section \<open>C strings\<close>

definition cstr_at :: "ptr \<Rightarrow> byte list \<Rightarrow> cstate \<Rightarrow> bool" where
  "cstr_at p ds s \<longleftrightarrow> chars_at p (ds @ [0]) s \<and> 0 \<notin> set ds \<and> length ds < 2 ^ 64"

lemma scan_nul_text: "0 \<notin> set ds \<Longrightarrow> scan_nul (map Some ds @ Some 0 # xs) = Inr (length ds)"
  by (induction ds) auto

lemma cstr_chars: "cstr_at p ds s \<Longrightarrow> chars_at p ds s"
  using chars_at_sub [of p "ds @ [0]" s 0 "length ds"] by (simp add: cstr_at_def)

lemma strlen_exec: "cstr_at p ds s \<Longrightarrow> strlen p s = Inr (of_nat (length ds), s)"
proof -
  assume c: "cstr_at p ds s"
  then obtain b bs where b: "block_at p s = Inr b" "block_bytes b = Inr bs"
      and all: "take (length (ds @ [0])) (drop (poff p) bs) = map Some (ds @ [0])"
    by (auto simp: cstr_at_def chars_at_def block_at_Inr_iff)
  have "drop (poff p) bs = map Some (ds @ [0]) @ drop (length (ds @ [0])) (drop (poff p) bs)"
    using all by (metis append_take_drop_id)
  then have "scan_nul (drop (poff p) bs) = Inr (length ds)"
    using c scan_nul_text [of ds] by (auto simp: cstr_at_def)
  then show ?thesis using b by (simp add: strlen_def load_def)
qed

section \<open>Calls and their abstract meaning\<close>

datatype buf_call =
  Add_char byte
| Add_cstr ptr
| Add_str mem_handle
| Add_buf mem_handle
| Add_printf ptr "byte list option"
| Clear
| Read

datatype buf_reply = Added bool | Cleared | Contents "byte option list option"

definition read_text :: "table_ops \<Rightarrow> mem_handle \<Rightarrow> buf_reply prog" where
  "read_text tb h =
     (if \<not> str_is_valid h then ret (Contents None)
      else cbind (mem_p tb h) (\<lambda>p.
        cbind (load_bytes p (unat (str_length h))) (\<lambda>cs. ret (Contents (Some cs)))))"

fun perform_buf :: "table_ops \<Rightarrow> mem_handle \<Rightarrow> buf_call \<Rightarrow> buf_reply prog" where
  "perform_buf tb buf (Add_char c) = cbind (strbuf_concatenate_char tb buf c) (\<lambda>ok. ret (Added ok))"
| "perform_buf tb buf (Add_cstr p) = cbind (strbuf_concatenate_cstr tb buf p) (\<lambda>ok. ret (Added ok))"
| "perform_buf tb buf (Add_str h) = cbind (strbuf_concatenate_str tb buf h) (\<lambda>ok. ret (Added ok))"
| "perform_buf tb buf (Add_buf src) = cbind (strbuf_concatenate_strbuf tb buf src) (\<lambda>ok. ret (Added ok))"
| "perform_buf tb buf (Add_printf fmt out) =
     cbind (strbuf_concatenate_printf tb buf fmt out) (\<lambda>ok. ret (Added ok))"
| "perform_buf tb buf Clear = cbind (strbuf_reset tb buf) (\<lambda>_. ret Cleared)"
| "perform_buf tb buf Read = cbind (strbuf_str tb buf) (read_text tb)"

fun perform_bufs :: "table_ops \<Rightarrow> mem_handle \<Rightarrow> buf_call list \<Rightarrow> buf_reply list prog" where
  "perform_bufs tb buf [] = ret []"
| "perform_bufs tb buf (c # cs) =
     cbind (perform_buf tb buf c) (\<lambda>r. cbind (perform_bufs tb buf cs) (\<lambda>rs. ret (r # rs)))"

definition strbuf_session :: "table_ops \<Rightarrow> size_t \<Rightarrow> buf_call list \<Rightarrow> buf_reply list option prog" where
  "strbuf_session tb n cs =
     cbind (strbuf_create tb MEM_ALLOCATOR_PLAIN n) (\<lambda>buf.
     cbind (strbuf_is_valid tb buf) (\<lambda>ok.
     if \<not> ok then ret None
     else cbind (perform_bufs tb buf cs) (\<lambda>rs.
       cbind (strbuf_destroy tb buf) (\<lambda>_. ret (Some rs)))))"

text \<open>
  The abstract machine. An append may fail, and then the buffer is lost: everything after it
  fails, and reading gives an invalid str.
\<close>

datatype text_call = Append "byte list" | Empty | Get

inductive text_step :: "byte list option \<Rightarrow> text_call \<Rightarrow> buf_reply \<Rightarrow> byte list option \<Rightarrow> bool" where
  append: "text_step (Some cs) (Append ds) (Added True) (Some (cs @ ds))"
| refuse: "text_step (Some cs) (Append ds) (Added False) None"
| append_lost: "text_step None (Append ds) (Added False) None"
| empty: "text_step (Some cs) Empty Cleared (Some [])"
| empty_lost: "text_step None Empty Cleared None"
| get: "text_step (Some cs) Get (Contents (Some (map Some cs))) (Some cs)"
| get_lost: "text_step None Get (Contents None) None"

inductive text_run :: "byte list option \<Rightarrow> text_call list \<Rightarrow> buf_reply list \<Rightarrow> byte list option \<Rightarrow> bool" where
  stop: "text_run st [] [] st"
| more: "text_step st c r st' \<Longrightarrow> text_run st' cs rs st'' \<Longrightarrow> text_run st (c # cs) (r # rs) st''"

inductive_cases text_run_ConsE: "text_run st (c # cs) rs st'"
inductive_cases text_run_NilE: "text_run st [] rs st'"
inductive_cases text_step_keptE: "text_step st c r (Some cs)"

text \<open>The replies when no append fails.\<close>

fun replies :: "byte list \<Rightarrow> text_call list \<Rightarrow> buf_reply list" where
  "replies cs [] = []"
| "replies cs (Append ds # ts) = Added True # replies (cs @ ds) ts"
| "replies cs (Empty # ts) = Cleared # replies [] ts"
| "replies cs (Get # ts) = Contents (Some (map Some cs)) # replies cs ts"

lemma text_step_lost: "text_step None c r st \<Longrightarrow> st = None"
  by (auto elim: text_step.cases)

lemma text_run_lost: "text_run None ts rs st \<Longrightarrow> st = None"
  by (induction "None :: byte list option" ts rs st rule: text_run.induct) (auto dest: text_step_lost)

lemma text_run_kept: "text_run (Some cs) ts rs (Some es) \<Longrightarrow> rs = replies cs ts"
proof (induction ts arbitrary: cs rs)
  case (Cons t ts)
  then obtain r rs' st where step: "text_step (Some cs) t r st" and run: "text_run st ts rs' (Some es)"
      and rs: "rs = r # rs'"
    by (auto elim: text_run_ConsE)
  then obtain cs' where st: "st = Some cs'" by (cases st) (auto dest: text_run_lost)
  have "rs' = replies cs' ts" using run unfolding st by (rule Cons.IH)
  then show ?case using step rs st by (auto elim: text_step.cases)
qed (auto elim: text_run_NilE)

text \<open>
  \<open>says s c t\<close>: the call \<open>c\<close> means \<open>t\<close>, the characters it reads being in memory in \<open>s\<close>.
\<close>

fun says :: "cstate \<Rightarrow> buf_call \<Rightarrow> text_call \<Rightarrow> bool" where
  "says s (Add_char c) t \<longleftrightarrow> t = Append [c]"
| "says s (Add_cstr p) t \<longleftrightarrow> (\<exists>ds. t = Append ds \<and> cstr_at p ds s)"
| "says s (Add_str h) t \<longleftrightarrow> (\<exists>ds. t = Append ds \<and> str_rep h ds s)"
| "says s (Add_buf src) t \<longleftrightarrow> (\<exists>ds b bs. t = Append ds \<and> strbuf_at src b bs s \<and>
     unat (sb_length b) = length ds \<and> take (length ds) bs = map Some ds)"
| "says s (Add_printf fmt out) t \<longleftrightarrow> (\<exists>ds. t = Append ds \<and> fmt \<noteq> NULL \<and> out = Some ds \<and> length ds < 2 ^ 31 - 1)"
| "says s Clear t \<longleftrightarrow> t = Empty"
| "says s Read t \<longleftrightarrow> t = Get"

fun added :: "text_call \<Rightarrow> nat" where
  "added (Append ds) = length ds + 1"
| "added Empty = 0"
| "added Get = 0"

section \<open>The invariant of a session\<close>

text \<open>
  \<open>keeps s t\<close>: what was live in \<open>s\<close> is unchanged in \<open>t\<close>. \<open>buf_inv s0 buf cap st s\<close>: since the
  state \<open>s0\<close> before its creation, the buffer has the room \<open>cap\<close> and the abstract value \<open>st\<close>, and
  unless it is lost its two blocks are all that is allocated.
\<close>

definition keeps :: "cstate \<Rightarrow> cstate \<Rightarrow> bool" where
  "keeps s t \<longleftrightarrow> env_same s t \<and> (\<forall>a. heap s a \<noteq> None \<longrightarrow> heap t a = heap s a)"

definition buf_inv :: "cstate \<Rightarrow> mem_handle \<Rightarrow> nat \<Rightarrow> byte list option \<Rightarrow> cstate \<Rightarrow> bool" where
  "buf_inv s0 buf cap st s \<longleftrightarrow> keeps s0 s \<and> heap s0 (pbase (h_data buf)) = None \<and>
     h_alloc buf = MEM_ALLOCATOR_PLAIN \<and> h_data buf \<noteq> NULL \<and>
     (case st of
        None \<Rightarrow> \<exists>b. load_strbuf (h_data buf) s = Inr (b, s) \<and> h_data (sb_data b) = NULL
      | Some cs \<Rightarrow> \<exists>b bs. strbuf_at buf b bs s \<and> bs \<noteq> [] \<and> length bs = cap \<and>
          unat (sb_length b) = length cs \<and> take (length cs) bs = map Some cs \<and>
          heap s0 (data_base b) = None \<and>
          (\<forall>a. heap s0 a = None \<and> a \<notin> {pbase (h_data buf), data_base b} \<longrightarrow> heap s a = None))"

lemma keepsD: "keeps s t \<Longrightarrow> heap s a \<noteq> None \<Longrightarrow> heap t a = heap s a"
  by (simp add: keeps_def)

lemma chars_live: "chars_at p cs s \<Longrightarrow> heap s (pbase p) \<noteq> None"
  by (auto simp: chars_at_def)

lemma chars_kept: "keeps s t \<Longrightarrow> chars_at p cs s \<Longrightarrow> chars_at p cs t"
  using chars_at_frame [of p cs s t] chars_live [of p cs s] keepsD [of s t] by blast

lemma strbuf_live: "strbuf_at buf b bs s \<Longrightarrow> heap s (pbase (h_data buf)) \<noteq> None \<and> heap s (data_base b) \<noteq> None"
  by (auto simp: strbuf_at_def owned_def data_base_def)

lemma says_kept: "keeps s t \<Longrightarrow> says s c x \<Longrightarrow> says t c x"
proof (cases c)
  case (Add_cstr p)
  then show "keeps s t \<Longrightarrow> says s c x \<Longrightarrow> ?thesis" by (auto simp: cstr_at_def intro: chars_kept)
next
  case (Add_str h)
  then show "keeps s t \<Longrightarrow> says s c x \<Longrightarrow> ?thesis" by (auto simp: str_rep_def intro: chars_kept)
next
  case (Add_buf src)
  show "keeps s t \<Longrightarrow> says s c x \<Longrightarrow> ?thesis"
    using strbuf_at_frame [of src _ _ s t] strbuf_live [of src _ _ s]
    by (fastforce simp: Add_buf data_base_def dest: keepsD)
qed simp_all

text \<open>The answers of the allocator that are left are enough for texts of up to \<open>T\<close> characters.\<close>

definition enough :: "nat \<Rightarrow> nat \<Rightarrow> cstate \<Rightarrow> bool" where
  "enough T cap s \<longleftrightarrow> (\<exists>j. T \<le> cap * 2 ^ j \<and> stocked j s)"

definition after_call ::
  "cstate \<Rightarrow> mem_handle \<Rightarrow> nat \<Rightarrow> nat \<Rightarrow> byte list option \<Rightarrow> text_call \<Rightarrow> cstate \<Rightarrow> buf_reply \<Rightarrow> cstate \<Rightarrow> bool" where
  "after_call s0 buf T cap st c s r t \<longleftrightarrow>
     (\<exists>st' cap'. text_step st c r st' \<and> buf_inv s0 buf cap' st' t \<and>
        (st \<noteq> None \<and> enough T cap s \<longrightarrow> st' \<noteq> None \<and> enough T cap' t))"

section \<open>Appending\<close>

lemma keeps_others:
  assumes "keeps s0 s" and "others_same {p, d} s t" and "heap s0 p = None" and "heap s0 d = None"
  shows "keeps s0 t"
  unfolding keeps_def
proof (intro conjI allI impI)
  show "env_same s0 t" using assms(1,2) by (auto simp: keeps_def others_same_def dest: env_same_trans)
  fix a assume a: "heap s0 a \<noteq> None"
  then have "heap s a = heap s0 a" by (rule keepsD [OF assms(1)])
  moreover have "a \<notin> {p, d}" using a assms(3,4) by auto
  ultimately show "heap t a = heap s0 a" using a assms(2) by (simp add: others_same_def)
qed

lemma appended_step:
  assumes tb: "blocks_answered.ops_stable tb" and inv: "buf_inv s0 buf cap (Some cs) s"
    and at: "strbuf_at buf b bs s" "bs \<noteq> []" "length bs = cap" "unat (sb_length b) = length cs" "take (length cs) bs = map Some cs"
    and own: "heap s0 (data_base b) = None" "\<forall>a. heap s0 a = None \<and> a \<notin> {pbase (h_data buf), data_base b} \<longrightarrow> heap s a = None"
    and app: "appended tb buf b bs cs ws m n s r t" and sup: "supplied s t"
    and m: "m \<le> length ws" and n: "unat n = length ws" and T: "length cs + length ws \<le> T" "T < 2 ^ 63"
  shows "after_call s0 buf T cap (Some cs) (Append (take m ws)) s (Added r) t"
proof -
  have o: "others_same {pbase (h_data buf), data_base b} s t" using app by (simp add: appended_def)
  have k: "keeps s0 t" 
    using inv by (intro keeps_others [OF _ o _ own(1)]) (simp_all add: buf_inv_def)
  have fix_buf: "heap s0 (pbase (h_data buf)) = None" "h_alloc buf = MEM_ALLOCATOR_PLAIN" "h_data buf \<noteq> NULL"
    using inv by (simp_all add: buf_inv_def)
  have sum: "unat (sb_length b + n) = length cs + length ws"
  proof -
    have "unat (sb_length b) + unat n < 2 ^ LENGTH(64)" using at(4) n T by simp
    then show ?thesis using at(4) n by (simp add: unat_word_ariths)
  qed
  show ?thesis
  proof (cases r)
    case True
    then obtain b' bs' j where b': "strbuf_at buf b' bs' t" "unat (sb_length b') = length cs + m" "bs' \<noteq> []"
        "take (length cs + length ws) bs' = map Some (cs @ ws)"
        "doubled (length bs) (length cs + length ws) (length bs') j" "calls t = calls s + j"
        "moved (data_base b) (data_base b') s t"
      using app by (auto simp: appended_def)
    have "take (length cs + m) bs' = take (length cs + m) (take (length cs + length ws) bs')" using m by (simp add: min_def)
    then have all: "take (length cs + m) bs' = map Some (cs @ take m ws)" using b'(4) m by (simp add: take_map)
    have "heap s0 (data_base b') = None"
      using b'(7) own(1) inv by (auto simp: moved_def buf_inv_def keeps_def)
    moreover have "\<forall>a. heap s0 a = None \<and> a \<notin> {pbase (h_data buf), data_base b'} \<longrightarrow> heap t a = None"
      using b'(7) own(2) by (auto simp: moved_def)
    ultimately have inv': "buf_inv s0 buf (length bs') (Some (cs @ take m ws)) t"
      using k fix_buf b'(1-3) all m by (auto simp: buf_inv_def intro!: exI [of _ b'] exI [of _ bs'])
    have "enough T (length bs') t" if suff: "enough T cap s"
    proof -
      obtain i where i: "T \<le> cap * 2 ^ i" "stocked i s" using suff by (auto simp: enough_def)
      have "length cs + length ws \<le> length bs * 2 ^ i" using T(1) i(1) at(3) by simp
      from doubled_le [OF b'(5) this] have le: "j \<le> i" .
      have "length bs' * 2 ^ (i - j) = cap * 2 ^ i"
        using b'(5) at(3) le by (simp add: doubled_def mult.assoc flip: power_add)
      moreover have "stocked (i - j) t" using b'(6) le by (intro stocked_kept [OF sup i(2)]) simp
      ultimately show ?thesis using i(1) unfolding enough_def by metis
    qed
    then show ?thesis using True inv' by (auto simp: after_call_def intro: text_step.intros)
  next
    case False
    then have v: "strbuf_is_valid tb buf t = Inr (False, t)" using app by (simp add: appended_def)
    have p: "mem_p tb buf = ret (h_data buf)" using fix_buf(2) by (simp add: mem_p_transparent)
    have "\<exists>b'. load_strbuf (h_data buf) t = Inr (b', t) \<and> h_data (sb_data b') = NULL"
      using v fix_buf(3) by (auto simp: strbuf_is_valid_def mem_is_valid_def cbind_Inr_iff p)
    then have inv': "buf_inv s0 buf cap None t" using k fix_buf by (simp add: buf_inv_def)
    obtain u where g: "grow_loop tb GROW_FUEL buf (h_data buf) n s = Inr (r, u)" using app by (auto simp: appended_def)
    have "\<not> enough T cap s"
    proof
      assume "enough T cap s"
      then obtain i where i: "T \<le> cap * 2 ^ i" "stocked i s" by (auto simp: enough_def)
      have "length cs + length ws \<le> length bs * 2 ^ i" using T(1) i(1) at(3) by simp
      then have r by (intro grow_loop_succeeds [OF tb at(1,2) sum _ _ i(2) g]) (use T in simp_all)
      then show False using False by simp
    qed
    then show ?thesis using False inv' by (auto simp: after_call_def intro: text_step.intros)
  qed
qed

lemma buf_inv_SomeE:
  assumes "buf_inv s0 buf cap (Some cs) s"
  obtains b bs where "strbuf_at buf b bs s" "bs \<noteq> []" "length bs = cap" "unat (sb_length b) = length cs" "take (length cs) bs = map Some cs"
    "heap s0 (data_base b) = None" "\<forall>a. heap s0 a = None \<and> a \<notin> {pbase (h_data buf), data_base b} \<longrightarrow> heap s a = None"
  using assms by (auto simp: buf_inv_def)

lemma buf_inv_p: "buf_inv s0 buf cap st s \<Longrightarrow> mem_p tb buf = ret (h_data buf)"
  by (simp add: buf_inv_def mem_p_transparent)

lemma lost_invalid: "buf_inv s0 buf cap None s \<Longrightarrow> strbuf_is_valid tb buf s = Inr (False, s)"
  using buf_inv_p [of s0 buf cap None s tb] by (auto simp: buf_inv_def strbuf_is_valid_def cbind_apply mem_is_valid_def)

text \<open>The text of an append, in memory before the buffer was made.\<close>

fun source_says :: "cstate \<Rightarrow> csource \<Rightarrow> byte list \<Rightarrow> bool" where
  "source_says s (From_ptr p) ds \<longleftrightarrow> chars_at p ds s"
| "source_says s (Local_char c) ds \<longleftrightarrow> ds = [c]"

lemma source_kept:
  assumes "source_says s0 src ds" and "keeps s0 t" and "heap s0 e = None"
  shows "source_at src ds {e} t"
proof (cases src)
  case (From_ptr p)
  then have p: "chars_at p ds s0" using assms(1) by simp
  then have "pbase p \<noteq> e" using chars_live [OF p] assms(3) by auto
  then show ?thesis using chars_kept [OF assms(2) p] From_ptr by simp
qed (use assms in simp)

lemma concatenate_step:
  assumes tb: "blocks_answered.ops_stable tb" and inv: "buf_inv s0 buf cap st s" and src: "source_says s0 src ds"
    and n: "unat n = length ds" and T: "\<And>cs. st = Some cs \<Longrightarrow> length cs + length ds \<le> T" "T < 2 ^ 63"
  shows "runs (do_strbuf_concatenate tb buf src n) s (\<lambda>r. after_call s0 buf T cap st (Append ds) s (Added r))"
proof (cases st)
  case None
  then have "do_strbuf_concatenate tb buf src n s = Inr (False, s)"
    using lost_invalid inv by (simp add: do_strbuf_concatenate_def cbind_apply)
  then show ?thesis using None inv by (auto simp: runs_def after_call_def intro: text_step.intros)
next
  case (Some cs)
  obtain b bs where B: "strbuf_at buf b bs s" "bs \<noteq> []" "length bs = cap" "unat (sb_length b) = length cs" "take (length cs) bs = map Some cs"
      and own: "heap s0 (data_base b) = None" "\<forall>a. heap s0 a = None \<and> a \<notin> {pbase (h_data buf), data_base b} \<longrightarrow> heap s a = None"
    using inv unfolding Some by (rule buf_inv_SomeE)
  have small: "length cs + length ds < 2 ^ 63" using T Some by fastforce
  have k0: "keeps s0 s" and hb: "heap s0 (pbase (h_data buf)) = None" using inv by (simp_all add: buf_inv_def)
  have "source_at src ds {e} t"
    if o: "others_same {pbase (h_data buf), data_base b} s t" and e: "e = data_base b \<or> heap s e = None" for t e
  proof -
    have "heap s0 e = None" using e own(1) k0 by (auto simp: keeps_def)
    then show ?thesis by (intro source_kept [OF src keeps_others [OF k0 o hb own(1)]])
  qed
  from concatenate_runs [OF B(1,2,4,5) n small this, of tb]
  obtain r t where run: "do_strbuf_concatenate tb buf src n s = Inr (r, t)" and app: "appended tb buf b bs cs ds (length ds) n s r t"
    by (auto elim!: runsE)
  have "supplied s t" using blocks_answered.concatenate_law [OF tb] run by (rule evolvesD)
  from appended_step [OF tb inv [unfolded Some] B own app this _ n _ T(2)] T(1) Some
  show ?thesis by (simp add: runs_def run)
qed

lemma printf_step:
  assumes tb: "blocks_answered.ops_stable tb" and inv: "buf_inv s0 buf cap st s" and fmt: "fmt \<noteq> NULL"
    and fits: "length ds < 2 ^ 31 - 1"
    and T: "\<And>cs. st = Some cs \<Longrightarrow> length cs + length ds + 1 \<le> T" "T < 2 ^ 63"
  shows "runs (strbuf_concatenate_printf tb buf fmt (Some ds)) s (\<lambda>r. after_call s0 buf T cap st (Append ds) s (Added r))"
proof (cases st)
  case None
  then have "strbuf_concatenate_printf tb buf fmt (Some ds) s = Inr (False, s)"
    using lost_invalid inv by (simp add: strbuf_concatenate_printf_def cbind_apply)
  then show ?thesis using None inv by (auto simp: runs_def after_call_def intro: text_step.intros)
next
  case (Some cs)
  obtain b bs where B: "strbuf_at buf b bs s" "bs \<noteq> []" "length bs = cap" "unat (sb_length b) = length cs" "take (length cs) bs = map Some cs"
      and own: "heap s0 (data_base b) = None" "\<forall>a. heap s0 a = None \<and> a \<notin> {pbase (h_data buf), data_base b} \<longrightarrow> heap s a = None"
    using inv unfolding Some by (rule buf_inv_SomeE)
  have small: "length cs + length ds + 1 < 2 ^ 63" using T Some by fastforce
  let ?n = "of_nat (length ds + 1) :: size_t"
  have n: "unat ?n = length (ds @ [0])" using small unat_of_nat_size [of "length ds + 1"] by simp
  obtain r t where run: "strbuf_concatenate_printf tb buf fmt (Some ds) s = Inr (r, t)"
      and app: "appended tb buf b bs cs (ds @ [0]) (length ds) ?n s r t"
    using printf_runs [OF B(1,2,4,5) small fmt fits] by (rule runsE)
  have "supplied s t" using blocks_answered.printf_law [OF tb] run by (rule evolvesD)
  from appended_step [OF tb inv [unfolded Some] B own app this _ n _ T(2)] T(1) Some
  show ?thesis by (simp add: runs_def run)
qed

section \<open>Every call\<close>

lemma clear_step:
  assumes inv: "buf_inv s0 buf cap st s"
  shows "runs (strbuf_reset tb buf) s (\<lambda>_. after_call s0 buf T cap st Empty s Cleared)"
proof -
  have fix_buf: "keeps s0 s" "heap s0 (pbase (h_data buf)) = None" "h_alloc buf = MEM_ALLOCATOR_PLAIN" "h_data buf \<noteq> NULL"
    using inv by (simp_all add: buf_inv_def)
  have keep: "keeps s0 (set_content (h_data buf) c s)" for c
    using fix_buf(1,2) by (auto simp: keeps_def heap_set_content)
  show ?thesis
  proof (cases st)
    case None
    then obtain b where b: "load_strbuf (h_data buf) s = Inr (b, s)" "h_data (sb_data b) = NULL"
      using inv by (auto simp: buf_inv_def)
    let ?b = "b\<lparr>sb_length := 0\<rparr>"
    have "strbuf_reset tb buf s = Inr ((), set_content (h_data buf) (Strbuf_obj ?b) s)"
      using fix_buf(4) buf_inv_p [OF inv, of tb]
      by (simp add: strbuf_reset_def mem_is_valid_def update_strbuf_exec [OF b(1)])
    moreover have "buf_inv s0 buf cap None (set_content (h_data buf) (Strbuf_obj ?b) s)"
      using fix_buf keep load_strbuf_set [OF b(1), of ?b] b(2) by (simp add: buf_inv_def)
    ultimately show ?thesis using None by (auto simp: runs_def after_call_def intro: text_step.intros)
  next
    case (Some cs)
    obtain b bs where B: "strbuf_at buf b bs s" "bs \<noteq> []" "length bs = cap"
        and own: "heap s0 (data_base b) = None" "\<forall>a. heap s0 a = None \<and> a \<notin> {pbase (h_data buf), data_base b} \<longrightarrow> heap s a = None"
      using inv unfolding Some by (rule buf_inv_SomeE)
    let ?b = "b\<lparr>sb_length := 0\<rparr>"
    let ?t = "set_content (h_data buf) (Strbuf_obj ?b) s"
    note reset = strbuf_reset_exec(1) [OF B(1), of tb] strbuf_reset_exec(2) [OF B(1)]
    have db: "data_base ?b = data_base b" by (simp add: data_base_def)
    have "buf_inv s0 buf cap (Some []) ?t"
      using fix_buf keep reset(2) B(2,3) own db by (auto simp: buf_inv_def intro!: exI [of _ ?b] exI [of _ bs])
    moreover have "enough T cap ?t" if "enough T cap s"
      using that stocked_kept [OF supplied_set_content] by (fastforce simp: enough_def)
    ultimately show ?thesis using Some reset(1) by (auto simp: runs_def after_call_def intro: text_step.intros)
  qed
qed

lemma read_step:
  assumes inv: "buf_inv s0 buf cap st s"
  shows "runs (cbind (strbuf_str tb buf) (read_text tb)) s (after_call s0 buf T cap st Get s)"
proof (cases st)
  case None
  then obtain b where "load_strbuf (h_data buf) s = Inr (b, s)" "h_data (sb_data b) = NULL" "h_data buf \<noteq> NULL"
    using inv by (auto simp: buf_inv_def)
  then have "cbind (strbuf_str tb buf) (read_text tb) s = Inr (Contents None, s)"
    using buf_inv_p [OF inv, of tb]
    by (simp add: strbuf_str_def read_text_def cbind_apply mem_is_valid_def str_is_valid_def)
  then show ?thesis using None inv by (auto simp: runs_def after_call_def intro: text_step.intros)
next
  case (Some cs)
  obtain b bs where B: "strbuf_at buf b bs s" "unat (sb_length b) = length cs" "take (length cs) bs = map Some cs"
    using inv unfolding Some by (rule buf_inv_SomeE)
  note S = strbuf_str_exec [OF B]
  have "cbind (strbuf_str tb buf) (read_text tb) s = Inr (Contents (Some (map Some cs)), s)"
    using S(2) str_repD [OF S(2)] load_bytes_chars [OF str_repD(2) [OF S(2)]]
    by (simp add: cbind_apply S(1) read_text_def str_is_valid_def str_rep_p [OF S(2)] str_length_def)
  then show ?thesis using Some inv by (auto simp: runs_def after_call_def intro: text_step.intros)
qed

lemma perform_buf_step:
  assumes tb: "blocks_answered.ops_stable tb" and inv: "buf_inv s0 buf cap st s" and says: "says s0 c x"
    and T: "\<And>cs. st = Some cs \<Longrightarrow> length cs + added x \<le> T" "T < 2 ^ 63"
  shows "runs (perform_buf tb buf c) s (after_call s0 buf T cap st x s)"
proof -
  have k: "keeps s0 s" using inv by (simp add: buf_inv_def)
  note cat = concatenate_step [OF tb inv _ _ _ T(2)]
  show ?thesis
  proof (cases c)
    case (Add_char c')
    then have "runs (do_strbuf_concatenate tb buf (Local_char c') 1) s (\<lambda>r. after_call s0 buf T cap st x s (Added r))"
      using says T(1) by (auto intro!: cat)
    then show ?thesis by (simp add: Add_char strbuf_concatenate_char_def runs_cbind runs_ret)
  next
    case (Add_cstr p)
    then obtain ds where x: "x = Append ds" and p: "cstr_at p ds s0" using says by auto
    then have p': "cstr_at p ds s" using chars_kept [OF k] by (auto simp: cstr_at_def)
    have "unat (of_nat (length ds) :: size_t) = length ds" using p by (simp add: cstr_at_def unat_of_nat)
    then have "runs (do_strbuf_concatenate tb buf (From_ptr p) (of_nat (length ds))) s (\<lambda>r. after_call s0 buf T cap st x s (Added r))"
      unfolding x using cstr_chars [OF p] T(1) x by (intro cat) auto
    moreover have "p \<noteq> NULL" using p by (auto simp: cstr_at_def chars_at_def)
    ultimately show ?thesis
      by (simp add: Add_cstr strbuf_concatenate_cstr_def runs_cbind runs_ret)
        (simp add: runs_def strlen_exec [OF p'])
  next
    case (Add_str h)
    then obtain ds where x: "x = Append ds" and h: "str_rep h ds s0" using says by auto
    note H = str_repD [OF h]
    have "runs (do_strbuf_concatenate tb buf (From_ptr (h_data h)) (h_size h)) s (\<lambda>r. after_call s0 buf T cap st x s (Added r))"
      unfolding x using H T(1) x by (intro cat) auto
    then show ?thesis
      using h H(1) by (simp add: Add_str strbuf_concatenate_str_def str_is_valid_def transparent_p runs_cbind runs_ret)
  next
    case (Add_buf src)
    then obtain ds b bs where x: "x = Append ds" and at: "strbuf_at src b bs s0"
        and len: "unat (sb_length b) = length ds" "take (length ds) bs = map Some ds"
      using says by auto
    have at': "strbuf_at src b bs s"
      using strbuf_at_frame [OF at] strbuf_live [OF at] keepsD [OF k] by (simp add: data_base_def)
    note D = strbuf_atD [OF at] and D' = strbuf_atD [OF at']
    have "chars_at (h_data (sb_data b)) ds s0" using D(6,10) len by (intro chars_at_space [OF D(9)]) simp_all
    then have "runs (do_strbuf_concatenate tb buf (From_ptr (h_data (sb_data b))) (sb_length b)) s
        (\<lambda>r. after_call s0 buf T cap st x s (Added r))"
      unfolding x using len(1) T(1) x by (intro cat) auto
    then show ?thesis
      by (simp add: Add_buf strbuf_concatenate_strbuf_def runs_cbind runs_ret)
        (simp add: runs_def strbuf_is_valid_exec [OF at'] strbuf_at_p [OF at'] D'(3) cbind_apply)
  next
    case (Add_printf fmt out)
    then show ?thesis
      using says printf_step [OF tb inv _ _ _ T(2), of fmt] T(1) by (auto simp: runs_cbind runs_ret)
  next
    case Clear
    then show ?thesis using says clear_step [OF inv] by (simp add: runs_cbind runs_ret)
  next
    case Read
    then show ?thesis using says read_step [OF inv] by simp
  qed
qed

section \<open>Sessions\<close>

lemma text_step_length: "text_step (Some cs) x r (Some es) \<Longrightarrow> length es \<le> length cs + added x"
  by (auto elim: text_step_keptE)

lemma perform_bufs_runs:
  assumes tb: "blocks_answered.ops_stable tb" and small: "T < 2 ^ 63"
  shows "list_all2 (says s0) cs ts \<Longrightarrow> buf_inv s0 buf cap st s \<Longrightarrow>
    (\<And>es. st = Some es \<Longrightarrow> length es + sum_list (map added ts) \<le> T) \<Longrightarrow>
    runs (perform_bufs tb buf cs) s (\<lambda>rs t. \<exists>st' cap'. text_run st ts rs st' \<and> buf_inv s0 buf cap' st' t \<and>
      (st \<noteq> None \<and> enough T cap s \<longrightarrow> st' \<noteq> None))"
proof (induction cs arbitrary: ts cap st s)
  case Nil
  then show ?case by (auto simp: runs_def intro: text_run.stop)
next
  case (Cons c cs)
  obtain x xs where ts: "ts = x # xs" and says: "says s0 c x" "list_all2 (says s0) cs xs"
    using Cons.prems(1) by (auto simp: list_all2_Cons1)
  have "\<And>es. st = Some es \<Longrightarrow> length es + added x \<le> T" using Cons.prems(3) ts by fastforce
  from perform_buf_step [OF tb Cons.prems(2) says(1) this small]
  obtain r t where run: "perform_buf tb buf c s = Inr (r, t)" and "after_call s0 buf T cap st x s r t"
    by (auto elim!: runsE)
  then obtain st' cap' where step: "text_step st x r st'" and inv: "buf_inv s0 buf cap' st' t"
      and ok: "st \<noteq> None \<and> enough T cap s \<longrightarrow> st' \<noteq> None \<and> enough T cap' t"
    by (auto simp: after_call_def)
  have "length es + sum_list (map added xs) \<le> T" if es: "st' = Some es" for es
  proof -
    obtain ds where ds: "st = Some ds" using step es by (cases st) (auto dest: text_step_lost)
    show ?thesis using text_step_length [of ds x r es] step Cons.prems(3) [OF ds] es ds ts by simp
  qed
  from Cons.IH [OF says(2) inv this] show ?case
    unfolding ts runs_def using step ok run
    by (auto simp: cbind_apply split: sum.splits intro: text_run.more)
qed

lemma strbuf_destroy_runs:
  assumes at: "strbuf_at buf b bs s"
  shows "runs (strbuf_destroy tb buf) s (\<lambda>_ t. env_same s t \<and>
    heap t = (heap s)(data_base b := None, pbase (h_data buf) := None))"
proof -
  note D = strbuf_atD [OF at]
  obtain k where k: "owned s (sb_data b) k" using at by (rule strbuf_at_owned)
  obtain kb where kb: "owned s buf kb" using at by (auto simp: strbuf_at_def)
  obtain r t where f1: "mem_free tb (sb_data b) s = Inr (r, t)" and e1: "env_same s t"
      and h1: "heap t = (heap s)(data_base b := None)"
    using plain.free_law [OF D(2) k, of tb] by (auto simp: data_base_def elim!: runsE)
  have "owned t buf kb" using kb D(4) h1 by (simp add: owned_def data_base_def)
  from plain.free_law [OF D(1) this, of tb] show ?thesis
    using e1 h1
    by (auto simp: strbuf_destroy_def runs_def cbind_apply strbuf_is_valid_exec [OF at] strbuf_at_p [OF at] D(3) f1
        split: sum.splits dest: env_same_trans)
qed

lemma strbuf_session_runs:
  assumes tb: "blocks_answered.ops_stable tb" and says: "list_all2 (says s) cs ts" and n: "0 < n"
    and small: "sum_list (map added ts) < 2 ^ 63"
  shows "runs (strbuf_session tb n cs) s (\<lambda>rs t. keeps s t \<and> (stocked 65 s \<longrightarrow> rs = Some (replies [] ts)) \<and>
    (case rs of
       None \<Rightarrow> heap t = heap s
     | Some rs \<Rightarrow> \<exists>st. text_run (Some []) ts rs st \<and> (st \<noteq> None \<longrightarrow> heap t = heap s)))"
proof -
  obtain buf u where mk: "strbuf_create tb MEM_ALLOCATOR_PLAIN n s = Inr (buf, u)" and e: "env_same s u"
      and made: "if h_data buf = NULL then buf = null_handle \<and> heap u = heap s
        else \<exists>b. strbuf_at buf b (replicate (unat n) (Some 0)) u \<and> sb_length b = 0 \<and>
          heap s (pbase (h_data buf)) = None \<and> heap s (data_base b) = None \<and>
          (\<forall>a. a \<notin> {pbase (h_data buf), data_base b} \<longrightarrow> heap u a = heap s a)"
    using strbuf_create_runs [of tb n s] by (auto simp: runs_def split: sum.splits)
  have st65: "stocked (Suc (Suc 63)) s" if "stocked 65 s" using that by simp
  show ?thesis
  proof (cases "h_data buf = NULL")
    case True
    then have "\<not> stocked 65 s" using strbuf_create_succeeds [OF tb st65 mk] by blast
    then show ?thesis
      using True made e by (simp add: strbuf_session_def cbind_apply mk strbuf_is_valid_def mem_is_valid_def runs_def keeps_def)
  next
    case False
    then obtain b where b: "strbuf_at buf b (replicate (unat n) (Some 0)) u" "sb_length b = 0"
        and fresh: "heap s (pbase (h_data buf)) = None" "heap s (data_base b) = None"
        and rest: "\<forall>a. a \<notin> {pbase (h_data buf), data_base b} \<longrightarrow> heap u a = heap s a"
      using made by auto
    have pos: "0 < unat n" using n by (simp add: unat_gt_0 word_gt_0)
    have ks: "keeps s u" using e rest fresh unfolding keeps_def by (metis empty_iff insert_iff)
    have "buf_inv s buf (unat n) (Some []) u"
      using ks b pos fresh rest strbuf_atD(1,7) [OF b(1)]
      by (auto simp: buf_inv_def intro!: exI [of _ b] exI [of _ "replicate (unat n) (Some 0)"])
    from perform_bufs_runs [OF tb small says this]
    obtain rs v st cap where run: "perform_bufs tb buf cs u = Inr (rs, v)" and tr: "text_run (Some []) ts rs st"
        and inv: "buf_inv s buf cap st v" and ok: "enough (sum_list (map added ts)) (unat n) u \<longrightarrow> st \<noteq> None"
      by (auto elim!: runsE)
    have stock: "enough (sum_list (map added ts)) (unat n) u" if "stocked 65 s"
    proof -
      have "calls u = Suc (Suc (calls s))" using strbuf_create_succeeds [OF tb st65 [OF that] mk] by blast
      then have "stocked 63 u"
        by (intro stocked_kept [OF evolvesD [OF blocks_answered.strbuf_basic(2) [OF tb] mk] that]) simp
      moreover have "(1::nat) * 2 ^ 63 \<le> unat n * 2 ^ 63" using pos by (intro mult_le_mono1) simp
      then have "sum_list (map added ts) \<le> unat n * 2 ^ 63" using small by simp
      ultimately show ?thesis unfolding enough_def by blast
    qed
    have start: "strbuf_session tb n cs s = cbind (strbuf_destroy tb buf) (\<lambda>_. ret (Some rs)) v"
      by (simp add: strbuf_session_def cbind_apply mk strbuf_is_valid_exec [OF b(1)] run)
    show ?thesis
    proof (cases st)
      case None
      then have "strbuf_session tb n cs s = Inr (Some rs, v)"
        using lost_invalid inv by (simp add: start strbuf_destroy_def cbind_apply)
      then show ?thesis using None tr ok stock inv by (auto simp: runs_def buf_inv_def)
    next
      case (Some es)
      obtain b' bs where b': "strbuf_at buf b' bs v" "heap s (data_base b') = None"
          "\<forall>a. heap s a = None \<and> a \<notin> {pbase (h_data buf), data_base b'} \<longrightarrow> heap v a = None"
        using inv unfolding Some by (rule buf_inv_SomeE)
      have kv: "keeps s v" using inv by (simp add: buf_inv_def)
      obtain x w where d: "strbuf_destroy tb buf v = Inr (x, w)" and ew: "env_same v w"
          and hw: "heap w = (heap v)(data_base b' := None, pbase (h_data buf) := None)"
        using strbuf_destroy_runs [OF b'(1), of tb] by (auto elim!: runsE)
      have "heap w = heap s"
      proof
        fix a show "heap w a = heap s a"
          using hw fresh(1) b'(2,3) keepsD [OF kv, of a] by (cases "heap s a = None") auto
      qed
      moreover have "env_same s w" using ew kv by (auto simp: keeps_def dest: env_same_trans)
      moreover have "rs = replies [] ts" using tr unfolding Some by (rule text_run_kept)
      ultimately show ?thesis
        using tr Some by (auto simp: start cbind_apply d runs_def keeps_def)
    qed
  qed
qed

end
