(* ===== verification/Ds_Strbuf_Props.thy ===== *)
theory Ds_Strbuf_Props
  imports Ds_Strbuf_Session
begin

text \<open>
  The properties of string buffers, with a buffer of two bytes at 0x4000 as the example.
\<close>

text \<open>
  Appending a str to a buffer: when strbuf_concatenate_str reports success the buffer holds its
  old text followed by the new one, however often it had to grow; when it reports failure the
  buffer is no longer valid. No other live block changes either way.
\<close>

theorem strbuf_concatenate_str_appends:
  assumes "strbuf_at buf b bs s" and "bs \<noteq> []" and "unat (sb_length b) = length cs" and "take (length cs) bs = map Some cs"
    and "str_rep h ds s" and "length cs + length ds < 2 ^ 63"
    and "pbase (h_data h) \<notin> {pbase (h_data buf), data_base b}"
  shows "runs (strbuf_concatenate_str tb buf h) s (\<lambda>r t. others_same {pbase (h_data buf), data_base b} s t \<and>
    (if r then strbuf_rep buf (cs @ ds) t else strbuf_is_valid tb buf t = Inr (False, t)))"
proof -
  note H = str_repD [OF assms(5)]
  have live: "heap s (pbase (h_data h)) \<noteq> None" using H(2) by (auto simp: chars_at_def)
  have "source_at (From_ptr (h_data h)) ds {e} t"
    if "others_same {pbase (h_data buf), data_base b} s t" "e = data_base b \<or> heap s e = None" for t e
    using that assms(7) live by (auto simp: others_same_def intro: chars_at_frame [OF H(2)])
  from concatenate_runs [OF assms(1-4) H(3) assms(6) this, of tb]
  show ?thesis
    using assms(5) H(1)
    by (simp add: strbuf_concatenate_str_def str_is_valid_def runs_cbind transparent_p runs_ret)
      (rule runs_conseq, assumption, auto simp: appended_def strbuf_rep_def split: if_splits)
qed

definition sample_buf :: mem_handle where
  "sample_buf = \<lparr>h_data = Ptr 0x4000 0, h_size = sizeof_strbuf, h_alloc = MEM_ALLOCATOR_PLAIN\<rparr>"

definition sample_strbuf :: strbuf where
  "sample_strbuf = \<lparr>sb_data = \<lparr>h_data = Ptr 0x5000 0, h_size = 2, h_alloc = MEM_ALLOCATOR_PLAIN\<rparr>, sb_length = 1\<rparr>"

definition sample_buffer :: "64 word \<Rightarrow> cstate" where
  "sample_buffer a = (sample_state [] 0 (\<lambda>_. a))\<lparr>heap := [
     0x4000 \<mapsto> \<lparr>b_size = sizeof_strbuf, b_heap = True, b_content = Strbuf_obj sample_strbuf\<rparr>,
     0x5000 \<mapsto> \<lparr>b_size = 2, b_heap = True, b_content = Bytes [Some 72, Some 0]\<rparr>,
     0x7000 \<mapsto> text_block [101, 108]]\<rparr>"

lemma sample_buffer_at: "strbuf_at sample_buf sample_strbuf [Some 72, Some 0] (sample_buffer a)"
  by (simp add: strbuf_at_def sample_buf_def sample_strbuf_def sample_buffer_def load_strbuf_def load_struct_def
      load_Inr_iff block_at_Inr_iff struct_of_def owned_def block_bytes_def)

lemma sample_buffer_text: "str_rep (mem_handle_from_ptr (Ptr 0x7000 0) 2) [101, 108] (sample_buffer a)"
  by (simp add: str_rep_def transparent_def mem_handle_from_ptr_def chars_at_def sample_buffer_def
      text_block_def block_bytes_def)

theorem strbuf_concatenate_str_appends_witness:
  "runs (strbuf_concatenate_str (memtbl_ops 0) sample_buf (mem_handle_from_ptr (Ptr 0x7000 0) 2))
     (sample_buffer 0x9000) (\<lambda>r t. r \<longrightarrow> strbuf_rep sample_buf [72, 101, 108] t)"
  by (rule runs_conseq [OF strbuf_concatenate_str_appends [OF sample_buffer_at _ _ _ sample_buffer_text, of "[72]"]])
    (auto simp: mem_handle_from_ptr_def sample_buf_def sample_strbuf_def data_base_def)

section \<open>Sessions\<close>

text \<open>
  C28. A buffer that is created with room for at least one character, used for any sequence of
  appends of characters, C strings, strs, other buffers (all in memory before the buffer was created)
  and printf output of fewer than 2^31 - 1 characters, reads and resets, and destroyed, behaves as a
  list of characters: every reply is the one of the abstract machine, in which an append either works
  or loses the buffer. Nothing that was live before changes, and if the buffer was not lost all its
  memory is given back. With 65 answers of the allocator left no append fails, however long the texts
  are (fewer than 2^63 characters in all, with one more for each append).
\<close>

theorem strbuf_session_refines:
  assumes "list_all2 (says s) cs ts" and "0 < n" and "sum_list (map added ts) < 2 ^ 63"
  shows "runs (strbuf_session (memtbl_ops d) n cs) s (\<lambda>rs t. keeps s t \<and>
    (stocked 65 s \<longrightarrow> rs = Some (replies [] ts)) \<and>
    (case rs of
       None \<Rightarrow> heap t = heap s
     | Some rs \<Rightarrow> \<exists>st. text_run (Some []) ts rs st \<and> (st \<noteq> None \<longrightarrow> heap t = heap s)))"
  using assms by (intro strbuf_session_runs) simp_all

definition session_state :: cstate where
  "session_state = (sample_texts [104, 105])\<lparr>answers := \<lambda>i. of_nat (4096 * (i + 16))\<rparr>"

lemma session_state_stocked: "stocked 65 session_state"
  by (rule stocked_pages [where k = 16])
    (auto simp: session_state_def sample_texts_def sample_state_def sample_heap_def split: if_splits)

theorem strbuf_session_refines_witness:
  "runs (strbuf_session (memtbl_ops 0) 1
      [Add_str (mem_handle_from_ptr (Ptr 0x7000 0) 2), Add_char 33, Read, Clear, Add_printf (Ptr 0x7000 0) (Some [55]), Read])
    session_state (\<lambda>rs t. heap t = heap session_state \<and> rs = Some
      [Added True, Added True, Contents (Some [Some 104, Some 105, Some 33]), Cleared, Added True, Contents (Some [Some 55])])"
proof -
  let ?ts = "[Append [104, 105], Append [33], Get, Empty, Append [55], Get]"
  have "str_rep (mem_handle_from_ptr (Ptr 0x7000 0) 2) [104, 105] session_state"
    using str_rep_frame [OF sample_texts_str [of "[104, 105]" "0x7000"], of session_state]
    by (simp add: session_state_def)
  then have says: "list_all2 (says session_state)
      [Add_str (mem_handle_from_ptr (Ptr 0x7000 0) 2), Add_char 33, Read, Clear, Add_printf (Ptr 0x7000 0) (Some [55]), Read] ?ts"
    by simp
  have kept: "st \<noteq> None" if "text_run (Some []) ?ts (replies [] ?ts) st" for st
    using that by (auto elim!: text_run_ConsE text_run_NilE elim: text_step.cases)
  show ?thesis
    by (rule runs_conseq [OF strbuf_session_refines [OF says]])
      (use session_state_stocked kept in auto)
qed

section \<open>Duplicates\<close>

lemma strbuf_validD: "strbuf_is_valid tb h s = Inr (True, t) \<Longrightarrow> h_data h \<noteq> NULL"
  by (auto simp: strbuf_is_valid_def mem_is_valid_def split: if_splits)

lemma grow_loop_no_need:
  "load_strbuf p s = Inr (b, s) \<Longrightarrow> \<not> h_size (sb_data b) < sb_length b + n \<Longrightarrow>
   grow_loop tb (Suc f) buf p n s = Inr (True, s)"
  by (simp add: cbind_apply)

text \<open>
  C29. strbuf_duplicate makes a new buffer with the same text and leaves the old one alone, or
  fails without a trace when one of its two allocations is refused. The new buffer is as large as
  the old one, so the append in it never has to grow: its error path is never taken.
\<close>

theorem strbuf_duplicate_copies:
  assumes "strbuf_at buf b bs s" and "bs \<noteq> []" and "unat (sb_length b) = length cs" and "take (length cs) bs = map Some cs"
    and "length bs < 2 ^ 63"
  shows "runs (strbuf_duplicate (memtbl_ops d) buf) s (\<lambda>r t. keeps s t \<and>
    (stocked 2 s \<longrightarrow> h_data r \<noteq> NULL) \<and>
    (if h_data r = NULL then heap t = heap s
     else heap s (pbase (h_data r)) = None \<and> strbuf_rep r cs t \<and> strbuf_at buf b bs t))"
proof -
  let ?tb = "memtbl_ops d"
  note D = strbuf_atD [OF assms(1)]
  obtain r u where mk: "strbuf_create ?tb MEM_ALLOCATOR_PLAIN (h_size (sb_data b)) s = Inr (r, u)" and e: "env_same s u"
      and made: "if h_data r = NULL then r = null_handle \<and> heap u = heap s
        else \<exists>b'. strbuf_at r b' (replicate (unat (h_size (sb_data b))) (Some 0)) u \<and> sb_length b' = 0 \<and>
          heap s (pbase (h_data r)) = None \<and> heap s (data_base b') = None \<and>
          (\<forall>a. a \<notin> {pbase (h_data r), data_base b'} \<longrightarrow> heap u a = heap s a)"
    using strbuf_create_runs [of ?tb "h_size (sb_data b)" s] by (auto simp: runs_def split: sum.splits)
  have start: "strbuf_duplicate ?tb buf s = cbind (strbuf_is_valid ?tb r) (\<lambda>ok.
      if \<not> ok then ret null_handle
      else cbind (strbuf_concatenate_strbuf ?tb r buf) (\<lambda>ok.
        if \<not> ok then cbind (str_destroy ?tb r) (\<lambda>_. ret null_handle) else ret r)) u"
    by (simp add: strbuf_duplicate_def cbind_apply [of "strbuf_is_valid _ buf"] cbind_apply [of "load_strbuf _"]
        cbind_apply [of "strbuf_create _ _ _"] strbuf_is_valid_exec [OF assms(1)] strbuf_at_p [OF assms(1)] D(1,3) mk)
  have given: "stocked 2 s \<Longrightarrow> h_data r \<noteq> NULL"
    using strbuf_create_succeeds [of ?tb 0 s "h_size (sb_data b)" r u] mk by (simp add: numeral_2_eq_2)
  show ?thesis
  proof (cases "h_data r = NULL")
    case True
    then show ?thesis
      using made e given by (auto simp: start cbind_apply strbuf_is_valid_def mem_is_valid_def runs_def keeps_def)
  next
    case False
    then obtain b' where b': "strbuf_at r b' (replicate (length bs) (Some 0)) u" "sb_length b' = 0"
        and fresh: "heap s (pbase (h_data r)) = None" "heap s (data_base b') = None"
        and rest: "\<forall>a. a \<notin> {pbase (h_data r), data_base b'} \<longrightarrow> heap u a = heap s a"
      using made D(5) by auto
    have ku: "keeps s u" using e rest fresh unfolding keeps_def by (metis empty_iff insert_iff)
    have at': "strbuf_at buf b bs u"
      using strbuf_at_frame [OF assms(1)] strbuf_live [OF assms(1)] keepsD [OF ku] by (simp add: data_base_def)
    have apart: "data_base b \<noteq> pbase (h_data r)" "data_base b \<noteq> data_base b'"
      using strbuf_live [OF assms(1)] fresh by auto
    have src: "chars_at (h_data (sb_data b)) cs u"
      using strbuf_atD(6,9,10) [OF at'] assms(3,4) by (intro chars_at_space) simp_all
    have "source_at (From_ptr (h_data (sb_data b))) cs {x} t"
      if "others_same {pbase (h_data r), data_base b'} u t" "x = data_base b' \<or> heap u x = None" for t x
    proof -
      have live: "heap u (data_base b) \<noteq> None" using strbuf_live [OF at'] by simp
      then have "heap t (data_base b) = heap u (data_base b)" using that(1) apart by (simp add: others_same_def)
      then show ?thesis using that(2) live apart chars_at_frame [OF src] by (auto simp: data_base_def)
    qed
    moreover have "unat (sb_length b') = length ([] :: byte list)" "replicate (length bs) (Some 0) \<noteq> []"
        "take (length ([] :: byte list)) (replicate (length bs) (Some (0 :: byte))) = map Some []"
        "length ([] :: byte list) + length cs < 2 ^ 63"
      using b'(2) assms(2,3,5) D(6) by simp_all
    ultimately obtain ok t where run: "do_strbuf_concatenate ?tb r (From_ptr (h_data (sb_data b))) (sb_length b) u = Inr (ok, t)"
        and app: "appended ?tb r b' (replicate (length bs) (Some 0)) [] cs (length cs) (sb_length b) u ok t"
      using concatenate_runs [OF b'(1) _ _ _ assms(3), of "[]" "From_ptr (h_data (sb_data b))" ?tb] by (auto elim!: runsE)
    have "h_size (sb_data b') = h_size (sb_data b)"
      using strbuf_atD(5) [OF b'(1)] D(5) by (simp add: word_unat_eq_iff)
    then have "\<not> h_size (sb_data b') < sb_length b' + sb_length b"
      using b'(2) D(5,6) by (simp add: word_less_nat_alt)
    then have ok: ok
      using app grow_loop_no_need [OF strbuf_atD(3) [OF b'(1)]] by (auto simp: appended_def GROW_FUEL_def numeral_eq_Suc simp del: grow_loop.simps)
    then have rep: "strbuf_rep r cs t" using app by (auto simp: appended_def strbuf_rep_def)
    have kt: "keeps s t"
      using app by (intro keeps_others [OF ku _ fresh]) (simp add: appended_def)
    have "strbuf_duplicate ?tb buf s = Inr (r, t)"
      using ok by (simp add: start cbind_apply strbuf_is_valid_exec [OF b'(1)] strbuf_concatenate_strbuf_def
          strbuf_is_valid_exec [OF at'] strbuf_at_p [OF at'] strbuf_atD(3) [OF at'] run)
    moreover have "strbuf_at buf b bs t"
      using strbuf_at_frame [OF assms(1)] strbuf_live [OF assms(1)] keepsD [OF kt] by (simp add: data_base_def)
    ultimately show ?thesis using False rep kt fresh(1) by (simp add: runs_def)
  qed
qed

definition paged_buffer :: cstate where
  "paged_buffer = (sample_buffer 0)\<lparr>answers := \<lambda>i. of_nat (4096 * (i + 16))\<rparr>"

lemma paged_buffer_at: "strbuf_at sample_buf sample_strbuf [Some 72, Some 0] paged_buffer"
  by (rule strbuf_at_frame [OF sample_buffer_at [of 0]]) (simp_all add: paged_buffer_def)

theorem strbuf_duplicate_copies_witness:
  "runs (strbuf_duplicate (memtbl_ops 0) sample_buf) paged_buffer
     (\<lambda>r t. h_data r \<noteq> NULL \<and> strbuf_rep r [72] t \<and> strbuf_at sample_buf sample_strbuf [Some 72, Some 0] t)"
proof -
  have "stocked 2 paged_buffer"
    by (rule stocked_pages [where k = 16])
      (auto simp: paged_buffer_def sample_buffer_def sample_state_def split: if_splits)
  then show ?thesis
    by (intro runs_conseq [OF strbuf_duplicate_copies [OF paged_buffer_at, of "[72]"]])
      (auto simp: sample_strbuf_def split: if_splits)
qed

section \<open>Growth that fails\<close>

lemma realloc_refused:
  assumes "h_alloc h = MEM_ALLOCATOR_PLAIN" and "owned s h k" and "n \<noteq> 0" and "answers s (calls s) = 0"
  shows "runs (mem_realloc tb h n) s (\<lambda>r t. h_data r = NULL)"
  using assms owned_not_null [OF assms(2)]
  by (auto simp: mem_realloc_plain plain_realloc_def mem_is_valid_def libc_defs cbind_apply runs_def owned_def Let_def)

text \<open>
  C33. When a buffer has to grow and the allocator refuses, the append fails, the old characters
  stay allocated but the buffer has forgotten them: it is invalid from then on and strbuf_destroy
  no longer frees anything.
\<close>

theorem strbuf_growth_failure_leaks:
  assumes "strbuf_at buf b bs s" and "bs \<noteq> []" and "length bs < unat (sb_length b) + unat n"
    and "unat (sb_length b) + unat n < 2 ^ 63" and "answers s (calls s) = 0"
  shows "runs (do_strbuf_concatenate tb buf src n) s (\<lambda>r t. \<not> r \<and>
    heap t (data_base b) = heap s (data_base b) \<and> heap s (data_base b) \<noteq> None \<and>
    strbuf_is_valid tb buf t = Inr (False, t) \<and> strbuf_destroy tb buf t = Inr ((), t))"
proof -
  note at = assms(1) and D = strbuf_atD [OF assms(1)]
  have small: "2 * length bs < 2 ^ 64" using assms(3,4) by simp
  obtain k where k: "owned s (sb_data b) k" "block_bytes k = Inr bs" using at by (rule strbuf_at_owned)
  have "unat (sb_length b) + unat n < 2 ^ LENGTH(64)" using assms(4) by simp
  then have "unat (sb_length b + n) = unat (sb_length b) + unat n" by (simp add: unat_word_ariths)
  then have guard: "h_size (sb_data b) < sb_length b + n" using D(5) assms(3) by (simp add: word_less_nat_alt)
  obtain r t where g: "grow_strbuf tb buf s = Inr (r, t)" and post: "grew buf b bs s r t"
    using grow_strbuf_runs [OF at assms(2) small] by (rule runsE)
  have "\<not> r"
  proof -
    have "unat (h_size (sb_data b) * 2) = 2 * length bs" using D(5) small by (simp add: unat_word_ariths)
    then have "h_size (sb_data b) * 2 \<noteq> 0" using assms(2) by (metis length_0_conv mult_eq_0_iff unat_0 zero_neq_numeral)
    from realloc_refused [OF D(2) k(1) this assms(5), of tb] show ?thesis
      using g by (auto simp: runs_def grow_strbuf_def cbind_apply strbuf_at_p [OF at] D(3) Let_def mem_is_valid_def
          split: sum.splits)
  qed
  then obtain b' where b': "load_strbuf (h_data buf) t = Inr (b', t)" "h_data (sb_data b') = NULL"
      and keep: "heap t (data_base b) = heap s (data_base b)"
    using post by (auto simp: grew_def)
  have invalid: "strbuf_is_valid tb buf t = Inr (False, t)"
    using b' D(7) strbuf_at_p(1) [OF at] by (simp add: strbuf_is_valid_def mem_is_valid_def cbind_apply)
  have "grow_loop tb GROW_FUEL buf (h_data buf) n s = Inr (False, t)"
    using guard g \<open>\<not> r\<close> by (simp add: GROW_FUEL_def numeral_eq_Suc cbind_apply D(3))
  then have "do_strbuf_concatenate tb buf src n s = Inr (False, t)"
    by (simp add: do_strbuf_concatenate_def cbind_apply strbuf_is_valid_exec [OF at] strbuf_at_p [OF at])
  moreover have "strbuf_destroy tb buf t = Inr ((), t)" by (simp add: strbuf_destroy_def cbind_apply invalid)
  moreover have "heap s (data_base b) \<noteq> None" using k(1) by (simp add: owned_def data_base_def)
  ultimately show ?thesis using keep invalid by (simp add: runs_def)
qed

theorem strbuf_growth_failure_leaks_witness:
  "runs (do_strbuf_concatenate (memtbl_ops 0) sample_buf (From_ptr (Ptr 0x7000 0)) 2) (sample_buffer 0)
     (\<lambda>r t. \<not> r \<and> heap t 0x5000 \<noteq> None \<and> strbuf_destroy (memtbl_ops 0) sample_buf t = Inr ((), t))"
proof -
  have "answers (sample_buffer 0) (calls (sample_buffer 0)) = 0"
    by (simp add: sample_buffer_def sample_state_def)
  from strbuf_growth_failure_leaks [OF sample_buffer_at _ _ _ this, of 2 "memtbl_ops 0" "From_ptr (Ptr 0x7000 0)"]
  show ?thesis by (auto elim!: runs_conseq simp: sample_strbuf_def data_base_def)
qed

end
