(* ===== verification/Ds_Strbuf_Faults.thy ===== *)
theory Ds_Strbuf_Faults
  imports Ds_Strbuf_Props
begin

text \<open>
  Where string buffers go wrong although the allocator grants every request: a buffer without
  room, a buffer appended to itself, and an error of vsnprintf.
\<close>

section \<open>A buffer without room\<close>

lemma strbuf_fields:
  "b\<lparr>sb_data := d\<rparr> = \<lparr>sb_data = d, sb_length = sb_length b\<rparr>"
  "b\<lparr>sb_length := n\<rparr> = \<lparr>sb_data = sb_data b, sb_length = n\<rparr>"
  by (cases b, simp)+

lemma mem_realloc_answered:
  assumes "h_alloc h = MEM_ALLOCATOR_PLAIN" and "owned s h k" and "answers s (calls s) = a" and "a \<noteq> 0"
    and "a = pbase (h_data h) \<or> heap s a = None" and "n \<noteq> 0 \<or> \<not> realloc0_frees s"
    and "resize_content (b_size k) n (b_content k) = Inr c"
  shows "runs (mem_realloc tb h n) s (\<lambda>r t. r = \<lparr>h_data = Ptr a 0, h_size = n, h_alloc = MEM_ALLOCATOR_PLAIN\<rparr> \<and>
    env_same s t \<and> calls t = Suc (calls s) \<and>
    heap t = (heap s)(pbase (h_data h) := None, a \<mapsto> \<lparr>b_size = n, b_heap = True, b_content = c\<rparr>))"
  using assms owned_not_null [OF assms(2)]
  by (auto simp: mem_realloc_plain plain_realloc_def mem_is_valid_def libc_defs cbind_apply runs_def owned_def Let_def
      env_same_def)

text \<open>
  \<open>hollow buf s\<close>: a valid buffer without room, and an allocator that grants every request, in place
  or at an address that is not in use, also one for no bytes.
\<close>

definition hollow :: "mem_handle \<Rightarrow> cstate \<Rightarrow> bool" where
  "hollow buf s \<longleftrightarrow> \<not> realloc0_frees s \<and> (\<exists>b. strbuf_at buf b [] s \<and>
     (\<forall>i \<ge> calls s. answers s i \<noteq> 0 \<and> (answers s i = data_base b \<or> heap s (answers s i) = None)))"

lemma hollow_grow:
  assumes "hollow buf s"
  shows "runs (grow_strbuf tb buf) s (\<lambda>r t. r \<and> hollow buf t)"
proof -
  obtain b where at: "strbuf_at buf b [] s" and r0: "\<not> realloc0_frees s"
      and ans: "\<And>i. calls s \<le> i \<Longrightarrow> answers s i \<noteq> 0 \<and> (answers s i = data_base b \<or> heap s (answers s i) = None)"
    using assms by (auto simp: hollow_def)
  let ?a = "answers s (calls s)"
  have nz: "?a \<noteq> 0" and a: "?a = data_base b \<or> heap s ?a = None" using ans by simp_all
  note D = strbuf_atD [OF at]
  obtain k where k: "owned s (sb_data b) k" "block_bytes k = Inr []" using at by (rule strbuf_at_owned)
  have zero: "h_size (sb_data b) = 0" using D(5) by (metis list.size(3) unat_eq_zero)
  have "bytes_of (b_size k) (b_content k) = Some []" using k(2) by (auto simp: block_bytes_def split: option.splits)
  then obtain c bs' where c: "resize_content (b_size k) 0 (b_content k) = Inr c" "bytes_of 0 c = Some bs'" "length bs' = unat (0 :: size_t)"
    by (rule resize_bytes)
  obtain r t where re: "mem_realloc tb (sb_data b) 0 s = Inr (r, t)"
      and r: "r = \<lparr>h_data = Ptr ?a 0, h_size = 0, h_alloc = MEM_ALLOCATOR_PLAIN\<rparr>" and e: "env_same s t" "calls t = Suc (calls s)"
      and h: "heap t = (heap s)(data_base b := None, ?a \<mapsto> \<lparr>b_size = 0, b_heap = True, b_content = c\<rparr>)"
    using mem_realloc_answered [OF D(2) k(1) refl nz _ _ c(1), of tb] a r0 by (auto simp: data_base_def elim!: runsE)
  have ne: "pbase (h_data buf) \<noteq> ?a" "pbase (h_data buf) \<noteq> data_base b"
    using D(4) a strbuf_live [OF at] by (auto simp: data_base_def)
  then have keep: "heap t (pbase (h_data buf)) = heap s (pbase (h_data buf))" using h by simp
  have ld: "load_strbuf (h_data buf) t = Inr (b, t)" by (rule load_strbuf_frame [OF D(3) keep])
  let ?b = "\<lparr>sb_data = r, sb_length = sb_length b\<rparr>"
  let ?t = "set_content (h_data buf) (Strbuf_obj ?b) t"
  have "strbuf_at buf ?b [] ?t"
    by (rule strbuf_at_set [OF at D(1) _ _ _ _ _ keep])
      (use r h nz c ne D(6) in \<open>auto simp: owned_def block_bytes_def\<close>)
  moreover have "grow_strbuf tb buf s = Inr (True, ?t)"
    using nz r by (simp add: grow_strbuf_def cbind_apply strbuf_at_p [OF at] D(3) zero re update_strbuf_exec [OF ld] strbuf_fields
        Let_def mem_is_valid_def)
  moreover have "realloc0_frees ?t = realloc0_frees s" "answers ?t = answers s" "calls ?t = Suc (calls s)"
    using e by (simp_all add: env_same_def)
  moreover have "answers s i = data_base ?b \<or> heap ?t (answers s i) = None" if "Suc (calls s) \<le> i" for i
    using ans [of i] that r h by (auto simp: data_base_def heap_set_content)
  ultimately show ?thesis using ans r0 by (auto simp: runs_def hollow_def)
qed

lemma hollow_loop:
  assumes "hollow buf s" and "n \<noteq> 0"
  shows "grow_loop tb fuel buf (h_data buf) n s = Inl Out_of_fuel"
  using assms
proof (induction fuel arbitrary: s)
  case (Suc fuel)
  obtain b where at: "strbuf_at buf b [] s" using Suc.prems by (auto simp: hollow_def)
  note D = strbuf_atD [OF at]
  have "h_size (sb_data b) = 0" "sb_length b = 0" using D(5,6) by (simp_all add: unat_eq_zero)
  then have guard: "h_size (sb_data b) < sb_length b + n" using Suc.prems(2) by (simp add: word_gt_0)
  obtain r t where "grow_strbuf tb buf s = Inr (r, t)" "r" "hollow buf t"
    using hollow_grow [OF Suc.prems(1), of tb] by (auto elim!: runsE)
  then show ?case using Suc.IH Suc.prems(2) guard by (simp add: cbind_apply D(3))
qed simp

lemma strbuf_create_address:
  assumes "strbuf_create tb MEM_ALLOCATOR_PLAIN k s = Inr (r, t)" and "h_data r \<noteq> NULL"
  shows "h_data r = Ptr (fresh_answer s) 0"
proof -
  obtain h u where al: "mem_alloc tb MEM_ALLOCATOR_PLAIN sizeof_strbuf s = Inr (h, u)" and "r = h"
    using assms by (auto simp: strbuf_create_def cbind_Inr_iff split: if_splits)
  then show ?thesis
    using assms(2) by (auto simp: mem_alloc_plain plain_alloc_def libc_defs cbind_apply Let_def split: if_splits)
qed

text \<open>
  \<open>granting s\<close>: every answer of the allocator is an address that is not in use in \<open>s\<close>, and none
  after the first one is the first one again.
\<close>

definition granting :: "cstate \<Rightarrow> bool" where
  "granting s \<longleftrightarrow> (\<forall>i \<ge> calls s. answers s i \<noteq> 0 \<and> heap s (answers s i) = None \<and>
     (i \<noteq> calls s \<longrightarrow> answers s i \<noteq> answers s (calls s)))"

text \<open>
  C30. A buffer that strbuf_create made with size 0 never gets room: when the allocator grants every
  request (at addresses that are not in use; the block of the characters may stay where it is or
  move) and realloc to size 0 gives a block, the growth loop for an append of at least one character
  runs forever, because twice nothing is still nothing. With every amount of fuel the loop is still
  running.
\<close>

theorem strbuf_size_zero_never_returns:
  assumes "granting s" and "\<not> realloc0_frees s"
  shows "runs (strbuf_create (memtbl_ops d) MEM_ALLOCATOR_PLAIN 0) s (\<lambda>buf t. h_data buf \<noteq> NULL \<and>
    (\<forall>n fuel. n \<noteq> 0 \<longrightarrow> grow_loop (memtbl_ops d) fuel buf (h_data buf) n t = Inl Out_of_fuel))"
proof -
  note tb = blocks_answered.ops_stable_memtbl_ops [of d]
  have G: "\<And>i. calls s \<le> i \<Longrightarrow> answers s i \<noteq> 0 \<and> heap s (answers s i) = None"
    "\<And>i. calls s < i \<Longrightarrow> answers s i \<noteq> answers s (calls s)"
    using assms(1) by (auto simp: granting_def)
  have "{calls s..<calls s + Suc (Suc 0)} = {calls s, Suc (calls s)}" by auto
  then have st: "stocked (Suc (Suc 0)) s"
    using G(1) [of "calls s"] G(1) [of "Suc (calls s)"] G(2) [of "Suc (calls s)"] unfolding stocked_def by simp
  obtain buf t where mk: "strbuf_create (memtbl_ops d) MEM_ALLOCATOR_PLAIN 0 s = Inr (buf, t)" and e: "env_same s t"
      and made: "if h_data buf = NULL then buf = null_handle \<and> heap t = heap s
        else \<exists>b. strbuf_at buf b (replicate (unat (0 :: size_t)) (Some 0)) t \<and> sb_length b = 0 \<and>
          heap s (pbase (h_data buf)) = None \<and> heap s (data_base b) = None \<and>
          (\<forall>a. a \<notin> {pbase (h_data buf), data_base b} \<longrightarrow> heap t a = heap s a)"
    using strbuf_create_runs by (rule runsE) blast
  have nn: "h_data buf \<noteq> NULL" and calls: "calls t = Suc (Suc (calls s))"
    using strbuf_create_succeeds [OF tb st mk] by simp_all
  then obtain b where at: "strbuf_at buf b [] t"
      and rest: "\<forall>a. a \<notin> {pbase (h_data buf), data_base b} \<longrightarrow> heap t a = heap s a"
    using made by auto
  have "fresh_answer s = answers s (calls s)" using G(1) by (simp add: fresh_answer_def Let_def)
  then have base: "pbase (h_data buf) = answers s (calls s)" using strbuf_create_address [OF mk nn] by simp
  have "answers s i \<noteq> 0 \<and> (answers s i = data_base b \<or> heap t (answers s i) = None)" if "calls t \<le> i" for i
    using G [of i] rest that calls base by auto
  then have "\<forall>i \<ge> calls t. answers t i \<noteq> 0 \<and> (answers t i = data_base b \<or> heap t (answers t i) = None)"
    using e by (simp add: env_same_def)
  then have "hollow buf t" using at e assms(2) unfolding hollow_def env_same_def by blast
  then show ?thesis using mk nn by (simp add: runs_def hollow_loop)
qed

definition hollow_state :: cstate where
  "hollow_state = (sample_state [] 0 (\<lambda>i. if i = 0 then 0x4000 else 0x5000))\<lparr>heap := Map.empty\<rparr>"

theorem strbuf_size_zero_never_returns_witness:
  "runs (strbuf_create (memtbl_ops 0) MEM_ALLOCATOR_PLAIN 0) hollow_state (\<lambda>buf t.
     \<forall>fuel. grow_loop (memtbl_ops 0) fuel buf (h_data buf) 1 t = Inl Out_of_fuel)"
proof -
  have "granting hollow_state" "\<not> realloc0_frees hollow_state"
    by (simp_all add: granting_def hollow_state_def sample_state_def)
  from strbuf_size_zero_never_returns [OF this, of 0] show ?thesis by (rule runs_conseq) simp
qed

lemma grow_strbuf_moves:
  assumes at: "strbuf_at buf b bs s" and pos: "bs \<noteq> []" and small: "2 * length bs < 2 ^ 64"
    and a: "answers s (calls s) \<noteq> 0" "heap s (answers s (calls s)) = None" and run: "grow_strbuf tb buf s = Inr (r, t)"
  shows "r" and "heap t (data_base b) = None"
proof -
  note D = strbuf_atD [OF at]
  obtain k where k: "owned s (sb_data b) k" "block_bytes k = Inr bs" using at by (rule strbuf_at_owned)
  let ?n = "h_size (sb_data b) * 2"
  have "unat ?n = 2 * length bs" using D(5) small by (simp add: unat_word_ariths)
  then have nz: "?n \<noteq> 0" using pos by (metis length_0_conv mult_eq_0_iff unat_0 zero_neq_numeral)
  have "bytes_of (b_size k) (b_content k) = Some bs" using k(2) by (auto simp: block_bytes_def split: option.splits)
  then obtain c bs' where "resize_content (b_size k) ?n (b_content k) = Inr c" by (rule resize_bytes)
  from mem_realloc_answered [OF D(2) k(1) refl a(1) _ _ this, of tb] a(2) nz
  obtain d u where re: "mem_realloc tb (sb_data b) ?n s = Inr (d, u)" and "h_data d \<noteq> NULL"
      and "heap u = (heap s)(data_base b := None, answers s (calls s) \<mapsto> \<lparr>b_size = ?n, b_heap = True, b_content = c\<rparr>)"
    using a(1) by (auto simp: data_base_def elim!: runsE)
  moreover have "data_base b \<noteq> answers s (calls s)" using a(2) strbuf_live [OF at] by auto
  ultimately show "r" "heap t (data_base b) = None"
    using run
    by (auto simp: grow_strbuf_def cbind_apply strbuf_at_p [OF at] D(3) Let_def mem_is_valid_def update_strbuf_def
        update_struct_def store_def split: sum.splits)
qed

text \<open>
  C31. Appending a buffer to itself reads freed memory when the buffer has to grow and moves: the
  address of the text was taken before the growth loop.
\<close>

theorem strbuf_self_concatenation:
  assumes "strbuf_at buf b bs s" and "length bs < 2 * unat (sb_length b)" and "length bs < 2 ^ 62"
    and "answers s (calls s) \<noteq> 0" and "heap s (answers s (calls s)) = None"
  shows "strbuf_concatenate_strbuf tb buf buf s = Inl Dangling"
proof -
  note at = assms(1) and D = strbuf_atD [OF assms(1)]
  let ?n = "sb_length b"
  have pos: "bs \<noteq> []" using assms(2) D(6) by auto
  have small: "2 * length bs < 2 ^ 64" using assms(3) by simp
  have "unat ?n + unat ?n < 2 ^ LENGTH(64)" using D(6) assms(3) by simp
  then have sum: "unat (?n + ?n) = 2 * unat ?n" by (simp add: unat_word_ariths)
  obtain r t where g: "grow_strbuf tb buf s = Inr (r, t)" and post: "grew buf b bs s r t"
    using grow_strbuf_runs [OF at pos small] by (rule runsE)
  note mv = grow_strbuf_moves [OF at pos small assms(4,5) g]
  obtain b' bs' where b': "strbuf_at buf b' bs' t" "sb_length b' = sb_length b" "length bs' = 2 * length bs"
    using post mv(1) by (auto simp: grew_def)
  note D' = strbuf_atD [OF b'(1)]
  have guard: "h_size (sb_data b) < ?n + ?n" "\<not> h_size (sb_data b') < sb_length b' + ?n"
    using D(5,6) D'(5) b'(2,3) sum assms(2) by (simp_all add: word_less_nat_alt)
  have loop: "grow_loop tb GROW_FUEL buf (h_data buf) ?n s = Inr (True, t)"
    using guard mv(1) g by (simp add: GROW_FUEL_def numeral_eq_Suc cbind_apply D(3) D'(3))
  have live: "\<exists>x. block_at (ptr_add (h_data (sb_data b')) i) t = Inr x" for i
    using D'(9) by (auto simp: space_at_def block_at_Inr_iff)
  have base: "pbase (h_data (sb_data b)) \<noteq> 0" using D(9) by (auto simp: space_at_def block_at_Inr_iff)
  have "memcpy (ptr_add (h_data (sb_data b')) (unat (sb_length b'))) (h_data (sb_data b)) ?n t = Inl Dangling"
    using live [of "unat (sb_length b')"] mv(2) base by (auto simp: memcpy_def block_at_def data_base_def)
  then show ?thesis
    by (simp add: strbuf_concatenate_strbuf_def cbind_apply strbuf_is_valid_exec [OF at] strbuf_at_p [OF at] D(3)
        do_strbuf_concatenate_unfold [OF at] append_with_def loop strbuf_at_p [OF b'(1)] D'(3))
qed

text \<open>
  C32. When vsnprintf reports an error, strbuf_concatenate_printf reports success and drops the
  last character of the text.
\<close>

theorem strbuf_printf_error_truncates:
  assumes "strbuf_at buf b bs s" and "unat (sb_length b) = length (cs @ [c])" and "take (length (cs @ [c])) bs = map Some (cs @ [c])"
    and "fmt \<noteq> NULL"
  shows "runs (strbuf_concatenate_printf tb buf fmt None) s (\<lambda>r t. r \<and> strbuf_rep buf cs t)"
proof -
  note at = assms(1) and D = strbuf_atD [OF assms(1)]
  have n: "0 = word_of_int (vsnprintf_length None + 1)" "vsnprintf_length None < 2 ^ 31 - 1" by (simp_all add: vsnprintf_length_def)
  let ?b = "\<lparr>sb_data = sb_data b, sb_length = sb_length b - 1\<rparr>"
  let ?t = "set_content (h_data buf) (Strbuf_obj ?b) s"
  have ne: "sb_length b \<noteq> 0" using assms(2) by auto
  then have len: "unat (sb_length b - 1) = length cs" using assms(2) by (simp add: unat_minus_one)
  have "\<not> h_size (sb_data b) < sb_length b + 0" using D(5,6) by (simp add: word_less_nat_alt)
  then have "grow_loop tb GROW_FUEL buf (h_data buf) 0 s = Inr (True, s)"
    using D(3) by (simp add: GROW_FUEL_def numeral_eq_Suc cbind_apply)
  then have run: "strbuf_concatenate_printf tb buf fmt None s = Inr (True, ?t)"
    unfolding strbuf_concatenate_printf_unfold [OF at assms(4) n] append_with_def
    by (simp add: cbind_apply D(3) strbuf_at_p [OF at] vsnprintf_write_def update_strbuf_exec [OF D(3)] strbuf_fields)
  obtain k where k: "owned s (sb_data b) k" "block_bytes k = Inr bs" using at by (rule strbuf_at_owned)
  have "strbuf_at buf ?b bs ?t"
    by (rule strbuf_at_set [OF at D(1,2) k]) (use D len assms(2) in simp_all)
  moreover have "take (length cs) bs = map Some cs"
    using arg_cong [OF assms(3), of "take (length cs)"] by (simp add: min_def)
  moreover have "bs \<noteq> []" using assms(2) D(6) by auto
  ultimately show ?thesis using run len by (auto simp: runs_def strbuf_rep_def intro!: exI [of _ ?b] exI [of _ bs])
qed

theorem strbuf_printf_error_truncates_witness:
  "runs (strbuf_concatenate_printf (memtbl_ops 0) sample_buf (Ptr 0x7000 0) None) (sample_buffer 0)
     (\<lambda>r t. r \<and> strbuf_rep sample_buf [] t)"
  using strbuf_printf_error_truncates [OF sample_buffer_at, of "[]" 72 "Ptr 0x7000 0"]
  by (simp add: sample_strbuf_def)

definition full_strbuf :: strbuf where
  "full_strbuf = sample_strbuf\<lparr>sb_length := 2\<rparr>"

definition full_buffer :: "64 word \<Rightarrow> cstate" where
  "full_buffer a = (sample_state [] 0 (\<lambda>_. a))\<lparr>heap := [
     0x4000 \<mapsto> \<lparr>b_size = sizeof_strbuf, b_heap = True, b_content = Strbuf_obj full_strbuf\<rparr>,
     0x5000 \<mapsto> \<lparr>b_size = 2, b_heap = True, b_content = Bytes [Some 72, Some 105]\<rparr>]\<rparr>"

theorem strbuf_self_concatenation_witness:
  "strbuf_concatenate_strbuf (memtbl_ops 0) sample_buf sample_buf (full_buffer 0x9000) = Inl Dangling"
proof (rule strbuf_self_concatenation)
  show "strbuf_at sample_buf full_strbuf [Some 72, Some 105] (full_buffer 0x9000)"
    by (simp add: strbuf_at_def sample_buf_def sample_strbuf_def full_strbuf_def full_buffer_def load_strbuf_def
        load_struct_def load_Inr_iff block_at_Inr_iff struct_of_def owned_def block_bytes_def)
qed (simp_all add: full_strbuf_def full_buffer_def sample_state_def)

end
