(* ===== verification/Word_Freq.thy ===== *)
theory Word_Freq
  imports Ds_Memtbl Ds_Strbuf
begin

text \<open>
  The program of m65tool.c: it reads a file through a string buffer, splits each line into words,
  counts the words in an array whose elements a map points into, and prints the five largest and
  the five smallest counts with the number of words that have them. The file system is an
  argument (a file name to its bytes, None when it cannot be opened), the standard output is
  the list of calls to puts and printf. The three global variables are the record \<open>globals\<close>.
\<close>

section \<open>Arrays of unsigned int\<close>

definition sizeof_uint :: size_t where "sizeof_uint = 4"

definition uint_ptr :: "ptr \<Rightarrow> nat \<Rightarrow> ptr" where
  "uint_ptr p i = ptr_add p (4 * i)"

definition uints_of :: "ptr \<Rightarrow> block \<Rightarrow> c_error + uint option list" where
  "uints_of p b =
     (if poff p mod 4 \<noteq> 0 then Inl Type_confusion
      else case b_content b of
        Uints ws \<Rightarrow> Inr ws
      | Zeroed \<Rightarrow> Inr (replicate (unat (b_size b) div 4) (Some 0))
      | Fresh \<Rightarrow> Inr (replicate (unat (b_size b) div 4) None)
      | _ \<Rightarrow> Inl Type_confusion)"

definition load_uint :: "ptr \<Rightarrow> uint prog" where
  "load_uint p = load p (\<lambda>b. case uints_of p b of
     Inl e \<Rightarrow> Inl e
   | Inr ws \<Rightarrow>
       if poff p div 4 < length ws
       then (case ws ! (poff p div 4) of None \<Rightarrow> Inl Uninitialised | Some v \<Rightarrow> Inr v)
       else Inl Out_of_bounds)"

definition store_uint :: "ptr \<Rightarrow> uint \<Rightarrow> unit prog" where
  "store_uint p v = store p (\<lambda>b. case uints_of p b of
     Inl e \<Rightarrow> Inl e
   | Inr ws \<Rightarrow>
       if poff p div 4 < length ws then Inr (Uints (ws[poff p div 4 := Some v]))
       else Inl Out_of_bounds)"

section \<open>Counting the words of a line\<close>

definition NL :: string where "NL = [CHR 0x0A]"
definition TAB :: string where "TAB = [CHR 0x09]"

record globals =
  counts :: mem_handle
  words_seen :: uint
  mymap :: mem_handle

definition INITIAL_COUNTS_SIZE :: uint where
  "INITIAL_COUNTS_SIZE = 128"

definition count_word :: "table_ops \<Rightarrow> globals \<Rightarrow> mem_handle \<Rightarrow> globals prog" where
  "count_word tb g word =
     cbind (map_get_str tb (mymap g) word) (\<lambda>entry.
     if mem_is_valid entry
     then cbind (mem_p tb entry) (\<lambda>valp.
       cbind (load_uint valp) (\<lambda>v.
       cbind (store_uint valp (v + 1)) (\<lambda>_. ret g)))
     else
       let g = g\<lparr>words_seen := words_seen g + 1\<rparr>
       in cbind (if h_size (counts g) < ucast (words_seen g)
                 then cbind (mem_realloc tb (counts g) (h_size (counts g) * 2)) (\<lambda>c.
                   if \<not> mem_is_valid c then raise (Exit_failure (''Error resizing counts array'' @ NL))
                   else ret (g\<lparr>counts := c\<rparr>))
                 else ret g) (\<lambda>g.
          cbind (mem_p tb (counts g)) (\<lambda>arr.
          let value = mem_handle_from_ptr (uint_ptr arr (unat (words_seen g - 1))) sizeof_uint
          in cbind (map_set_str tb (mymap g) word value) (\<lambda>ok.
             if \<not> ok then raise (Exit_failure (''Error adding new key to map'' @ NL))
             else cbind (store_uint (uint_ptr arr (unat (words_seen g - 1))) 1) (\<lambda>_. ret g)))))"

text \<open>Each round of the loop takes at least one character off a line that has any left.\<close>

fun process_loop :: "table_ops \<Rightarrow> nat \<Rightarrow> globals \<Rightarrow> mem_handle \<Rightarrow> mem_handle \<Rightarrow> globals prog" where
  "process_loop tb 0 g line word = raise Out_of_fuel"
| "process_loop tb (Suc fuel) g line word =
     (if \<not> str_is_valid line then ret g
      else cbind (str_split_whitespace_pop tb line word) (\<lambda>(line, word).
        cbind (if 0 < h_size word then count_word tb g word else ret g) (\<lambda>g.
        process_loop tb fuel g line word)))"

definition process_line :: "table_ops \<Rightarrow> globals \<Rightarrow> mem_handle \<Rightarrow> globals prog" where
  "process_line tb g line = process_loop tb (unat (h_size line) + 2) g line null_handle"

section \<open>Reading the file\<close>

fun read_loop :: "table_ops \<Rightarrow> globals \<Rightarrow> mem_handle \<Rightarrow> byte list \<Rightarrow> globals prog" where
  "read_loop tb g buf [] = ret g"
| "read_loop tb g buf (c # cs) =
     (if c = 10
      then cbind (strbuf_str tb buf) (\<lambda>line.
        cbind (process_line tb g line) (\<lambda>g.
        cbind (strbuf_reset tb buf) (\<lambda>_. read_loop tb g buf cs)))
      else cbind (strbuf_concatenate_char tb buf c) (\<lambda>ok.
        if \<not> ok then raise (Exit_failure (''Error growing string buffer'' @ NL))
        else read_loop tb g buf cs))"

section \<open>Ranking the counts\<close>

text \<open>
  One pass over an array of five: the count at hand is placed before the first smaller (larger)
  one, which then moves on; equal counts are kept once. An int of the arrays compares with an
  unsigned count as an unsigned number, so the arrays hold words here.
\<close>

fun rank_most :: "uint list \<Rightarrow> uint \<Rightarrow> uint list" where
  "rank_most [] count = []"
| "rank_most (m # ms) count =
     (if m = count then m # ms
      else if m < count then count # rank_most ms m
      else m # rank_most ms count)"

fun rank_least :: "uint list \<Rightarrow> uint \<Rightarrow> uint list" where
  "rank_least [] count = []"
| "rank_least (m # ms) count =
     (if m = count then m # ms
      else if count < m \<or> m = 0 then count # rank_least ms m
      else m # rank_least ms count)"

function rank_loop ::
  "ptr \<Rightarrow> uint \<Rightarrow> uint \<Rightarrow> uint list \<times> uint list \<Rightarrow> (uint list \<times> uint list) prog" where
  "rank_loop arr n i (most, least) =
     (if i < n
      then cbind (load_uint (uint_ptr arr (unat i))) (\<lambda>count.
        rank_loop arr n (i + 1) (rank_most most count, rank_least least count))
      else ret (most, least))"
  by pat_completeness auto
termination
  by (relation "measure (\<lambda>(_, n, i, _). unat n - unat i)") auto

declare rank_loop.simps [simp del]

fun count_matches :: "uint \<Rightarrow> uint list \<Rightarrow> uint list \<Rightarrow> uint list" where
  "count_matches count (f # fs) (m # ms) =
     (if count = f then m + 1 else m) # count_matches count fs ms"
| "count_matches count _ _ = []"

fun match_loop ::
  "table_ops \<Rightarrow> nat \<Rightarrow> uint list \<Rightarrow> uint list \<Rightarrow> map_iter \<Rightarrow> uint list \<Rightarrow> uint list \<Rightarrow>
   (uint list \<times> uint list) prog" where
  "match_loop tb 0 most least it mm lm = raise Out_of_fuel"
| "match_loop tb (Suc fuel) most least it mm lm =
     cbind (map_iter_done tb it) (\<lambda>finished.
     if finished then ret (mm, lm)
     else cbind (mem_p tb (map_iter_value it)) (\<lambda>p.
       cbind (load_uint p) (\<lambda>count.
       cbind (map_next_value_iter tb it) (\<lambda>it.
       match_loop tb fuel most least it (count_matches count most mm) (count_matches count least lm)))))"

section \<open>The program\<close>

datatype printed = Puts string | Print_row int int

text \<open>Both numbers of a row are printed as int; the second is an unsigned int.\<close>

definition print_rows :: "uint list \<Rightarrow> uint list \<Rightarrow> printed list" where
  "print_rows fs ms = map (\<lambda>(f, m). Print_row (sint f) (sint m)) (zip fs ms)"

definition heading :: string where
  "heading = NL @ ''=================='' @ NL @ ''Count'' @ TAB @ ''Words'' @ NL"

definition report :: "uint list \<Rightarrow> uint list \<Rightarrow> uint list \<Rightarrow> uint list \<Rightarrow> printed list" where
  "report most mm least lm =
     Puts (''Most frequent words'' @ heading) # print_rows most mm @
     Puts (NL @ ''Least frequent words'' @ heading) # print_rows least lm"

text \<open>From the ranking of the counts to the end of word_freq.\<close>

definition print_frequencies :: "table_ops \<Rightarrow> globals \<Rightarrow> printed list prog" where
  "print_frequencies tb g =
     cbind (mem_p tb (counts g)) (\<lambda>arr.
     cbind (rank_loop arr (words_seen g) 0 (replicate 5 0, replicate 5 0)) (\<lambda>(most, least).
     cbind (iteration_bound tb (mymap g)) (\<lambda>fuel.
     cbind (map_first_value_iter tb (mymap g)) (\<lambda>it.
     cbind (match_loop tb fuel most least it (replicate 5 0) (replicate 5 0)) (\<lambda>(mm, lm).
     ret (report most mm least lm))))))"

definition word_freq :: "table_ops \<Rightarrow> (string \<Rightarrow> byte list option) \<Rightarrow> string \<Rightarrow> printed list prog" where
  "word_freq tb files fname =
     (case files fname of
        None \<Rightarrow> raise (Exit_failure (''Could not open file '' @ [CHR 0x27] @ fname @ [CHR 0x27] @ NL))
      | Some input \<Rightarrow>
          cbind (mem_alloc tb MEM_ALLOCATOR_PLAIN (sizeof_uint * ucast INITIAL_COUNTS_SIZE)) (\<lambda>c.
          if \<not> mem_is_valid c then raise (Exit_failure (''Error creating counts array'' @ NL))
          else cbind (map_create tb MEM_ALLOCATOR_PLAIN) (\<lambda>m.
            cbind (map_is_valid tb m) (\<lambda>ok.
            if \<not> ok then raise (Exit_failure (''Error creating map'' @ NL))
            else cbind (strbuf_create tb MEM_ALLOCATOR_PLAIN 100) (\<lambda>buf.
              cbind (strbuf_is_valid tb buf) (\<lambda>ok.
              if \<not> ok then raise (Exit_failure (''Error creating strbuf'' @ NL))
              else
                cbind (read_loop tb \<lparr>counts = c, words_seen = 0, mymap = m\<rparr> buf input) (\<lambda>g.
                cbind (strbuf_str tb buf) (\<lambda>line.
                cbind (if 0 < h_size line then process_line tb g line else ret g) (\<lambda>g.
                print_frequencies tb g)))))))))"

text \<open>main returns 0 when it reaches its end; a failure exits with the message that it printed.\<close>

definition m65tool_main ::
  "table_ops \<Rightarrow> (string \<Rightarrow> byte list option) \<Rightarrow> string list \<Rightarrow> printed list prog" where
  "m65tool_main tb files argv =
     (if length argv \<noteq> 2 then raise (Exit_failure ''Usage: m65tool file.txt'')
      else word_freq tb files (argv ! 1))"

end
