(* ===== verification/Word_Rank.thy ===== *)
theory Word_Rank
  imports Word_Freq Ds_Str_Proofs
begin

text \<open>
  The ranking of the counts: one pass over an array of five inserts into a list without duplicates,
  so that the loop over the counter array computes the five largest and smallest different counts.
\<close>

section \<open>Ranking\<close>

text \<open>Insertion into a list without duplicates that is sorted by \<open>lt\<close>.\<close>

fun place :: "('a \<Rightarrow> 'a \<Rightarrow> bool) \<Rightarrow> 'a list \<Rightarrow> 'a \<Rightarrow> 'a list" where
  "place lt [] c = [c]"
| "place lt (x # xs) c = (if x = c then x # xs else if lt c x then c # x # xs else x # place lt xs c)"

lemma set_place [simp]: "set (place lt xs c) = insert c (set xs)"
  by (induction xs) auto

lemma sorted_place:
  fixes xs :: "'a::linorder list"
  shows "sorted_wrt (<) xs \<Longrightarrow> sorted_wrt (<) (place (<) xs c)"
    and "sorted_wrt (>) xs \<Longrightarrow> sorted_wrt (>) (place (>) xs c)"
  by (induction xs) (auto simp: not_less)

lemma place_first: "\<forall>x \<in> set xs. lt c x \<and> x \<noteq> c \<Longrightarrow> place lt xs c = c # xs"
  by (cases xs) auto

lemma rank_most_place:
  assumes "sorted_wrt (>) xs" and "0 \<notin> set xs" and "c \<noteq> 0" and "n \<le> N"
  shows "rank_most (take n (xs @ replicate N 0)) c = take n (place (>) xs c @ replicate N 0)"
  using assms
proof (induction xs arbitrary: n c)
  case Nil
  have "rank_most (replicate k 0) 0 = replicate k 0" for k by (cases k) simp_all
  moreover have "0 < c" using Nil by (simp add: word_gt_0)
  ultimately show ?case
    using Nil by (cases n) (auto simp: min_def gr0_conv_Suc Suc_le_eq)
next
  case (Cons x xs)
  show ?case
  proof (cases n)
    case (Suc k)
    have "rank_most (take k (xs @ replicate N 0)) x = take k (place (>) xs x @ replicate N 0)"
      using Cons.prems Suc by (intro Cons.IH) auto
    moreover have "place (>) xs x = x # xs" using Cons.prems by (intro place_first) auto
    moreover have "rank_most (take k (xs @ replicate N 0)) c = take k (place (>) xs c @ replicate N 0)"
      using Cons.prems Suc by (intro Cons.IH) auto
    ultimately show ?thesis using Suc by (auto simp del: take_append)
  qed simp
qed

lemma rank_least_place:
  assumes "sorted_wrt (<) xs" and "0 \<notin> set xs" and "c \<noteq> 0" and "n \<le> N"
  shows "rank_least (take n (xs @ replicate N 0)) c = take n (place (<) xs c @ replicate N 0)"
  using assms
proof (induction xs arbitrary: n c)
  case Nil
  have "rank_least (replicate k 0) 0 = replicate k 0" for k by (cases k) simp_all
  then show ?case
    using Nil by (cases n) (auto simp: min_def gr0_conv_Suc Suc_le_eq)
next
  case (Cons x xs)
  have x: "x \<noteq> 0" using Cons.prems by auto
  show ?case
  proof (cases n)
    case (Suc k)
    have "rank_least (take k (xs @ replicate N 0)) x = take k (place (<) xs x @ replicate N 0)"
      using Cons.prems Suc by (intro Cons.IH) auto
    moreover have "place (<) xs x = x # xs" using Cons.prems by (intro place_first) auto
    moreover have "rank_least (take k (xs @ replicate N 0)) c = take k (place (<) xs c @ replicate N 0)"
      using Cons.prems Suc by (intro Cons.IH) auto
    ultimately show ?thesis using Suc x by (auto simp del: take_append)
  qed simp
qed

text \<open>The \<open>n\<close> largest and the \<open>n\<close> smallest members of a set, filled up with zeros.\<close>

definition largest :: "nat \<Rightarrow> uint set \<Rightarrow> uint list" where
  "largest n S = take n (rev (sorted_list_of_set S) @ replicate n 0)"

definition smallest :: "nat \<Rightarrow> uint set \<Rightarrow> uint list" where
  "smallest n S = take n (sorted_list_of_set S @ replicate n 0)"

lemma place_sorted_list:
  fixes S :: "uint set"
  shows "place (<) (sorted_list_of_set S) c = sorted_list_of_set (insert c S)"
    and "place (>) (rev (sorted_list_of_set S)) c = rev (sorted_list_of_set (insert c S))"
proof -
  have S: "finite S" by simp
  show "place (<) (sorted_list_of_set S) c = sorted_list_of_set (insert c S)"
    using sorted_place(1) [OF strict_sorted_list_of_set [of S], of c]
    by (intro strict_sorted_equal) (simp_all del: sorted_list_of_set_insert_remove)
  have "sorted_wrt (>) (place (>) (rev (sorted_list_of_set S)) c)"
    by (rule sorted_place(2)) (simp add: sorted_wrt_rev)
  then have "rev (place (>) (rev (sorted_list_of_set S)) c) = sorted_list_of_set (insert c S)"
    by (intro strict_sorted_equal) (simp_all add: sorted_wrt_rev del: sorted_list_of_set_insert_remove)
  then show "place (>) (rev (sorted_list_of_set S)) c = rev (sorted_list_of_set (insert c S))"
    by (metis rev_rev_ident)
qed

lemma rank_insert:
  assumes "c \<noteq> 0" and "0 \<notin> S"
  shows "rank_most (largest n S) c = largest n (insert c S)"
    and "rank_least (smallest n S) c = smallest n (insert c S)"
  using assms rank_most_place [of "rev (sorted_list_of_set S)" c n n]
    rank_least_place [of "sorted_list_of_set S" c n n]
  by (simp_all add: largest_def smallest_def place_sorted_list sorted_wrt_rev)

lemma rank_nothing: "largest n {} = replicate n 0" "smallest n {} = replicate n 0"
  by (simp_all add: largest_def smallest_def)

text \<open>An array of counters in memory.\<close>

definition uints_at :: "ptr \<Rightarrow> uint option list \<Rightarrow> cstate \<Rightarrow> bool" where
  "uints_at p ws s \<longleftrightarrow> poff p = 0 \<and> (\<exists>b. block_at p s = Inr b \<and> uints_of p b = Inr ws)"

lemma uint_ptr_simps [simp]:
  "pbase (uint_ptr p i) = pbase p" "poff (uint_ptr p i) = poff p + 4 * i" "uint_ptr p i = NULL \<longleftrightarrow> p = NULL \<and> i = 0"
  by (auto simp: uint_ptr_def ptr_null_iff)

lemma uints_of_ptr: "poff p = 0 \<Longrightarrow> uints_of (uint_ptr p i) b = uints_of p b"
  by (simp add: uints_of_def)

lemma load_uint_exec:
  "uints_at p ws s \<Longrightarrow> i < length ws \<Longrightarrow> ws ! i = Some v \<Longrightarrow> load_uint (uint_ptr p i) s = Inr (v, s)"
  by (auto simp: uints_at_def load_uint_def load_Inr_iff uints_of_ptr block_at_Inr_iff)

lemma uints_at_frame: "uints_at p ws s \<Longrightarrow> heap t (pbase p) = heap s (pbase p) \<Longrightarrow> uints_at p ws t"
  by (auto simp: uints_at_def block_at_Inr_iff)

lemma set_content_base: "pbase p = pbase q \<Longrightarrow> set_content p c s = set_content q c s"
  by (simp add: set_content_def split: option.split)

lemma store_uint_exec:
  assumes "uints_at p ws s" and "i < length ws"
  shows "store_uint (uint_ptr p i) v s = Inr ((), set_content p (Uints (ws[i := Some v])) s)"
proof -
  obtain b where b: "block_at p s = Inr b" "uints_of p b = Inr ws" "poff p = 0"
    using assms(1) by (auto simp: uints_at_def)
  have "block_at (uint_ptr p i) s = Inr b" using b(1) by (simp add: block_at_Inr_iff)
  then have "store_uint (uint_ptr p i) v s = Inr ((), set_content (uint_ptr p i) (Uints (ws[i := Some v])) s)"
    unfolding store_uint_def by (rule store_exec) (use b assms(2) in \<open>simp add: uints_of_ptr\<close>)
  then show ?thesis using set_content_base [of "uint_ptr p i" p] by simp
qed

lemma uints_at_set: "uints_at p ws s \<Longrightarrow> uints_at p ws' (set_content p (Uints ws') s)"
  by (auto simp: uints_at_def uints_of_def dest: block_at_set_content)

lemma rank_loop_exec:
  assumes arr: "uints_at p ws s" and xs: "take (unat n) ws = map Some xs" "unat n \<le> length ws" and nz: "0 \<notin> set xs"
  shows "unat i \<le> unat n \<Longrightarrow> rank_loop p n i (largest 5 (set (take (unat i) xs)), smallest 5 (set (take (unat i) xs))) s =
    Inr ((largest 5 (set xs), smallest 5 (set xs)), s)"
proof (induction "unat n - unat i" arbitrary: i rule: less_induct)
  case less
  have len: "length xs = unat n" using arg_cong [OF xs(1), of length] xs(2) by simp
  show ?case
  proof (cases "i < n")
    case False
    then have "unat i = unat n" using less.prems by (simp add: word_less_nat_alt)
    then show ?thesis using False len by (subst rank_loop.simps) simp
  next
    case True
    have up: "unat (i + 1) = Suc (unat i)" using True by (rule unat_plus_one)
    have lt: "unat i < unat n" using True by (simp add: word_less_nat_alt)
    then have x: "ws ! unat i = Some (xs ! unat i)" using nth_map [of "unat i" xs Some] xs len by (metis nth_take)
    have ins: "set (take (unat (i + 1)) xs) = insert (xs ! unat i) (set (take (unat i) xs))"
      using lt len by (simp add: up take_Suc_conv_app_nth)
    have "xs ! unat i \<noteq> 0" "0 \<notin> set (take (unat i) xs)"
      using nz lt len by (metis nth_mem) (use nz in \<open>auto dest: in_set_takeD\<close>)
    note ranks = rank_insert [OF this]
    show ?thesis
      using True lt xs(2) less.hyps [of "i + 1"] up
      by (subst rank_loop.simps) (simp add: cbind_apply load_uint_exec [OF arr _ x] ranks ins [symmetric])
  qed
qed

end
