(* ===== verification/Word_Count.thy ===== *)
theory Word_Count
  imports Word_Rank Ds_Iter
begin

text \<open>
  The counters of the program: its globals stand for a list of hashes with their numbers of
  occurrences (\<open>counting\<close>), and counting one word is \<open>tally\<close> on that list.
\<close>

section \<open>The counters\<close>

text \<open>
  The abstract value of the program's globals: the distinct hashes of the words seen, in order of
  first occurrence, each with the number of its occurrences.
\<close>

fun tally :: "(uint \<times> nat) list \<Rightarrow> uint \<Rightarrow> (uint \<times> nat) list" where
  "tally [] k = [(k, 1)]"
| "tally ((k', n) # r) k = (if k' = k then (k', Suc n) # r else (k', n) # tally r k)"

lemma tally_new: "k \<notin> fst ` set cnt \<Longrightarrow> tally cnt k = cnt @ [(k, 1)]"
  by (induction cnt) auto

lemma tally_seen:
  "distinct (map fst cnt) \<Longrightarrow> i < length cnt \<Longrightarrow> fst (cnt ! i) = k \<Longrightarrow>
   tally cnt k = cnt[i := (k, Suc (snd (cnt ! i)))]"
proof (induction cnt arbitrary: i)
  case (Cons p cnt)
  show ?case
  proof (cases i)
    case (Suc j)
    then have "cnt ! j \<in> set cnt" "fst (cnt ! j) = k" using Cons.prems by simp_all
    then have "fst p \<noteq> k" using Cons.prems(1) by auto
    then show ?thesis using Suc Cons by (cases p) auto
  qed (use Cons in \<open>cases p; auto\<close>)
qed simp

lemma fst_tally: "fst ` set (tally cnt k) = insert k (fst ` set cnt)"
  by (induction cnt k rule: tally.induct) auto

lemma distinct_tally: "distinct (map fst cnt) \<Longrightarrow> distinct (map fst (tally cnt k))"
proof (induction cnt k rule: tally.induct)
  case (2 k' n r k)
  then show ?case using fst_tally [of r k] by (auto simp flip: set_map)
qed simp

lemma length_tally: "length cnt \<le> length (tally cnt k)"
  by (induction cnt k rule: tally.induct) auto

lemma length_foldl_tally: "length cnt \<le> length (foldl tally cnt ks)"
proof (induction ks arbitrary: cnt)
  case (Cons k ks)
  then show ?case using length_tally [of cnt k] le_trans by fastforce
qed simp

lemma sum_tally: "sum_list (map snd (tally cnt k)) = Suc (sum_list (map snd cnt))"
  by (induction cnt k rule: tally.induct) auto

lemma sum_foldl_tally: "sum_list (map snd (foldl tally cnt ks)) = sum_list (map snd cnt) + length ks"
  by (induction ks arbitrary: cnt) (simp_all add: sum_tally)

lemma tally_positive: "0 \<notin> snd ` set cnt \<Longrightarrow> 0 \<notin> snd ` set (tally cnt k)"
  by (induction cnt k rule: tally.induct) auto

lemma foldl_tally_positive: "0 \<notin> snd ` set cnt \<Longrightarrow> 0 \<notin> snd ` set (foldl tally cnt ks)"
  by (induction ks arbitrary: cnt) (simp_all add: tally_positive)

lemma foldl_tally_keys: "fst ` set (foldl tally cnt ks) = fst ` set cnt \<union> set ks"
  by (induction ks arbitrary: cnt) (auto simp: fst_tally)

lemma foldl_tally_distinct: "distinct (map fst cnt) \<Longrightarrow> distinct (map fst (foldl tally cnt ks))"
  by (induction ks arbitrary: cnt) (simp_all add: distinct_tally)

text \<open>The i-th counter of the array, as the map stores it.\<close>

definition counter :: "globals \<Rightarrow> nat \<Rightarrow> mem_handle" where
  "counter g i = mem_handle_from_ptr (uint_ptr (h_data (counts g)) i) sizeof_uint"

definition area :: "globals \<Rightarrow> mem_handle \<Rightarrow> 64 word set" where
  "area g eh = {pbase (h_data (counts g)), pbase (h_data (mymap g)), pbase (h_data eh)}"

definition counters ::
  "globals \<Rightarrow> mem_handle \<Rightarrow> (uint \<times> nat) list \<Rightarrow> cmap \<Rightarrow> map_entry list \<Rightarrow> uint option list \<Rightarrow> cstate \<Rightarrow> bool" where
  "counters g eh cnt m es ws s \<longleftrightarrow>
     map_ok MEM_ALLOCATOR_PLAIN (mymap g) m es s \<and> entries_mh m = eh \<and> table_size m = 32 \<and>
     entry_count m = words_seen g \<and> unat (words_seen g) = length cnt \<and> length cnt \<le> 16 \<and>
     h_alloc (counts g) = MEM_ALLOCATOR_PLAIN \<and> h_size (counts g) = 512 \<and>
     uints_at (h_data (counts g)) ws s \<and> length ws = 128 \<and>
     pbase (h_data (counts g)) \<notin> {pbase (h_data (mymap g)), pbase (h_data eh)} \<and>
     distinct (map fst cnt) \<and>
     (\<forall>k. k \<notin> fst ` set cnt \<longrightarrow> lookup es k = None) \<and>
     (\<forall>i < length cnt. lookup es (fst (cnt ! i)) = Some (counter g i) \<and> ws ! i = Some (of_nat (snd (cnt ! i)))) \<and>
     filled es"

definition counting :: "globals \<Rightarrow> mem_handle \<Rightarrow> (uint \<times> nat) list \<Rightarrow> cstate \<Rightarrow> bool" where
  "counting g eh cnt s \<longleftrightarrow> (\<exists>m es ws. counters g eh cnt m es ws s)"

lemma countersD:
  assumes "counters g eh cnt m es ws s"
  shows "map_ok MEM_ALLOCATOR_PLAIN (mymap g) m es s" "entries_mh m = eh" "table_size m = 32"
    "entry_count m = words_seen g" "unat (words_seen g) = length cnt" "length cnt \<le> 16"
    "h_alloc (counts g) = MEM_ALLOCATOR_PLAIN" "h_size (counts g) = 512"
    "uints_at (h_data (counts g)) ws s" "length ws = 128"
    "pbase (h_data (counts g)) \<notin> {pbase (h_data (mymap g)), pbase (h_data eh)}" "distinct (map fst cnt)"
    "\<And>k. k \<notin> fst ` set cnt \<Longrightarrow> lookup es k = None"
    "\<And>i. i < length cnt \<Longrightarrow> lookup es (fst (cnt ! i)) = Some (counter g i)"
    "\<And>i. i < length cnt \<Longrightarrow> ws ! i = Some (of_nat (snd (cnt ! i)))"
    "filled es"
  using assms unfolding counters_def by blast+

lemma uints_at_base: "uints_at p ws s \<Longrightarrow> pbase p \<noteq> 0 \<and> p \<noteq> NULL \<and> heap s (pbase p) \<noteq> None"
  by (auto simp: uints_at_def block_at_Inr_iff)

lemma counting_frame:
  assumes "counting g eh cnt s" and "\<forall>a \<in> area g eh. heap t a = heap s a"
  shows "counting g eh cnt t"
proof -
  obtain m es ws where c: "counters g eh cnt m es ws s" using assms(1) by (auto simp: counting_def)
  note C = countersD [OF c]
  have "map_ok MEM_ALLOCATOR_PLAIN (mymap g) m es t"
    using assms(2) C(2) by (intro map_ok_foot [OF C(1)]) (auto simp: foot_def area_def)
  moreover have "uints_at (h_data (counts g)) ws t"
    using assms(2) by (intro uints_at_frame [OF C(9)]) (simp add: area_def)
  ultimately have "counters g eh cnt m es ws t" using c by (simp add: counters_def)
  then show ?thesis by (auto simp: counting_def)
qed

definition word_hash :: "byte list \<Rightarrow> uint" where
  "word_hash cs = foldl fnv_step FNV_OFFSET (0 # cs)"


text \<open>A word that was seen before: its counter goes up.\<close>

lemma count_word_seen:
  assumes c: "counting g eh cnt s" and word: "str_rep word cs s" "length cs < 2 ^ 32"
    and seen: "word_hash cs \<in> fst ` set cnt"
  shows "runs (count_word tb g word) s (\<lambda>g' t. g' = g \<and> counting g eh (tally cnt (word_hash cs)) t \<and> frame (area g eh) s t)"
proof -
  obtain m es ws where C0: "counters g eh cnt m es ws s" using c by (auto simp: counting_def)
  note C = countersD [OF C0]
  let ?k = "word_hash cs" and ?p = "h_data (counts g)"
  obtain i where i: "i < length cnt" "fst (cnt ! i) = ?k" using seen by (auto simp: in_set_conv_nth)
  let ?ws = "ws[i := Some (of_nat (snd (cnt ! i)) + 1)]" and ?n = "of_nat (snd (cnt ! i)) :: uint"
  let ?t = "set_content ?p (Uints ?ws) s"
  have lt: "i < length ws" using i C(6,10) by simp
  have get: "map_get_str tb (mymap g) word s = Inr (counter g i, s)"
    using plain.map_is_valid_exec [OF map_okD(1) [OF C(1)], of tb] hash_str_exec [OF word, of tb]
      plain.do_get_refines [OF C(1), of tb ?k] C(14) [OF i(1)] i(2)
    by (simp add: map_get_str_def cbind_apply word_hash_def)
  have nn: "?p \<noteq> NULL" using uints_at_base [OF C(9)] by simp
  then have valid: "mem_is_valid (counter g i)" by (simp add: mem_is_valid_def counter_def mem_handle_from_ptr_def)
  have p: "mem_p tb (counter g i) = ret (uint_ptr ?p i)"
    by (simp add: counter_def mem_handle_from_ptr_def mem_p_transparent)
  have run: "count_word tb g word s = Inr (g, ?t)"
    using lt C(15) [OF i(1)]
    by (simp add: count_word_def cbind_apply get valid p load_uint_exec [OF C(9)] store_uint_exec [OF C(9)])
  have tl: "tally cnt ?k = cnt[i := (?k, Suc (snd (cnt ! i)))]" by (rule tally_seen [OF C(12) i])
  have fst: "map fst (tally cnt ?k) = map fst cnt"
    unfolding tl map_update using i by simp (metis list_update_id nth_map)
  have "map_ok MEM_ALLOCATOR_PLAIN (mymap g) m es ?t"
    using C(2,11) by (intro map_ok_foot [OF C(1)]) (auto simp: foot_def heap_set_content)
  moreover have "uints_at ?p ?ws ?t" by (rule uints_at_set [OF C(9)])
  moreover have "fst (tally cnt ?k ! j) = fst (cnt ! j) \<and> ?ws ! j = Some (of_nat (snd (tally cnt ?k ! j)))"
    if "j < length cnt" for j
    using that i C(15) lt by (cases "j = i") (auto simp: tl add.commute)
  moreover have "length (tally cnt ?k) = length cnt" "fst ` set (tally cnt ?k) = fst ` set cnt"
    using i by (simp add: tl) (metis fst list.set_map)
  ultimately have "counters g eh (tally cnt ?k) m es ?ws ?t"
    unfolding counters_def using C(2-8,10-14,16) fst by auto
  then have "counting g eh (tally cnt ?k) ?t" by (auto simp: counting_def)
  then show ?thesis by (auto simp: runs_def run area_def intro!: frame_set_content)
qed

lemma counter_p [simp]:
  "mem_p tb (counter g i) = ret (uint_ptr (h_data (counts g)) i)"
  by (simp add: counter_def mem_handle_from_ptr_def mem_p_transparent)

lemma counter_cong [simp]: "counter (g\<lparr>words_seen := n\<rparr>) i = counter g i" "area (g\<lparr>words_seen := n\<rparr>) eh = area g eh"
  by (simp_all add: counter_def area_def)

lemma filled_mono: "filled ys \<Longrightarrow> set xs \<subseteq> set ys \<Longrightarrow> filled xs"
  unfolding filled_def by (meson subsetD)

lemma count_word_new:
  assumes c: "counting g eh cnt s" and word: "str_rep word cs s" "length cs < 2 ^ 32"
    and new: "word_hash cs \<notin> fst ` set cnt" and nz: "word_hash cs \<noteq> 0" and room: "length cnt < 16"
    and apart: "pbase (h_data word) \<notin> area g eh"
  shows "runs (count_word tb g word) s (\<lambda>g' t. g' = g\<lparr>words_seen := words_seen g + 1\<rparr> \<and>
    counting g' eh (tally cnt (word_hash cs)) t \<and> frame (area g eh) s t)"
proof -
  obtain m es ws where C0: "counters g eh cnt m es ws s" using c by (auto simp: counting_def)
  note C = countersD [OF C0]
  let ?k = "word_hash cs" and ?p = "h_data (counts g)" and ?n = "length cnt"
  let ?g = "g\<lparr>words_seen := words_seen g + 1\<rparr>"
  have lk: "lookup es ?k = None" using new by (rule C(13))
  have valid: "map_is_valid tb (mymap g) s = Inr (True, s)"
    by (rule plain.map_is_valid_exec [OF map_okD(1) [OF C(1)]])
  have hash: "hash_str tb word s = Inr (?k, s)" using hash_str_exec [OF word, of tb] by (simp add: word_hash_def)
  have get: "map_get_str tb (mymap g) word s = Inr (null_handle, s)"
    using valid hash plain.do_get_refines [OF C(1), of tb ?k] lk by (simp add: map_get_str_def cbind_apply)
  have nn: "?p \<noteq> NULL" using uints_at_base [OF C(9)] by simp
  have room': "lookup es ?k = None \<Longrightarrow> 2 * (unat (entry_count m) + 1) \<le> unat (table_size m)"
    using C(3-5) room by simp
  obtain t m' es' where set: "do_set tb (mymap g) ?k (counter g ?n) s = Inr (True, t)"
      and fr: "frame (foot (mymap g) m) s t"
      and M: "map_ok MEM_ALLOCATOR_PLAIN (mymap g) m' es' t" "lookup es' = (lookup es)(?k \<mapsto> counter g ?n)"
        "entries_mh m' = eh" "table_size m' = 32" "entry_count m' = words_seen g + 1"
        "set es' \<subseteq> insert \<lparr>key_hash = ?k, value_handle = counter g ?n\<rparr> (set es)"
    using plain.do_set_slots [OF C(1) nz room', of tb "counter g ?n"] C(2-4) lk by (auto elim!: runsE)
  have up: "unat (words_seen g + 1) = Suc ?n"
    using room C(5) by (intro trans [OF unat_next [of _ 16]]) simp_all
  have mine: "foot (mymap g) m \<subseteq> area g eh" using C(2) by (auto simp: foot_def area_def)
  have at: "uints_at ?p ws t"
    using fr C(2,11) by (intro uints_at_frame [OF C(9)]) (auto simp: frame_def foot_def)
  have lt: "?n < length ws" using room C(10) by simp
  let ?ws = "ws[?n := Some 1]"
  let ?t = "set_content ?p (Uints ?ws) t"
  have small: "\<not> h_size (counts g) < ucast (words_seen g + 1)"
    using C(8) up room by (simp add: word_less_nat_alt)
  have p: "mem_p tb (counts g) = ret ?p" using C(7) by (simp add: mem_p_transparent)
  have handle: "mem_handle_from_ptr (uint_ptr ?p ?n) sizeof_uint = counter g ?n" by (simp add: counter_def)
  have put: "map_set_str tb (mymap g) word (counter g ?n) s = Inr (True, t)"
    using valid hash set nn by (simp add: map_set_str_def cbind_apply)
  have run: "count_word tb g word s = Inr (?g, ?t)"
    using small C(5) nn
    by (simp add: count_word_def cbind_apply get Let_def p handle put store_uint_exec [OF at lt] mem_is_valid_def null_handle_def)
  have tl: "tally cnt ?k = cnt @ [(?k, 1)]" by (rule tally_new [OF new])
  have "map_ok MEM_ALLOCATOR_PLAIN (mymap g) m' es' ?t"
    using M(3) C(11) by (intro map_ok_foot [OF M(1)]) (auto simp: foot_def heap_set_content)
  moreover have "uints_at ?p ?ws ?t" by (rule uints_at_set [OF at])
  moreover have "lookup es' (fst (tally cnt ?k ! i)) = Some (counter g i) \<and> ?ws ! i = Some (of_nat (snd (tally cnt ?k ! i)))"
    if "i < Suc ?n" for i
  proof (cases "i = ?n")
    case False
    then have "i < ?n" using that by simp
    moreover from this have "fst (cnt ! i) \<noteq> ?k" using new by (metis image_eqI nth_mem)
    ultimately show ?thesis using C(14,15) by (simp add: tl nth_append M(2))
  qed (use lt in \<open>simp add: tl M(2)\<close>)
  moreover have "filled es'"
  proof -
    have "filled (\<lparr>key_hash = ?k, value_handle = counter g ?n\<rparr> # es)"
      using C(16) nz nn by (simp add: filled_def counter_def mem_handle_from_ptr_def)
    then show ?thesis using M(6) by (elim filled_mono) simp
  qed
  ultimately have "counters ?g eh (tally cnt ?k) m' es' ?ws ?t"
    unfolding counters_def using M C(7-13) up room new by (auto simp: tl)
  then have "counting ?g eh (tally cnt ?k) ?t" by (auto simp: counting_def)
  moreover have "frame (area g eh) s ?t"
    using frame_mono [OF fr mine] by (auto simp: area_def)
  ultimately show ?thesis by (simp add: runs_def run)
qed

end
