(* ===== verification/Word_Lines.thy ===== *)
theory Word_Lines
  imports Word_Count Ds_Success Ds_Split
begin

text \<open>
  process_line: it counts the words of a line in order as long as there are at most sixteen
  different ones, and it faults on the seventeenth.
\<close>

lemma tally_room: "length (tally cnt k) \<le> 16 \<Longrightarrow> k \<notin> fst ` set cnt \<Longrightarrow> length cnt < 16"
  by (simp add: tally_new)

text \<open>The fields that counting leaves alone.\<close>

definition same_arrays :: "globals \<Rightarrow> globals \<Rightarrow> bool" where
  "same_arrays g g' \<longleftrightarrow> counts g' = counts g \<and> mymap g' = mymap g"

lemma same_arrays_area: "same_arrays g g' \<Longrightarrow> area g' eh = area g eh"
  by (simp add: same_arrays_def area_def)

definition counted_to ::
  "globals \<Rightarrow> mem_handle \<Rightarrow> (uint \<times> nat) list \<Rightarrow> cstate \<Rightarrow> globals \<Rightarrow> cstate \<Rightarrow> bool" where
  "counted_to g eh cnt s g' t \<longleftrightarrow> counting g' eh cnt t \<and> frame (area g eh) s t \<and> same_arrays g g'"

lemma counted_to_trans:
  "counted_to g eh cnt s g' t \<Longrightarrow> counted_to g' eh cnt' t g'' u \<Longrightarrow> counted_to g eh cnt' s g'' u"
  by (auto simp: counted_to_def same_arrays_def area_def dest: frame_trans)

lemma count_word_runs:
  assumes "counting g eh cnt s" and "str_rep word cs s" and "length cs < 2 ^ 32"
    and "word_hash cs \<noteq> 0" and "length (tally cnt (word_hash cs)) \<le> 16"
    and "pbase (h_data word) \<notin> area g eh"
  shows "runs (count_word tb g word) s (counted_to g eh (tally cnt (word_hash cs)) s)"
proof (cases "word_hash cs \<in> fst ` set cnt")
  case True
  show ?thesis
    by (rule runs_conseq [OF count_word_seen [OF assms(1-3) True]]) (auto simp: counted_to_def same_arrays_def)
next
  case False
  show ?thesis
    by (rule runs_conseq [OF count_word_new [OF assms(1-3) False assms(4) tally_room [OF assms(5) False] assms(6)]])
      (auto simp: counted_to_def same_arrays_def)
qed

section \<open>The words of a line\<close>

text \<open>The words are counted one by one; sixteen different ones at most, none with the hash 0.\<close>

definition countable :: "(uint \<times> nat) list \<Rightarrow> byte list list \<Rightarrow> bool" where
  "countable cnt words \<longleftrightarrow> 0 \<notin> word_hash ` set words \<and> length (foldl tally cnt (map word_hash words)) \<le> 16"

lemma countable_Cons:
  "countable cnt (w # ws) \<Longrightarrow> word_hash w \<noteq> 0 \<and> length (tally cnt (word_hash w)) \<le> 16 \<and> countable (tally cnt (word_hash w)) ws"
  using length_foldl_tally [of "tally cnt (word_hash w)" "map word_hash ws"] by (auto simp: countable_def)

lemma load_uint_supplied: "evolves supplied (load_uint p)" "evolves supplied (store_uint p v)"
  unfolding load_uint_def store_uint_def by (rule blocks_answered.load_law blocks_answered.store_law)+

lemma count_word_supplied: "blocks_answered.ops_stable tb \<Longrightarrow> evolves supplied (count_word tb g word)"
  by (auto simp: count_word_def Let_def intro!: blocks_answered.base blocks_answered.mem_ops
      blocks_answered.map_public load_uint_supplied)

lemma process_loop_supplied: "blocks_answered.ops_stable tb \<Longrightarrow> evolves supplied (process_loop tb f g line word)"
  by (induction f arbitrary: g line word)
    (auto intro!: blocks_answered.base blocks_answered.str_split_whitespace_law count_word_supplied)

lemma process_line_supplied: "blocks_answered.ops_stable tb \<Longrightarrow> evolves supplied (process_line tb g line)"
  unfolding process_line_def by (rule process_loop_supplied)

lemma process_loop_null [simp]: "process_loop tb (Suc f) g null_handle word s = Inr (g, s)"
  by (simp add: str_is_valid_def mem_is_valid_def null_handle_def)

text \<open>A line the loop can take apart: its first byte is read even when it is empty.\<close>

definition line_at :: "mem_handle \<Rightarrow> byte list \<Rightarrow> cstate \<Rightarrow> bool" where
  "line_at line cs s \<longleftrightarrow> str_rep line cs s \<and> plain_text cs \<and> (\<exists>c. load_byte (h_data line) s = Inr (c, s) \<and> c < 128)"

lemma line_at_sub:
  assumes line: "line_at line cs s" and rest: "after_word cs \<noteq> []"
    and keep: "heap t (pbase (h_data line)) = heap s (pbase (h_data line))"
  shows "line_at (mem_handle_from_ptr (ptr_add (h_data line) (length cs - length (after_word cs)))
    (of_nat (length (after_word cs)))) (after_word cs) t"
proof -
  let ?a = "length (after_word cs)"
  let ?r = "mem_handle_from_ptr (ptr_add (h_data line) (length cs - ?a)) (of_nat ?a)"
  have rep: "str_rep line cs s" and asc: "plain_text cs" using line by (simp_all add: line_at_def)
  have le: "?a \<le> length cs" using split_length [of cs] by simp
  have "length cs - ?a = length (lead cs) + length (first_word cs) + length (word_gap cs)"
    using split_length [of cs] by linarith
  then have after: "drop (length cs - ?a) cs = after_word cs" by (metis after_word_drop)
  have "str_rep ?r (take ?a (drop (length cs - ?a) cs)) s"
    using le asc by (intro str_rep_sub [OF rep]) (simp_all add: plain_text_def unat_of_nat_size)
  then have "str_rep ?r (after_word cs) s" by (simp add: after)
  then have r: "str_rep ?r (after_word cs) t" using keep by (elim str_rep_frame) (simp add: mem_handle_from_ptr_def)
  have pt: "plain_text (after_word cs)" by (rule plain_text_after [OF asc])
  then show ?thesis
    using r load_first_byte [OF str_repD(2) [OF r] rest] rest by (auto simp: line_at_def plain_text_def)
qed

lemma process_loop_blank:
  assumes "line_at line cs s" and "first_word cs = []"
  shows "process_loop tb (Suc (Suc f)) g line word s = Inr (g, s)"
proof -
  obtain c0 where line: "str_rep line cs s" "plain_text cs" "load_byte (h_data line) s = Inr (c0, s)" "c0 < 128"
    using assms(1) by (auto simp: line_at_def)
  note split = str_split_whitespace_exec [OF line(1) _ _ line(3,4), of tb word]
  have "str_is_valid line" using line(1) by (auto simp: str_is_valid_def)
  moreover have "after_word cs = []" using assms(2) by (simp add: split_words_none)
  ultimately show ?thesis
    using split line(2) assms(2)
    by (simp add: plain_text_def cbind_apply mem_handle_from_ptr_def process_loop_null [simplified process_loop.simps])
qed

lemma process_loop_step:
  assumes line: "line_at line cs s" and word: "first_word cs \<noteq> []"
  obtains w rest where "process_loop tb (Suc fuel) g line word s =
      (case count_word tb g w s of Inl e \<Rightarrow> Inl e | Inr (g', t) \<Rightarrow> process_loop tb fuel g' rest w t)"
    and "str_rep w (first_word cs) s" and "pbase (h_data w) = pbase (h_data line)"
    and "after_word cs = [] \<Longrightarrow> rest = null_handle"
    and "after_word cs \<noteq> [] \<Longrightarrow> pbase (h_data rest) = pbase (h_data line) \<and>
      (\<forall>t. heap t (pbase (h_data line)) = heap s (pbase (h_data line)) \<longrightarrow> line_at rest (after_word cs) t)"
proof -
  obtain c0 where rep: "str_rep line cs s" and asc: "plain_text cs"
      and c0: "load_byte (h_data line) s = Inr (c0, s)" "c0 < 128"
    using line by (auto simp: line_at_def)
  have ascii: "\<forall>c \<in> set cs. c < 128" and small: "length cs < 2 ^ 32" using asc by (simp_all add: plain_text_def)
  let ?w = "mem_handle_from_ptr (ptr_add (h_data line) (length (lead cs))) (of_nat (length (first_word cs)))"
  let ?rest = "if after_word cs = [] then null_handle
      else mem_handle_from_ptr (ptr_add (h_data line) (length cs - length (after_word cs))) (of_nat (length (after_word cs)))"
  have split: "str_split_whitespace_pop tb line word s = Inr ((?rest, ?w), s)"
    by (rule str_split_whitespace_exec [OF rep small ascii c0])
  have valid: "str_is_valid line" using rep by (auto simp: str_is_valid_def)
  have lw: "length (lead cs) + length (first_word cs) \<le> length cs" using split_length [of cs] by simp
  then have uw: "unat (of_nat (length (first_word cs)) :: size_t) = length (first_word cs)"
    using small by (intro unat_of_nat_size) simp
  have "str_rep ?w (take (length (first_word cs)) (drop (length (lead cs)) cs)) s"
    by (rule str_rep_sub [OF rep lw uw])
  moreover have "take (length (first_word cs)) (drop (length (lead cs)) cs) = first_word cs"
    by (subst (3) split_parts) simp
  ultimately have w: "str_rep ?w (first_word cs) s" by simp
  have size: "0 < h_size ?w" using word uw by (simp add: mem_handle_from_ptr_def word_gt_0 word_unat_eq_iff)
  have "process_loop tb (Suc fuel) g line word s =
      (case count_word tb g ?w s of Inl e \<Rightarrow> Inl e | Inr (g', t) \<Rightarrow> process_loop tb fuel g' ?rest ?w t)"
    using valid split size by (simp add: cbind_apply)
  then show thesis
    using w
    by (rule that) (simp_all add: mem_handle_from_ptr_def line_at_sub [OF line, unfolded mem_handle_from_ptr_def])
qed

lemma process_loop_runs:
  assumes "counting g eh cnt s" and "line_at line cs s" and "countable cnt (split_words cs)"
    and "pbase (h_data line) \<notin> area g eh" and "length cs + 2 \<le> fuel"
  shows "runs (process_loop tb fuel g line word) s (counted_to g eh (foldl tally cnt (map word_hash (split_words cs))) s)"
  using assms
proof (induction fuel arbitrary: g cnt s line cs word)
  case (Suc fuel)
  obtain f where fuel: "fuel = Suc f" using Suc.prems(5) by (cases fuel) auto
  show ?case
  proof (cases "first_word cs = []")
    case True
    then show ?thesis
      using process_loop_blank [OF Suc.prems(2) True] Suc.prems(1) split_words_none [OF True] fuel
      by (simp add: runs_def counted_to_def same_arrays_def del: process_loop.simps)
  next
    case False
    let ?c = "tally cnt (word_hash (first_word cs))"
    have words: "split_words cs = first_word cs # split_words (after_word cs)" using False by (simp add: split_words.simps)
    note able = countable_Cons [OF Suc.prems(3) [unfolded words]]
    obtain w rest where step: "process_loop tb (Suc fuel) g line word s =
          (case count_word tb g w s of Inl e \<Rightarrow> Inl e | Inr (g', t) \<Rightarrow> process_loop tb fuel g' rest w t)"
        and w: "str_rep w (first_word cs) s" "pbase (h_data w) = pbase (h_data line)"
        and rest: "after_word cs = [] \<Longrightarrow> rest = null_handle"
          "after_word cs \<noteq> [] \<Longrightarrow> pbase (h_data rest) = pbase (h_data line) \<and>
            (\<forall>t. heap t (pbase (h_data line)) = heap s (pbase (h_data line)) \<longrightarrow> line_at rest (after_word cs) t)"
      using process_loop_step [OF Suc.prems(2) False, of tb fuel g word] by blast
    have "length (first_word cs) < 2 ^ 32"
      using Suc.prems(2) split_length [of cs] by (simp add: line_at_def plain_text_def)
    then have "runs (count_word tb g w) s (counted_to g eh ?c s)"
      using Suc.prems(4) w able by (intro count_word_runs [OF Suc.prems(1) w(1)]) simp_all
    then obtain g' t where run: "count_word tb g w s = Inr (g', t)" and ct: "counted_to g eh ?c s g' t"
      by (rule runsE)
    show ?thesis
    proof (cases "after_word cs = []")
      case True
      moreover have "process_loop tb fuel g' null_handle w t = Inr (g', t)"
        unfolding fuel by (rule process_loop_null)
      ultimately show ?thesis
        using ct rest(1) run by (simp add: runs_def step words del: process_loop.simps)
    next
      case more: False
      have keep: "heap t (pbase (h_data line)) = heap s (pbase (h_data line))"
        using ct Suc.prems(4) by (simp add: counted_to_def frame_def)
      have "length (after_word cs) < length cs" using False by (intro after_word_shorter) auto
      then have "runs (process_loop tb fuel g' rest w) t (counted_to g' eh (foldl tally ?c (map word_hash (split_words (after_word cs)))) t)"
        using ct able rest(2) [OF more] keep Suc.prems(4,5)
        by (intro Suc.IH) (auto simp: counted_to_def same_arrays_area)
      then have "runs (process_loop tb fuel g' rest w) t (counted_to g eh (foldl tally cnt (map word_hash (split_words cs))) s)"
        by (rule runs_conseq) (simp add: words counted_to_trans [OF ct])
      then show ?thesis using run by (simp add: runs_def step del: process_loop.simps)
    qed
  qed
qed simp

lemma process_line_runs:
  assumes "counting g eh cnt s" and line: "line_at line cs s"
    and "countable cnt (split_words cs)" and "pbase (h_data line) \<notin> area g eh"
  shows "runs (process_line tb g line) s (counted_to g eh (foldl tally cnt (map word_hash (split_words cs))) s)"
  unfolding process_line_def
  by (rule process_loop_runs [OF assms]) (use line in \<open>auto simp: line_at_def dest: str_repD(3)\<close>)

section \<open>The seventeenth word\<close>

text \<open>
  The map asks for more room at its seventeenth entry, and do_set then writes to the table that
  the resize released.
\<close>

definition overflows :: "(uint \<times> nat) list \<Rightarrow> byte list list \<Rightarrow> bool" where
  "overflows cnt words \<longleftrightarrow> 0 \<notin> word_hash ` set words \<and> 16 < length (foldl tally cnt (map word_hash words))"

lemma overflows_Cons:
  "overflows cnt (w # ws) \<Longrightarrow> word_hash w \<noteq> 0 \<and> overflows (tally cnt (word_hash w)) ws"
  by (auto simp: overflows_def)

lemma tally_overflow: "length cnt \<le> 16 \<Longrightarrow> 16 < length (tally cnt k) \<Longrightarrow> length cnt = 16 \<and> k \<notin> fst ` set cnt"
proof (rule ccontr)
  assume a: "length cnt \<le> 16" "16 < length (tally cnt k)" and no: "\<not> (length cnt = 16 \<and> k \<notin> fst ` set cnt)"
  show False
  proof (cases "k \<in> fst ` set cnt")
    case True
    then have "length (tally cnt k) = length cnt" by (induction cnt k rule: tally.induct) auto
    then show False using a by simp
  qed (use a no in \<open>simp add: tally_new\<close>)
qed

lemma count_word_seventeenth:
  assumes c: "counting g eh cnt s" and word: "str_rep word cs s" "length cs < 2 ^ 32"
    and new: "word_hash cs \<notin> fst ` set cnt" and nz: "word_hash cs \<noteq> 0" and full: "length cnt = 16"
    and sup: "stocked (Suc n) s"
  shows "count_word tb g word s = Inl Dangling"
proof -
  obtain m es ws where C0: "counters g eh cnt m es ws s" using c by (auto simp: counting_def)
  note C = countersD [OF C0]
  let ?k = "word_hash cs" and ?p = "h_data (counts g)"
  have lk: "lookup es ?k = None" using new by (rule C(13))
  have rep: "map_rep MEM_ALLOCATOR_PLAIN (mymap g) m es s" by (rule map_okD(1) [OF C(1)])
  obtain i where i: "probe es ?k = Some i" using rep map_okD(3) [OF C(1)] by (rule map_rep_probe)
  have free: "key_hash (es ! i) = 0" using lk i by (simp add: lookup_empty_slot)
  have seen: "words_seen g = 16" using C(5) full by (simp add: word_unat_eq_iff)
  let ?s1 = "set_content (h_data (mymap g)) (Map_obj (m\<lparr>entry_count := entry_count m + 1\<rparr>)) s"
  obtain th t where al: "mem_alloc_clear tb MEM_ALLOCATOR_PLAIN (table_bytes (2 * table_size m)) ?s1 = Inr (th, t)"
    using plain.alloc_clear_law by (rule runsE)
  have "stocked (Suc n) ?s1" by (rule stocked_kept [OF supplied_set_content sup]) simp
  then have "h_data th \<noteq> NULL" using mem_alloc_clear_succeeds al by blast
  then have set: "do_set tb (mymap g) ?k v s = Inl Dangling" for v
    using C(3,4) seen by (intro plain.do_set_growth(1) [OF rep i free _ _ refl al]) simp_all
  have valid: "map_is_valid tb (mymap g) s = Inr (True, s)" by (rule plain.map_is_valid_exec [OF rep])
  have hash: "hash_str tb word s = Inr (?k, s)" using hash_str_exec [OF word, of tb] by (simp add: word_hash_def)
  have get: "map_get_str tb (mymap g) word s = Inr (null_handle, s)"
    using valid hash plain.do_get_refines [OF C(1), of tb ?k] lk by (simp add: map_get_str_def cbind_apply)
  have nn: "?p \<noteq> NULL" using uints_at_base [OF C(9)] by simp
  have p: "mem_p tb (counts g) = ret ?p" using C(7) by (simp add: mem_p_transparent)
  have put: "map_set_str tb (mymap g) word (counter g 16) s = Inl Dangling"
    using valid hash set nn by (simp add: map_set_str_def cbind_apply)
  then show ?thesis
    using C(8) seen
    by (simp add: count_word_def cbind_apply get Let_def p mem_is_valid_def null_handle_def
        counter_def [symmetric])
qed

lemma process_loop_overflow:
  assumes "counting g eh cnt s" and "line_at line cs s" and "overflows cnt (split_words cs)"
    and "pbase (h_data line) \<notin> area g eh" and "length cs + 2 \<le> fuel" and "stocked (Suc n) s"
    and tb: "blocks_answered.ops_stable tb"
  shows "process_loop tb fuel g line word s = Inl Dangling"
  using assms(1-6)
proof (induction fuel arbitrary: g cnt s line cs word)
  case (Suc fuel)
  have le: "length cnt \<le> 16"
    using Suc.prems(1) by (auto simp: counting_def dest: countersD(6))
  have ne: "split_words cs \<noteq> []" using Suc.prems(3) le by (auto simp: overflows_def)
  then have False': "first_word cs \<noteq> []" using split_words_none by blast
  let ?c = "tally cnt (word_hash (first_word cs))"
  have words: "split_words cs = first_word cs # split_words (after_word cs)" using False' by (simp add: split_words.simps)
  note over = overflows_Cons [OF Suc.prems(3) [unfolded words]]
  obtain w rest where step: "process_loop tb (Suc fuel) g line word s =
        (case count_word tb g w s of Inl e \<Rightarrow> Inl e | Inr (g', t) \<Rightarrow> process_loop tb fuel g' rest w t)"
      and w: "str_rep w (first_word cs) s" "pbase (h_data w) = pbase (h_data line)"
      and rest: "after_word cs \<noteq> [] \<Longrightarrow> pbase (h_data rest) = pbase (h_data line) \<and>
          (\<forall>t. heap t (pbase (h_data line)) = heap s (pbase (h_data line)) \<longrightarrow> line_at rest (after_word cs) t)"
    using process_loop_step [OF Suc.prems(2) False', of tb fuel g word] by blast
  have small: "length (first_word cs) < 2 ^ 32"
    using Suc.prems(2) split_length [of cs] by (simp add: line_at_def plain_text_def)
  show ?case
  proof (cases "16 < length ?c")
    case True
    then have "count_word tb g w s = Inl Dangling"
      using tally_overflow [OF le] over Suc.prems(6) by (intro count_word_seventeenth [OF Suc.prems(1) w(1) small]) auto
    then show ?thesis by (simp add: step del: process_loop.simps)
  next
    case False
    then have "runs (count_word tb g w) s (counted_to g eh ?c s)"
      using Suc.prems(4) w over by (intro count_word_runs [OF Suc.prems(1) w(1) small]) simp_all
    then obtain g' t where run: "count_word tb g w s = Inr (g', t)" and ct: "counted_to g eh ?c s g' t"
      by (rule runsE)
    have more: "after_word cs \<noteq> []" using over False by (auto simp: overflows_def)
    have keep: "heap t (pbase (h_data line)) = heap s (pbase (h_data line))"
      using ct Suc.prems(4) by (simp add: counted_to_def frame_def)
    have st: "stocked (Suc n) t"
      using ct evolvesD [OF count_word_supplied [OF tb] run]
      by (intro stocked_kept [OF _ Suc.prems(6)]) (simp_all add: counted_to_def frame_def)
    have "length (after_word cs) < length cs" using False' by (intro after_word_shorter) auto
    then have "process_loop tb fuel g' rest w t = Inl Dangling"
      using ct over rest [OF more] keep Suc.prems(4,5) st
      by (intro Suc.IH [of _ ?c]) (auto simp: counted_to_def same_arrays_area)
    then show ?thesis using run by (simp add: step del: process_loop.simps)
  qed
qed simp

lemma process_line_overflow:
  assumes "blocks_answered.ops_stable tb" and "counting g eh cnt s" and line: "line_at line cs s"
    and "overflows cnt (split_words cs)" and "pbase (h_data line) \<notin> area g eh" and "stocked (Suc n) s"
  shows "process_line tb g line s = Inl Dangling"
  unfolding process_line_def
  by (rule process_loop_overflow [OF assms(2-5) _ assms(6,1)]) (use line in \<open>auto simp: line_at_def dest: str_repD(3)\<close>)

end
