(* ===== verification/Word_Read.thy ===== *)
theory Word_Read
  imports Word_Lines
begin

text \<open>
  The loop over the characters of the file: the line being read is in the string buffer, the words
  of the lines before it are counted.
\<close>

section \<open>Lines\<close>

lemma split_words_strip: "split_words (dropWhile is_space cs) = split_words cs"
  by (subst (1 2) split_words.simps) (simp add: first_word_def after_word_def)

lemma split_words_spaces: "dropWhile is_space xs = [] \<Longrightarrow> split_words (xs @ ys) = split_words ys"
  by (metis split_words_strip dropWhile_append dropWhile_eq_Nil_conv)

lemma dropWhile_sep: "\<not> P c \<Longrightarrow> dropWhile P (xs @ c # ys) = dropWhile P xs @ c # ys"
  by (induction xs) auto

lemma takeWhile_sep: "\<not> P c \<Longrightarrow> takeWhile P (xs @ c # ys) = takeWhile P xs"
  by (induction xs) auto

lemma dropWhile_some: "dropWhile P xs \<noteq> [] \<Longrightarrow> dropWhile P (xs @ ys) = dropWhile P xs @ ys"
  by (induction xs) auto

lemma dropWhile_none: "dropWhile P xs = [] \<Longrightarrow> P c \<Longrightarrow> dropWhile P (xs @ [c]) = []"
  by (induction xs) (auto split: if_splits)

lemma split_words_append: "is_space c \<Longrightarrow> split_words (xs @ c # ys) = split_words xs @ split_words ys"
proof (induction xs rule: split_words.induct)
  case (1 xs)
  let ?d = "dropWhile is_space xs"
  show ?case
  proof (cases "first_word xs = []")
    case True
    then have "split_words xs = []" "?d = []" using split_words_none first_word_empty by auto
    moreover from this have "dropWhile is_space (xs @ [c]) = []" using "1.prems" by simp
    from split_words_spaces [OF this, of ys] have "split_words (xs @ c # ys) = split_words ys" by simp
    ultimately show ?thesis by simp
  next
    case False
    then obtain e es where d: "?d = e # es" by (cases ?d) (auto simp: first_word_def)
    have all: "dropWhile is_space (xs @ c # ys) = ?d @ c # ys" by (rule dropWhile_some) (simp add: d)
    let ?e = "dropWhile (\<lambda>c. \<not> is_space c) ?d"
    have fw: "first_word (xs @ c # ys) = first_word xs"
      using "1.prems" by (simp add: first_word_def all takeWhile_sep)
    have aw: "after_word (xs @ c # ys) = dropWhile is_space (?e @ c # ys)"
      using "1.prems" by (simp add: after_word_def all dropWhile_sep)
    have "split_words (after_word (xs @ c # ys)) = split_words (?e @ c # ys)"
      by (simp add: aw split_words_strip)
    also have "\<dots> = split_words (after_word xs) @ split_words ys"
    proof (cases "after_word xs = []")
      case True
      then have "dropWhile is_space (?e @ [c]) = []" using "1.prems" unfolding after_word_def by (intro dropWhile_none)
      from split_words_spaces [OF this, of ys] show ?thesis using True by simp
    next
      case more: False
      then have "dropWhile is_space (?e @ c # ys) = after_word xs @ c # ys"
        unfolding after_word_def by (rule dropWhile_some)
      then show ?thesis using "1.IH" [OF False "1.prems"] by (metis split_words_strip)
    qed
    finally show ?thesis
      using False fw by (subst (1 2) split_words.simps) simp
  qed
qed

section \<open>Reading\<close>

text \<open>The counters and the line that is being read, in blocks of their own.\<close>

definition reading :: "globals \<Rightarrow> mem_handle \<Rightarrow> (uint \<times> nat) list \<Rightarrow> mem_handle \<Rightarrow> byte list \<Rightarrow> cstate \<Rightarrow> bool" where
  "reading g eh cnt buf cs s \<longleftrightarrow> counting g eh cnt s \<and>
     (\<exists>b bs c0. strbuf_at buf b bs s \<and> bs \<noteq> [] \<and> unat (sb_length b) = length cs \<and>
        take (length cs) bs = map Some cs \<and> bs ! 0 = Some c0 \<and> c0 < 128 \<and>
        pbase (h_data buf) \<notin> area g eh \<and> data_base b \<notin> area g eh)"

lemma counting_live: "counting g eh cnt s \<Longrightarrow> a \<in> area g eh \<Longrightarrow> heap s a \<noteq> None"
proof -
  assume "counting g eh cnt s" and a: "a \<in> area g eh"
  then obtain m es ws where "counters g eh cnt m es ws s" by (auto simp: counting_def)
  note C = countersD [OF this]
  show ?thesis
    using a map_okD(1) [OF C(1)] uints_at_base [OF C(9)] C(2) by (auto simp: area_def map_rep_def owned_def)
qed

lemma reading_char_any:
  assumes r: "reading g eh cnt buf cs s" and c: "c < 128" and len: "length cs < 2 ^ 32"
  shows "runs (strbuf_concatenate_char tb buf c) s (\<lambda>ok t.
    (\<exists>u. grow_loop tb GROW_FUEL buf (h_data buf) 1 s = Inr (ok, u)) \<and>
    (ok \<longrightarrow> reading g eh cnt buf (cs @ [c]) t \<and> calls t \<le> Suc (calls s)))"
proof -
  obtain b bs c0 where ct: "counting g eh cnt s"
      and B: "strbuf_at buf b bs s" "bs \<noteq> []" "unat (sb_length b) = length cs" "take (length cs) bs = map Some cs"
      and first: "bs ! 0 = Some c0" "c0 < 128"
      and apart: "pbase (h_data buf) \<notin> area g eh" "data_base b \<notin> area g eh"
    using r unfolding reading_def by blast
  have one: "unat (1 :: size_t) = length [c]" by simp
  have small: "length cs + length [c] < 2 ^ 63" using len by simp
  have "source_at (Local_char c) [c] {e} t" for e t by simp
  from concatenate_runs [OF B one small this, of tb]
  obtain ok t u where run: "strbuf_concatenate_char tb buf c s = Inr (ok, t)"
      and grow: "grow_loop tb GROW_FUEL buf (h_data buf) 1 s = Inr (ok, u)"
      and o: "others_same {pbase (h_data buf), data_base b} s t" and post: "appended tb buf b bs cs [c] 1 1 s ok t"
    unfolding strbuf_concatenate_char_def by (auto simp: appended_def elim!: runsE)
  show ?thesis
  proof (cases ok)
    case True
    then obtain b' bs' k where b': "strbuf_at buf b' bs' t" "unat (sb_length b') = length (cs @ [c])"
        "take (length (cs @ [c])) bs' = map Some (cs @ [c])" "bs' \<noteq> []"
        and k: "doubled (length bs) (length cs + 1) (length bs') k" "calls t = calls s + k"
        and base: "data_base b' = data_base b \<or> heap s (data_base b') = None"
      using post by (auto simp: appended_def moved_def)
    have "length cs \<le> length bs" using strbuf_atD(6) [OF B(1)] B(3) by simp
    moreover have "1 \<le> length bs" using B(2) by (simp add: Suc_le_eq)
    ultimately have "length cs + 1 \<le> 2 * length bs" by simp
    then have "k \<le> 1" by (intro doubled_le [OF k(1)]) simp
    then have calls: "calls t \<le> Suc (calls s)" using k(2) by simp
    have keep: "\<forall>a \<in> area g eh. heap t a = heap s a"
    proof
      fix a assume "a \<in> area g eh"
      then have "heap s a \<noteq> None" "a \<notin> {pbase (h_data buf), data_base b}" using counting_live [OF ct] apart by auto
      then show "heap t a = heap s a" using o by (simp add: others_same_def)
    qed
    have "bs' ! 0 = Some ((cs @ [c]) ! 0)"
      using arg_cong [OF b'(3), of "\<lambda>xs. xs ! 0"] by (simp del: map_append)
    moreover have "(cs @ [c]) ! 0 < 128"
    proof (cases cs)
      case (Cons x xs)
      have "bs ! 0 = Some (cs ! 0)" using arg_cong [OF B(4), of "\<lambda>xs. xs ! 0"] Cons by simp
      then show ?thesis using first Cons by simp
    qed (use c in simp)
    moreover have "data_base b' \<notin> area g eh" using base apart(2) counting_live [OF ct] by metis
    ultimately show ?thesis
      using run grow calls counting_frame [OF ct keep] b' apart(1) unfolding runs_def reading_def
      by (simp del: length_append map_append) blast
  qed (use run grow in \<open>auto simp: runs_def\<close>)
qed

lemma reading_char:
  assumes tb: "blocks_answered.ops_stable tb" and r: "reading g eh cnt buf cs s" and c: "c < 128"
    and len: "length cs < 2 ^ 32" and sup: "stocked (Suc n) s"
  shows "runs (strbuf_concatenate_char tb buf c) s (\<lambda>ok t. ok \<and> reading g eh cnt buf (cs @ [c]) t \<and> stocked n t)"
proof -
  obtain b bs where B: "strbuf_at buf b bs s" "bs \<noteq> []" "unat (sb_length b) = length cs"
    using r unfolding reading_def by blast
  obtain ok t u where run: "strbuf_concatenate_char tb buf c s = Inr (ok, t)"
      and grow: "grow_loop tb GROW_FUEL buf (h_data buf) 1 s = Inr (ok, u)"
      and post: "ok \<Longrightarrow> reading g eh cnt buf (cs @ [c]) t \<and> calls t \<le> Suc (calls s)"
    using reading_char_any [OF r c len, of tb] by (auto elim!: runsE)
  have "unat (sb_length b) + unat (1 :: size_t) < 2 ^ LENGTH(64)" using B(3) len by simp
  then have need: "unat (sb_length b + 1) = length cs + 1" using B(3) by (simp add: unat_word_ariths)
  have "length cs \<le> length bs" using strbuf_atD(6) [OF B(1)] B(3) by simp
  moreover have "1 \<le> length bs" using B(2) by (simp add: Suc_le_eq)
  ultimately have two: "length cs + 1 \<le> 2 * length bs" by simp
  have sup1: "stocked 1 s" using sup by (rule stocked_mono) simp
  have ok: "ok"
    by (rule grow_loop_succeeds [OF tb B(1,2) need _ _ sup1 grow]) (use len two in simp_all)
  have "supplied s t"
    using evolvesD [OF blocks_answered.concatenate_law [OF tb]] run
    unfolding strbuf_concatenate_char_def by blast
  then have "stocked n t" using post [OF ok] by (intro stocked_kept [OF _ sup]) linarith+
  then show ?thesis using run ok post by (simp add: runs_def)
qed

text \<open>The line that strbuf_str returns can be taken apart, and counting its words keeps the buffer.\<close>

lemma reading_line:
  assumes r: "reading g eh cnt buf cs s" and plain: "plain_text cs"
  obtains line where "strbuf_str tb buf s = Inr (line, s)" and "unat (h_size line) = length cs"
    and "line_at line cs s" and "pbase (h_data line) \<notin> area g eh"
proof -
  obtain b bs c0 where B: "strbuf_at buf b bs s" "bs \<noteq> []" "unat (sb_length b) = length cs" "take (length cs) bs = map Some cs"
      and first: "bs ! 0 = Some c0" "c0 < 128" and apart: "data_base b \<notin> area g eh"
    using r unfolding reading_def by blast
  note D = strbuf_atD [OF B(1)]
  let ?line = "(sb_data b)\<lparr>h_size := sb_length b, h_alloc := MEM_ALLOCATOR_NOT_ALLOCATED\<rparr>"
  note str = strbuf_str_exec [OF B(1,3,4)]
  have "load_byte (h_data ?line) s = Inr (c0, s)"
    using D(9,10) B(2) first(1) by (auto simp: load_byte_def space_at_def load_Inr_iff)
  then have "line_at ?line cs s" using str(2) plain first(2) by (auto simp: line_at_def)
  then show thesis by (intro that [of ?line] str(1)) (use B(3) apart in \<open>simp_all add: data_base_def\<close>)
qed

lemma reading_counted:
  assumes r: "reading g eh cnt buf cs s" and to: "counted_to g eh cnt' s g' t"
  shows "reading g' eh cnt' buf cs t"
proof -
  obtain b bs c0 where B: "strbuf_at buf b bs s" "bs \<noteq> []" "unat (sb_length b) = length cs" "take (length cs) bs = map Some cs"
      and first: "bs ! 0 = Some c0" "c0 < 128"
      and apart: "pbase (h_data buf) \<notin> area g eh" "data_base b \<notin> area g eh"
    using r unfolding reading_def by blast
  have "strbuf_at buf b bs t"
    using to apart by (intro strbuf_at_frame [OF B(1)]) (simp_all add: counted_to_def frame_def data_base_def)
  moreover have "area g' eh = area g eh" using to by (intro same_arrays_area) (simp add: counted_to_def)
  ultimately show ?thesis using to B first apart unfolding reading_def counted_to_def by auto
qed

lemma counted_stocked:
  assumes "blocks_answered.ops_stable tb" and "process_line tb g line s = Inr (g', t)"
    and "counted_to g eh cnt' s g' t" and st: "stocked n s"
  shows "stocked n t"
  using assms(3) evolvesD [OF process_line_supplied [OF assms(1)] assms(2)]
  by (intro stocked_kept [OF _ st]) (simp_all add: counted_to_def frame_def)

lemma reading_reset:
  assumes r: "reading g eh cnt buf cs s" and sup: "stocked n s"
  shows "runs (strbuf_reset tb buf) s (\<lambda>_ t. reading g eh cnt buf [] t \<and> stocked n t)"
proof -
  obtain b bs c0 where ct: "counting g eh cnt s"
      and B: "strbuf_at buf b bs s" "bs \<noteq> []" "bs ! 0 = Some c0" "c0 < 128"
      and apart: "pbase (h_data buf) \<notin> area g eh" "data_base b \<notin> area g eh"
    using r unfolding reading_def by blast
  let ?b = "b\<lparr>sb_length := 0\<rparr>"
  let ?t = "set_content (h_data buf) (Strbuf_obj ?b) s"
  note reset = strbuf_reset_exec(1) [OF B(1), of tb] strbuf_reset_exec(2) [OF B(1)]
  have "counting g eh cnt ?t" using apart(1) by (intro counting_frame [OF ct]) (auto simp: heap_set_content)
  moreover have "stocked n ?t" by (rule stocked_kept [OF supplied_set_content sup]) simp
  moreover have "data_base ?b = data_base b" by (simp add: data_base_def)
  ultimately show ?thesis
    using reset B apart by (auto simp: runs_def reading_def intro!: exI [of _ ?b] exI [of _ bs])
qed

lemma countable_append:
  "countable cnt (xs @ ys) \<Longrightarrow> countable cnt xs \<and> countable (foldl tally cnt (map word_hash xs)) ys"
  using length_foldl_tally [of "foldl tally cnt (map word_hash xs)" "map word_hash ys"]
  by (auto simp: countable_def)

lemma overflows_append:
  "overflows cnt (xs @ ys) \<Longrightarrow> overflows cnt xs \<or>
   (countable cnt xs \<and> overflows (foldl tally cnt (map word_hash xs)) ys)"
  by (auto simp: countable_def overflows_def)

lemma newline_space [simp]: "is_space 10"
  by (simp add: is_space_def)

text \<open>One end of a line: its words are counted and the buffer is empty again.\<close>

definition end_of_line :: "table_ops \<Rightarrow> globals \<Rightarrow> mem_handle \<Rightarrow> globals prog" where
  "end_of_line tb g buf = cbind (strbuf_str tb buf) (\<lambda>line. cbind (process_line tb g line) (\<lambda>g.
     cbind (strbuf_reset tb buf) (\<lambda>_. ret g)))"

lemma read_loop_newline: "read_loop tb g buf (10 # cs) = cbind (end_of_line tb g buf) (\<lambda>g. read_loop tb g buf cs)"
  by (simp add: end_of_line_def cbind_assoc)

lemma end_of_line_runs:
  assumes tb: "blocks_answered.ops_stable tb" and r: "reading g eh cnt buf cs s" and plain: "plain_text cs"
    and able: "countable cnt (split_words cs)" and st: "stocked n s"
  shows "runs (end_of_line tb g buf) s (\<lambda>g' t. same_arrays g g' \<and> stocked n t \<and>
    reading g' eh (foldl tally cnt (map word_hash (split_words cs))) buf [] t)"
proof -
  obtain line where line: "strbuf_str tb buf s = Inr (line, s)" "line_at line cs s" "pbase (h_data line) \<notin> area g eh"
    using reading_line [OF r plain, of tb] by blast
  have ct: "counting g eh cnt s" using r by (simp add: reading_def)
  obtain g' t where run: "process_line tb g line s = Inr (g', t)"
      and to: "counted_to g eh (foldl tally cnt (map word_hash (split_words cs))) s g' t"
    using process_line_runs [OF ct line(2) able line(3), of tb] by (rule runsE)
  have same: "same_arrays g g'" using to by (simp add: counted_to_def)
  show ?thesis
    using reading_reset [OF reading_counted [OF r to] counted_stocked [OF tb run to st], of tb] same
    by (auto simp: end_of_line_def cbind_apply line(1) run runs_def split: sum.splits)
qed

lemma end_of_line_overflow:
  assumes tb: "blocks_answered.ops_stable tb" and r: "reading g eh cnt buf cs s" and plain: "plain_text cs"
    and over: "overflows cnt (split_words cs)" and st: "stocked (Suc n) s"
  shows "end_of_line tb g buf s = Inl Dangling"
proof -
  obtain line where line: "strbuf_str tb buf s = Inr (line, s)" "line_at line cs s" "pbase (h_data line) \<notin> area g eh"
    using reading_line [OF r plain, of tb] by blast
  have ct: "counting g eh cnt s" using r by (simp add: reading_def)
  have "process_line tb g line s = Inl Dangling" by (rule process_line_overflow [OF tb ct line(2) over line(3) st])
  then show ?thesis by (simp add: end_of_line_def cbind_apply line(1))
qed

text \<open>
  The loop over the characters: the words of the lines read so far are counted and the rest of the
  text is in the buffer.
\<close>

definition loop_post ::
  "globals \<Rightarrow> mem_handle \<Rightarrow> (uint \<times> nat) list \<Rightarrow> mem_handle \<Rightarrow> byte list \<Rightarrow> nat \<Rightarrow> globals \<Rightarrow> cstate \<Rightarrow> bool" where
  "loop_post g eh cnt buf cs n g' t \<longleftrightarrow> same_arrays g g' \<and> stocked n t \<and>
     (\<exists>dn rest. split_words cs = dn @ split_words rest \<and> plain_text rest \<and>
        reading g' eh (foldl tally cnt (map word_hash dn)) buf rest t)"

lemma loop_post_line:
  assumes "loop_post g' eh (foldl tally cnt (map word_hash (split_words cs))) buf input n g'' t" and "same_arrays g g'"
  shows "loop_post g eh cnt buf (cs @ 10 # input) n g'' t"
proof -
  obtain dn rest where d: "split_words input = dn @ split_words rest" "plain_text rest"
      "reading g'' eh (foldl tally (foldl tally cnt (map word_hash (split_words cs))) (map word_hash dn)) buf rest t"
      "same_arrays g' g''" "stocked n t"
    using assms(1) unfolding loop_post_def by blast
  then show ?thesis
    using assms(2) unfolding loop_post_def
    by (intro conjI exI [of _ "split_words cs @ dn"] exI [of _ rest]) (auto simp: split_words_append same_arrays_def)
qed

lemma read_loop_runs:
  assumes tb: "blocks_answered.ops_stable tb"
  shows "reading g eh cnt buf cs s \<Longrightarrow> stocked (length input + n) s \<Longrightarrow> plain_text (cs @ input) \<Longrightarrow>
    countable cnt (split_words (cs @ input)) \<Longrightarrow>
    runs (read_loop tb g buf input) s (loop_post g eh cnt buf (cs @ input) n)"
proof (induction input arbitrary: g cnt cs s)
  case Nil
  then show ?case by (auto simp: runs_def same_arrays_def loop_post_def intro!: exI [of _ "[]"] exI [of _ cs])
next
  case (Cons c input)
  show ?case
  proof (cases "c = 10")
    case False
    have c: "c < 128" "length cs < 2 ^ 32" using Cons.prems(3) by (simp_all add: plain_text_def)
    have "stocked (Suc (length input + n)) s" using Cons.prems(2) by simp
    from reading_char [OF tb Cons.prems(1) c this]
    obtain t where "strbuf_concatenate_char tb buf c s = Inr (True, t)" "reading g eh cnt buf (cs @ [c]) t" "stocked (length input + n) t"
      by (auto elim!: runsE)
    then show ?thesis using Cons.IH [of g cnt "cs @ [c]" t] Cons.prems(3,4) False by (simp add: runs_def cbind_apply)
  next
    case True
    let ?cnt = "foldl tally cnt (map word_hash (split_words cs))"
    have plain: "plain_text cs" "plain_text input" using Cons.prems(3) by (auto simp: plain_text_def)
    have able: "countable cnt (split_words cs)" "countable ?cnt (split_words input)"
      using countable_append Cons.prems(4) True by (simp_all add: split_words_append)
    obtain g' t where line: "end_of_line tb g buf s = Inr (g', t)" and same: "same_arrays g g'"
        and r: "reading g' eh ?cnt buf [] t" and "stocked (length (c # input) + n) t"
      using end_of_line_runs [OF tb Cons.prems(1) plain(1) able(1) Cons.prems(2)] by (auto elim!: runsE)
    then have "stocked (length input + n) t" by (auto elim: stocked_mono)
    from Cons.IH [OF r this] have "runs (read_loop tb g' buf input) t (loop_post g' eh ?cnt buf input n)"
      using plain(2) able(2) by simp
    then have "runs (read_loop tb g' buf input) t (loop_post g eh cnt buf (cs @ 10 # input) n)"
      by (rule runs_conseq) (rule loop_post_line [OF _ same])
    then show ?thesis by (simp add: True read_loop_newline runs_def cbind_apply line del: read_loop.simps)
  qed
qed

lemma read_loop_overflow:
  assumes tb: "blocks_answered.ops_stable tb"
  shows "reading g eh cnt buf cs s \<Longrightarrow> stocked (length input + Suc n) s \<Longrightarrow> plain_text (cs @ input) \<Longrightarrow>
    overflows cnt (split_words (cs @ input)) \<Longrightarrow>
    read_loop tb g buf input s = Inl Dangling \<or>
    (\<exists>g' t cnt' rest. read_loop tb g buf input s = Inr (g', t) \<and> reading g' eh cnt' buf rest t \<and> stocked (Suc n) t \<and>
      plain_text rest \<and> overflows cnt' (split_words rest))"
proof (induction input arbitrary: g cnt cs s)
  case Nil
  then show ?case by auto
next
  case (Cons c input)
  show ?case
  proof (cases "c = 10")
    case False
    have c: "c < 128" "length cs < 2 ^ 32" using Cons.prems(3) by (simp_all add: plain_text_def)
    have "stocked (Suc (length input + Suc n)) s" using Cons.prems(2) by simp
    from reading_char [OF tb Cons.prems(1) c this]
    obtain t where "strbuf_concatenate_char tb buf c s = Inr (True, t)" "reading g eh cnt buf (cs @ [c]) t" "stocked (length input + Suc n) t"
      by (auto elim!: runsE)
    then show ?thesis using Cons.IH [of g cnt "cs @ [c]" t] Cons.prems(3,4) False by (simp add: cbind_apply)
  next
    case True
    let ?cnt = "foldl tally cnt (map word_hash (split_words cs))"
    have plain: "plain_text cs" "plain_text input" using Cons.prems(3) by (auto simp: plain_text_def)
    have st: "stocked (Suc (length (c # input) + n)) s" using Cons.prems(2) by simp
    show ?thesis
    proof (cases "overflows cnt (split_words cs)")
      case over: True
      then show ?thesis
        using end_of_line_overflow [OF tb Cons.prems(1) plain(1) over st]
        by (simp add: True read_loop_newline cbind_apply del: read_loop.simps)
    next
      case fits: False
      have able: "countable cnt (split_words cs)" "overflows ?cnt (split_words input)"
        using overflows_append Cons.prems(4) fits True by (auto simp: split_words_append)
      obtain g' t where line: "end_of_line tb g buf s = Inr (g', t)"
          and r: "reading g' eh ?cnt buf [] t" and "stocked (length (c # input) + Suc n) t"
        using end_of_line_runs [OF tb Cons.prems(1) plain(1) able(1) Cons.prems(2)] by (auto elim!: runsE)
      then have "stocked (length input + Suc n) t" by (auto elim: stocked_mono)
      from Cons.IH [OF r this] show ?thesis
        using plain(2) able(2) line by (simp add: True read_loop_newline cbind_apply del: read_loop.simps)
    qed
  qed
qed

end
