(* ===== verification/Word_Report.thy ===== *)
theory Word_Report
  imports Word_Count "HOL-Library.Multiset"
begin

text \<open>
  The report: the loop over the map's values visits each counter once, so the number of words that
  have a given count comes out right whatever order the map keeps them in.
\<close>

section \<open>The words with a given count\<close>

lemma length_count_matches: "length fs = length ms \<Longrightarrow> length (count_matches c fs ms) = length fs"
  by (induction fs arbitrary: ms) (auto simp: Suc_length_conv length_Suc_conv)

lemma count_matches_nth:
  "length fs = length ms \<Longrightarrow> j < length fs \<Longrightarrow>
   count_matches c fs ms ! j = (if c = fs ! j then ms ! j + 1 else ms ! j)"
  by (induction fs ms arbitrary: j rule: list_induct2) (auto simp: nth_Cons split: nat.split)

definition matches :: "uint list \<Rightarrow> uint list \<Rightarrow> uint list" where
  "matches fs cs = map (\<lambda>f. of_nat (count_list cs f)) fs"

lemma count_matches_foldl:
  "length fs = length ms \<Longrightarrow> foldl (\<lambda>ms c. count_matches c fs ms) ms cs = map2 (+) ms (matches fs cs)"
proof (induction cs arbitrary: ms)
  case Nil
  then show ?case by (intro nth_equalityI) (simp_all add: matches_def)
next
  case (Cons c cs)
  then show ?case
    by (intro nth_equalityI) (auto simp: matches_def length_count_matches count_matches_nth add.assoc)
qed

lemma matches_from_zero: "foldl (\<lambda>ms c. count_matches c fs ms) (replicate (length fs) 0) cs = matches fs cs"
  by (simp add: count_matches_foldl) (intro nth_equalityI; simp add: matches_def)

lemma matches_mset: "mset xs = mset ys \<Longrightarrow> matches fs xs = matches fs ys"
  by (simp add: matches_def flip: count_mset)

text \<open>The loop over the map's values, as a fold over the numbers its handles lead to.\<close>

definition value_of :: "map_entry \<Rightarrow> cstate \<Rightarrow> uint" where
  "value_of e s = (case load_uint (h_data (value_handle e)) s of Inl _ \<Rightarrow> 0 | Inr (v, _) \<Rightarrow> v)"

lemma match_loop_exec:
  assumes rep: "map_rep MEM_ALLOCATOR_PLAIN mh m es s" and rd: "readable tb h_data es s"
    and ld: "\<And>e. e \<in> set es \<Longrightarrow> live h_data e \<Longrightarrow> load_uint (h_data (value_handle e)) s = Inr (value_of e s, s)"
  shows "length es - i < fuel \<Longrightarrow> i < length es \<Longrightarrow> live h_data (es ! i) \<Longrightarrow>
    match_loop tb fuel most least (iter_at mh es i) mm lm s =
      (let cs = map (\<lambda>e. value_of e s) (filter (live h_data) (drop i es))
       in Inr ((foldl (\<lambda>ms c. count_matches c most ms) mm cs, foldl (\<lambda>ms c. count_matches c least ms) lm cs), s))"
proof (induction fuel arbitrary: i mm lm)
  case (Suc fuel)
  let ?j = "next_from (live h_data) es (Suc i)" and ?v = "value_of (es ! i) s"
  have p: "mem_p tb (value_handle (es ! i)) s = Inr (h_data (value_handle (es ! i)), s)"
    using rd Suc.prems by (simp add: readable_def)
  have v: "load_uint (h_data (value_handle (es ! i))) s = Inr (?v, s)" using ld Suc.prems by simp
  have f: "filter (live h_data) (drop i es) = es ! i # filter (live h_data) (drop (Suc i) es)"
    using Suc.prems by (intro filter_drop_live)
  have step: "match_loop tb (Suc fuel) most least (iter_at mh es i) mm lm s =
      match_loop tb fuel most least (iter_at mh es ?j) (count_matches ?v most mm) (count_matches ?v least lm) s"
    using Suc.prems p v plain.map_next_value_iter_exec [OF rep rd Suc.prems(2)]
    by (simp add: cbind_apply map_iter_done_def map_iter_value_def iter_at_def [of _ _ i])
  have le: "Suc i \<le> ?j" by (simp add: next_from_def)
  show ?case
  proof (cases "?j < length es")
    case True
    then show ?thesis
      using Suc.IH [of ?j] Suc.prems next_from_live [of "live h_data" es "Suc i"] le
      by (simp add: step filter_next_from f Let_def del: match_loop.simps)
  next
    case False
    then have no: "filter (live h_data) (drop (Suc i) es) = []"
      using filter_next_from [of "live h_data" es "Suc i"] by simp
    have "0 < fuel" using Suc.prems by simp
    then obtain k where "fuel = Suc k" by (cases fuel) auto
    then have "match_loop tb fuel most least (iter_at mh es ?j) mm' lm' s = Inr ((mm', lm'), s)" for mm' lm'
      using False by (simp add: iter_at_def map_iter_done_def null_iter_def cbind_apply)
    then show ?thesis by (simp add: step f no Let_def del: match_loop.simps)
  qed
qed simp

section \<open>The report\<close>

lemma counter_inj: "counter g i = counter g j \<Longrightarrow> i = j"
  by (simp add: counter_def mem_handle_from_ptr_def uint_ptr_def ptr_add_def)

lemma counters_dom:
  assumes "counters g eh cnt m es ws s"
  shows "dom (lookup es) = fst ` set cnt"
proof (intro set_eqI iffI)
  note C = countersD [OF assms]
  fix k
  show "k \<in> fst ` set cnt" if "k \<in> dom (lookup es)" using C(13) [of k] that by (cases "k \<in> fst ` set cnt") auto
  assume "k \<in> fst ` set cnt"
  then obtain i where "i < length cnt" "fst (cnt ! i) = k" by (auto simp: in_set_conv_nth)
  then show "k \<in> dom (lookup es)" using C(14) [of i] by auto
qed

text \<open>The map's values are the handles of the counters, each once.\<close>

lemma counter_values:
  assumes c: "counters g eh cnt m es ws s"
  shows "mset (map value_handle (filter (live h_data) es)) = mset (map (counter g) [0..<length cnt])"
proof -
  note C = countersD [OF c]
  have ch: "chained es" by (rule map_okD(2) [OF C(1)])
  let ?vs = "map value_handle (filter (live h_data) es)"
  have "length ?vs = card (occupied es)"
    using filled_live [OF C(16)] by (simp add: occupied_def length_filter_conv_card)
  also have "\<dots> = card (fst ` set cnt)" by (simp flip: chained_card_dom [OF ch] add: counters_dom [OF c])
  also have "\<dots> = length cnt" using distinct_card [OF C(12)] by simp
  finally have len: "length ?vs = length cnt" .
  have "set ?vs = ran (lookup es)" using chained_ran [OF ch] filled_live [OF C(16)] by simp
  also have "\<dots> = counter g ` {0..<length cnt}"
  proof -
    have "ran (lookup es) = (\<lambda>k. the (lookup es k)) ` dom (lookup es)" by (force simp: ran_def dom_def image_iff)
    also have "dom (lookup es) = (\<lambda>i. fst (cnt ! i)) ` {0..<length cnt}"
    proof -
      have "set cnt = (!) cnt ` {0..<length cnt}" by (auto simp: set_conv_nth)
      then show ?thesis unfolding counters_dom [OF c] by (simp add: image_image)
    qed
    also have "(\<lambda>k. the (lookup es k)) ` ((\<lambda>i. fst (cnt ! i)) ` {0..<length cnt}) = counter g ` {0..<length cnt}"
      unfolding image_image using C(14) by (intro image_cong) auto
    finally show ?thesis .
  qed
  finally have sets: "set ?vs = set (map (counter g) [0..<length cnt])" by simp
  have dist: "distinct (map (counter g) [0..<length cnt])"
    by (simp add: distinct_map inj_on_def) (metis counter_inj)
  then have "card (set ?vs) = length ?vs" using distinct_card [OF dist] len sets by simp
  then have "distinct ?vs" by (rule card_distinct)
  then show ?thesis using dist sets set_eq_iff_mset_eq_distinct by blast
qed

definition tallies :: "(uint \<times> nat) list \<Rightarrow> uint list" where
  "tallies cnt = map (\<lambda>p. of_nat (snd p)) cnt"

definition table_of :: "uint list \<Rightarrow> printed list" where
  "table_of cs = (let most = largest 5 (set cs); least = smallest 5 (set cs)
     in report most (matches most cs) least (matches least cs))"

lemma length_ranks [simp]: "length (largest n S) = n" "length (smallest n S) = n"
  by (simp_all add: largest_def smallest_def)

lemma print_frequencies_exec:
  assumes ct: "counting g eh cnt s" and bounds: "\<And>p. p \<in> set cnt \<Longrightarrow> 0 < snd p \<and> snd p < 2 ^ 32"
  shows "print_frequencies tb g s = Inr (table_of (tallies cnt), s)"
proof -
  obtain m es ws where c: "counters g eh cnt m es ws s" using ct by (auto simp: counting_def)
  note C = countersD [OF c]
  let ?p = "h_data (counts g)" and ?cs = "tallies cnt" and ?n = "length cnt"
  have rep: "map_rep MEM_ALLOCATOR_PLAIN (mymap g) m es s" by (rule map_okD(1) [OF C(1)])
  have rd: "readable tb h_data es s" by (rule filled_readable [OF C(16)])
  have p: "mem_p tb (counts g) = ret ?p" using C(7) by (simp add: mem_p_transparent)
  have ws: "take ?n ws = map Some ?cs"
    using C(6,10,15) by (intro nth_equalityI) (simp_all add: tallies_def)
  have "0 \<notin> set ?cs"
  proof
    assume "0 \<in> set ?cs"
    then obtain p where "p \<in> set cnt" "(of_nat (snd p) :: uint) = 0" by (auto simp: tallies_def)
    then show False using bounds [of p] unat_of_nat_uint [of "snd p"] by simp
  qed
  from rank_loop_exec [OF C(9) _ _ this, of "words_seen g" 0]
  have rank: "rank_loop ?p (words_seen g) 0 (replicate 5 0, replicate 5 0) s
      = Inr ((largest 5 (set ?cs), smallest 5 (set ?cs)), s)"
    using C(5,6,10) ws by (simp add: rank_nothing)
  have ld: "load_uint (h_data (value_handle e)) s = Inr (value_of e s, s)" if e: "e \<in> set es" "live h_data e" for e
  proof -
    have "value_handle e \<in> set (map value_handle (filter (live h_data) es))" using e by simp
    then have "value_handle e \<in> set (map (counter g) [0..<?n])"
      using arg_cong [OF counter_values [OF c], of set_mset] by simp
    then obtain i where "i < ?n" "value_handle e = counter g i" by auto
    then show ?thesis
      using C(6,10,15) load_uint_exec [OF C(9), of i]
      by (simp add: value_of_def counter_def mem_handle_from_ptr_def)
  qed
  let ?vs = "map (\<lambda>e. value_of e s) (filter (live h_data) es)"
  have "mset ?vs = image_mset (\<lambda>h. case load_uint (h_data h) s of Inl _ \<Rightarrow> 0 | Inr (v, _) \<Rightarrow> v)
      (mset (map value_handle (filter (live h_data) es)))"
    by (simp add: value_of_def [abs_def] image_mset.compositionality comp_def)
  also have "\<dots> = mset (map (\<lambda>i. case load_uint (h_data (counter g i)) s of Inl _ \<Rightarrow> 0 | Inr (v, _) \<Rightarrow> v) [0..<?n])"
    unfolding counter_values [OF c] by (simp add: image_mset.compositionality comp_def)
  also have "map (\<lambda>i. case load_uint (h_data (counter g i)) s of Inl _ \<Rightarrow> 0 | Inr (v, _) \<Rightarrow> v) [0..<?n] = ?cs"
    using C(6,10,15) load_uint_exec [OF C(9)]
    by (intro nth_equalityI) (simp_all add: tallies_def counter_def mem_handle_from_ptr_def)
  finally have vs: "mset ?vs = mset ?cs" .
  let ?most = "largest 5 (set ?cs)" and ?least = "smallest 5 (set ?cs)"
  let ?j = "next_from (live h_data) es 0"
  have len: "length es = unat (table_size m)" and nn: "h_data (mymap g) \<noteq> NULL"
    and lm: "load_map (h_data (mymap g)) s = Inr (m, s)" using rep by (auto simp: map_rep_def owned_def)
  have fuel: "iteration_bound tb (mymap g) s = Inr (Suc (length es), s)"
    using lm nn len by (simp add: iteration_bound_def cbind_apply plain.map_rep_p [OF rep])
  have "match_loop tb (Suc (length es)) ?most ?least (iter_at (mymap g) es ?j) (replicate 5 0) (replicate 5 0) s
      = Inr ((matches ?most ?vs, matches ?least ?vs), s)"
  proof (cases "?j < length es")
    case True
    then show ?thesis
      using match_loop_exec [OF rep rd ld _ True next_from_live [OF True], of "Suc (length es)" ?most ?least]
        filter_next_from [of "live h_data" es 0] matches_from_zero [of ?most ?vs] matches_from_zero [of ?least ?vs]
      by (simp add: Let_def del: match_loop.simps)
  next
    case False
    then have no: "filter (live h_data) es = []" using filter_next_from [of "live h_data" es 0] by simp
    have "replicate 5 0 = matches fs []" if "length fs = 5" for fs
      using matches_from_zero [of fs "[]"] that by simp
    then show ?thesis
      using False no by (simp add: iter_at_def map_iter_done_def null_iter_def cbind_apply)
  qed
  then show ?thesis
    using matches_mset [OF vs]
    by (simp add: print_frequencies_def cbind_apply p rank fuel plain.map_first_value_iter_exec [OF rep rd]
        table_of_def Let_def del: match_loop.simps)
qed

end
