(* ===== verification/Word_Program.thy ===== *)
theory Word_Program
  imports Word_Read Word_Report
begin

text \<open>
  The program from its first allocation to its report: start, reading, the last line, ranking and
  printing, for at most sixteen different words and for more.
\<close>

text \<open>The three objects the program starts with, each in blocks of its own.\<close>

definition started :: "mem_handle \<Rightarrow> mem_handle \<Rightarrow> mem_handle \<Rightarrow> cstate \<Rightarrow> bool" where
  "started c m buf s \<longleftrightarrow> (\<exists>eh. reading \<lparr>counts = c, words_seen = 0, mymap = m\<rparr> eh [] buf [] s)"

lemma counting_start:
  assumes "h_alloc c = MEM_ALLOCATOR_PLAIN" "h_size c = 512" "uints_at (h_data c) (replicate 128 None) s"
    and "map_ok MEM_ALLOCATOR_PLAIN m (empty_map eh) (replicate 32 zero_entry) s"
    and "pbase (h_data c) \<notin> {pbase (h_data m), pbase (h_data eh)}"
  shows "counting \<lparr>counts = c, words_seen = 0, mymap = m\<rparr> eh [] s"
proof -
  have "filled (replicate 32 zero_entry)" by (simp add: filled_def zero_entry_def null_handle_def)
  moreover have "lookup (replicate 32 zero_entry) k = None" for k using lookup_empty [of 32] by (simp add: fun_eq_iff)
  ultimately show ?thesis
    using assms unfolding counting_def counters_def empty_map_def by (intro exI) auto
qed

lemma start_reading:
  assumes al: "alloc_post Fresh MEM_ALLOCATOR_PLAIN 512 s c s1" "h_data c \<noteq> NULL"
    and mc: "created MEM_ALLOCATOR_PLAIN s1 m s2"
    and b: "strbuf_at buf b (replicate 100 (Some 0)) s3" "sb_length b = 0"
      "heap s2 (pbase (h_data buf)) = None" "heap s2 (data_base b) = None"
      "\<forall>a. a \<notin> {pbase (h_data buf), data_base b} \<longrightarrow> heap s3 a = heap s2 a"
  shows "started c m buf s3" and "map_is_valid tb m s2 = Inr (True, s2)"
    and "strbuf_is_valid tb buf s3 = Inr (True, s3)"
proof -
  obtain a where a: "a \<noteq> 0" "heap s a = None" "c = \<lparr>h_data = Ptr a 0, h_size = 512, h_alloc = MEM_ALLOCATOR_PLAIN\<rparr>"
      "heap s1 a = Some \<lparr>b_size = 512, b_heap = True, b_content = Fresh\<rparr>"
    using al by (auto simp: alloc_post_def)
  obtain eh where eh: "map_ok MEM_ALLOCATOR_PLAIN m (empty_map eh) (replicate 32 zero_entry) s2"
      "heap s1 (pbase (h_data m)) = None" "heap s1 (pbase (h_data eh)) = None"
      "\<forall>a. a \<notin> foot m (empty_map eh) \<longrightarrow> heap s2 a = heap s1 a"
    using mc by (auto simp: created_def)
  let ?g = "\<lparr>counts = c, words_seen = 0, mymap = m\<rparr>"
  have apart: "a \<notin> {pbase (h_data m), pbase (h_data eh)}" using a(4) eh(2,3) by auto
  have "heap s2 a = heap s1 a" using eh(4) apart by (simp add: foot_def empty_map_def)
  then have "uints_at (h_data c) (replicate 128 None) s2"
    using a by (simp add: uints_at_def uints_of_def block_at_Inr_iff)
  then have ct: "counting ?g eh [] s2" using eh(1) apart a(3) by (intro counting_start) simp_all
  have live: "x \<in> area ?g eh \<Longrightarrow> heap s2 x \<noteq> None" for x by (rule counting_live [OF ct])
  have out: "pbase (h_data buf) \<notin> area ?g eh" "data_base b \<notin> area ?g eh" using live [of "pbase (h_data buf)"] live [of "data_base b"] b(3,4) by auto
  have "heap s3 x = heap s2 x" if x: "x \<in> area ?g eh" for x
  proof -
    have "x \<noteq> pbase (h_data buf)" "x \<noteq> data_base b" using out x by blast+
    then show ?thesis using b(5) by simp
  qed
  then have "counting ?g eh [] s3" by (intro counting_frame [OF ct]) blast
  then have "reading ?g eh [] buf [] s3"
    using b(1,2) out unfolding reading_def by (intro conjI exI [of _ b] exI [of _ "replicate 100 (Some 0)"]) auto
  then show "started c m buf s3" by (auto simp: started_def)
  show "map_is_valid tb m s2 = Inr (True, s2)" by (rule plain.map_is_valid_exec [OF map_okD(1) [OF eh(1)]])
  show "strbuf_is_valid tb buf s3 = Inr (True, s3)" by (rule strbuf_is_valid_exec [OF b(1)])
qed

lemma counts_bytes: "sizeof_uint * ucast INITIAL_COUNTS_SIZE = 512"
  by (simp add: sizeof_uint_def INITIAL_COUNTS_SIZE_def)

lemma start_runs:
  assumes tb: "blocks_answered.ops_stable tb" and st: "stocked (n + 5) s"
  shows "runs (mem_alloc tb MEM_ALLOCATOR_PLAIN (sizeof_uint * ucast INITIAL_COUNTS_SIZE)) s (\<lambda>c s1. mem_is_valid c \<and>
    runs (map_create tb MEM_ALLOCATOR_PLAIN) s1 (\<lambda>m s2. map_is_valid tb m s2 = Inr (True, s2) \<and>
    runs (strbuf_create tb MEM_ALLOCATOR_PLAIN 100) s2 (\<lambda>buf s3. strbuf_is_valid tb buf s3 = Inr (True, s3) \<and>
      started c m buf s3 \<and> stocked n s3)))"
proof -
  obtain c s1 where al: "mem_alloc tb MEM_ALLOCATOR_PLAIN 512 s = Inr (c, s1)" "alloc_post Fresh MEM_ALLOCATOR_PLAIN 512 s c s1"
    using plain.alloc_law [of tb 512 s] by (rule runsE)
  have "stocked (Suc (n + 4)) s" using st by (simp add: eval_nat_numeral)
  note okc = mem_alloc_succeeds [OF this al(1)]
  have st1: "stocked (Suc (Suc (n + 2))) s1"
    using okc(2) by (intro stocked_kept [OF evolvesD [OF blocks_answered.mem_ops(1) [OF tb] al(1)] st]) simp
  obtain m s2 where mc: "map_create tb MEM_ALLOCATOR_PLAIN s1 = Inr (m, s2)"
      and post2: "h_data m \<noteq> NULL \<Longrightarrow> created MEM_ALLOCATOR_PLAIN s1 m s2"
    using plain.map_create_runs [of tb s1] by (auto simp: runs_def split: sum.splits if_splits)
  note okm = map_create_succeeds [OF tb st1 mc]
  have st2: "stocked (Suc (Suc n)) s2"
    using okm by (intro stocked_kept [OF evolvesD [OF blocks_answered.map_basic(1) [OF tb] mc] st1]) simp
  obtain buf s3 where sc: "strbuf_create tb MEM_ALLOCATOR_PLAIN 100 s2 = Inr (buf, s3)"
      and post3: "h_data buf \<noteq> NULL \<Longrightarrow> \<exists>b. strbuf_at buf b (replicate 100 (Some 0)) s3 \<and> sb_length b = 0 \<and>
        heap s2 (pbase (h_data buf)) = None \<and> heap s2 (data_base b) = None \<and>
        (\<forall>a. a \<notin> {pbase (h_data buf), data_base b} \<longrightarrow> heap s3 a = heap s2 a)"
    using strbuf_create_runs [of tb 100 s2] by (auto simp: runs_def split: sum.splits if_splits)
  note okb = strbuf_create_succeeds [OF tb st2 sc]
  have st3: "stocked n s3"
    using okb by (intro stocked_kept [OF evolvesD [OF blocks_answered.strbuf_basic(2) [OF tb] sc] st2]) simp
  obtain b where b: "strbuf_at buf b (replicate 100 (Some 0)) s3" "sb_length b = 0"
        "heap s2 (pbase (h_data buf)) = None" "heap s2 (data_base b) = None"
        "\<forall>a. a \<notin> {pbase (h_data buf), data_base b} \<longrightarrow> heap s3 a = heap s2 a"
    using post3 okb by auto
  note S = start_reading [OF al(2) okc(1) post2 b]
  show ?thesis using al(1) mc sc st3 okc(1) okm S by (simp add: runs_def counts_bytes mem_is_valid_def)
qed

section \<open>The numbers of occurrences\<close>

lemma tally_entry:
  "distinct (map fst cnt) \<Longrightarrow> (k', n) \<in> set (tally cnt k) \<Longrightarrow>
   (k' \<noteq> k \<and> (k', n) \<in> set cnt) \<or> (k' = k \<and> (n = 1 \<and> k \<notin> fst ` set cnt \<or> (\<exists>j. n = Suc j \<and> (k, j) \<in> set cnt)))"
  by (induction cnt k rule: tally.induct) (auto split: if_splits simp: image_iff)

lemma foldl_tally_counts:
  "distinct (map fst cnt) \<Longrightarrow> (\<And>k n. (k, n) \<in> set cnt \<Longrightarrow> n = count_list js k) \<Longrightarrow> fst ` set cnt = set js \<Longrightarrow>
   (k, n) \<in> set (foldl tally cnt ks) \<Longrightarrow> n = count_list (js @ ks) k"
proof (induction ks arbitrary: cnt js)
  case (Cons k0 ks)
  have "k1 = k0 \<Longrightarrow> n1 = count_list (js @ [k0]) k1" if "(k1, n1) \<in> set (tally cnt k0)" for k1 n1
    using tally_entry [OF Cons.prems(1) that] Cons.prems(2) Cons.prems(3) by (auto simp: count_list_0_iff)
  moreover have "k1 \<noteq> k0 \<Longrightarrow> n1 = count_list (js @ [k0]) k1" if "(k1, n1) \<in> set (tally cnt k0)" for k1 n1
    using tally_entry [OF Cons.prems(1) that] Cons.prems(2) by auto
  ultimately have "\<And>k n. (k, n) \<in> set (tally cnt k0) \<Longrightarrow> n = count_list (js @ [k0]) k" by blast
  from Cons.IH [OF distinct_tally [OF Cons.prems(1)] this, of k0]
  show ?case using Cons.prems(3,4) fst_tally [of cnt k0] by simp
qed simp

text \<open>The number of occurrences of each distinct element.\<close>

definition occurrences :: "'a list \<Rightarrow> nat list" where
  "occurrences xs = map (count_list xs) (remdups xs)"

lemma mset_tallies: "mset (map snd (foldl tally [] ks)) = mset (occurrences ks)"
proof -
  let ?cnt = "foldl tally [] ks"
  have "map snd ?cnt = map (count_list ks) (map fst ?cnt)"
    using foldl_tally_counts [of "[]" "[]"] by (auto simp: map_eq_conv)
  moreover have "mset (map fst ?cnt) = mset (remdups ks)"
    using foldl_tally_distinct [of "[]" ks] foldl_tally_keys [of "[]" ks]
    by (subst set_eq_iff_mset_eq_distinct [symmetric]) simp_all
  ultimately show ?thesis unfolding occurrences_def by (metis mset_map)
qed

lemma mset_occurrences_inj: "inj_on f (set xs) \<Longrightarrow> mset (occurrences (map f xs)) = mset (occurrences xs)"
proof -
  assume inj: "inj_on f (set xs)"
  have "mset (remdups (map f xs)) = mset (map f (remdups xs))"
    using inj by (subst set_eq_iff_mset_eq_distinct [symmetric]) (simp_all add: distinct_map)
  then have "mset (occurrences (map f xs)) = image_mset (count_list (map f xs)) (mset (map f (remdups xs)))"
    by (simp add: occurrences_def)
  also have "\<dots> = mset (map (\<lambda>x. count_list (map f xs) (f x)) (remdups xs))"
    by (simp add: image_mset.compositionality comp_def)
  also have "map (\<lambda>x. count_list (map f xs) (f x)) (remdups xs) = map (count_list xs) (remdups xs)"
    using inj by (intro map_cong) (auto simp: count_list_inj_map)
  finally show ?thesis by (simp add: occurrences_def)
qed

section \<open>What the program prints\<close>

text \<open>
  The report on a list of words: the five largest and the five smallest different numbers of
  occurrences, each with the number of words that occur so often.
\<close>

definition word_report :: "byte list list \<Rightarrow> printed list" where
  "word_report ws = table_of (map of_nat (occurrences ws))"

lemma table_of_mset: "mset xs = mset ys \<Longrightarrow> table_of xs = table_of ys"
  using matches_mset [of xs ys] mset_eq_setD [of xs ys] by (simp add: table_of_def)

lemma table_of_tallies:
  assumes "inj_on word_hash (set ws)"
  shows "table_of (tallies (foldl tally [] (map word_hash ws))) = word_report ws"
proof -
  have "mset (map snd (foldl tally [] (map word_hash ws))) = mset (occurrences ws)"
    using mset_tallies mset_occurrences_inj [OF assms] by metis
  then have "mset (map of_nat (map snd (foldl tally [] (map word_hash ws))) :: uint list) = mset (map of_nat (occurrences ws))"
    by (simp only: mset_map)
  then have "mset (tallies (foldl tally [] (map word_hash ws))) = mset (map of_nat (occurrences ws))"
    by (simp only: tallies_def map_map comp_def)
  then show ?thesis unfolding word_report_def by (rule table_of_mset)
qed

lemma length_split_words: "length (split_words cs) \<le> length cs"
proof (induction cs rule: split_words.induct)
  case (1 cs)
  show ?case
  proof (cases "first_word cs = []")
    case False
    then have "length (after_word cs) < length cs" by (intro after_word_shorter) auto
    then show ?thesis using 1 [OF False] False by (subst split_words.simps) simp
  qed (simp add: split_words.simps)
qed

lemma length_tally_keys: "length (foldl tally [] ks) = card (set ks)"
  using foldl_tally_distinct [of "[]" ks] foldl_tally_keys [of "[]" ks] distinct_card [of "map fst (foldl tally [] ks)"]
  by simp

lemma tally_bounds:
  assumes "p \<in> set (foldl tally [] ks)"
  shows "0 < snd p" and "snd p \<le> length ks"
proof -
  show "0 < snd p" using foldl_tally_positive [of "[]" ks] assms by (force simp: image_iff)
  have "snd p \<le> sum_list (map snd (foldl tally [] ks))" using assms by (intro member_le_sum_list) auto
  then show "snd p \<le> length ks" by (simp add: sum_foldl_tally)
qed

text \<open>The last line has no newline; an empty one is skipped.\<close>

definition last_line :: "table_ops \<Rightarrow> globals \<Rightarrow> mem_handle \<Rightarrow> globals prog" where
  "last_line tb g buf = cbind (strbuf_str tb buf) (\<lambda>line. if 0 < h_size line then process_line tb g line else ret g)"

lemma last_line_runs:
  assumes r: "reading g eh cnt buf cs s" and plain: "plain_text cs" and able: "countable cnt (split_words cs)"
  shows "runs (last_line tb g buf) s (\<lambda>g' t. counting g' eh (foldl tally cnt (map word_hash (split_words cs))) t)"
proof -
  obtain line where line: "strbuf_str tb buf s = Inr (line, s)" "unat (h_size line) = length cs"
      "line_at line cs s" "pbase (h_data line) \<notin> area g eh"
    using reading_line [OF r plain, of tb] by blast
  have ct: "counting g eh cnt s" using r by (simp add: reading_def)
  show ?thesis
  proof (cases "0 < h_size line")
    case True
    then show ?thesis
      using process_line_runs [OF ct line(3) able line(4), of tb]
      by (auto simp: last_line_def runs_cbind runs_def cbind_apply line(1) counted_to_def split: sum.splits)
  next
    case False
    then have "cs = []" using line(2) by (simp add: word_gt_0)
    then show ?thesis using False ct by (simp add: last_line_def runs_def cbind_apply line(1))
  qed
qed

lemma last_line_overflow:
  assumes tb: "blocks_answered.ops_stable tb" and r: "reading g eh cnt buf cs s" and plain: "plain_text cs"
    and over: "overflows cnt (split_words cs)" and st: "stocked (Suc n) s"
  shows "last_line tb g buf s = Inl Dangling"
proof -
  obtain line where line: "strbuf_str tb buf s = Inr (line, s)" "unat (h_size line) = length cs"
      "line_at line cs s" "pbase (h_data line) \<notin> area g eh"
    using reading_line [OF r plain, of tb] by blast
  have ct: "counting g eh cnt s" using r by (simp add: reading_def)
  then have "length cnt \<le> 16" by (auto simp: counting_def dest: countersD(6))
  then have "cs \<noteq> []" using over by (auto simp: overflows_def)
  then have "0 < h_size line" using line(2) by (auto simp: word_gt_0)
  then show ?thesis
    using process_line_overflow [OF tb ct line(3) over line(4) st] by (simp add: last_line_def cbind_apply line(1))
qed

lemma word_freq_unfold:
  assumes "mem_alloc tb MEM_ALLOCATOR_PLAIN (sizeof_uint * ucast INITIAL_COUNTS_SIZE) s = Inr (c, s1)" "mem_is_valid c"
    and "map_create tb MEM_ALLOCATOR_PLAIN s1 = Inr (m, s2)" "map_is_valid tb m s2 = Inr (True, s2)"
    and "strbuf_create tb MEM_ALLOCATOR_PLAIN 100 s2 = Inr (buf, s3)" "strbuf_is_valid tb buf s3 = Inr (True, s3)"
    and "files fname = Some input"
  shows "word_freq tb files fname s = cbind (read_loop tb \<lparr>counts = c, words_seen = 0, mymap = m\<rparr> buf input) (\<lambda>g.
    cbind (last_line tb g buf) (print_frequencies tb)) s3"
  using assms by (simp add: word_freq_def last_line_def cbind_apply cbind_assoc)

lemma word_freq_starts:
  assumes tb: "blocks_answered.ops_stable tb" and st: "stocked (n + 5) s" and inp: "files fname = Some input"
  obtains g eh buf t where "word_freq tb files fname s = cbind (read_loop tb g buf input) (\<lambda>g.
      cbind (last_line tb g buf) (print_frequencies tb)) t"
    and "reading g eh [] buf [] t" and "stocked n t"
proof -
  obtain c s1 m s2 buf s3 where al: "mem_alloc tb MEM_ALLOCATOR_PLAIN (sizeof_uint * ucast INITIAL_COUNTS_SIZE) s = Inr (c, s1)" "mem_is_valid c"
      and mc: "map_create tb MEM_ALLOCATOR_PLAIN s1 = Inr (m, s2)" "map_is_valid tb m s2 = Inr (True, s2)"
      and sc: "strbuf_create tb MEM_ALLOCATOR_PLAIN 100 s2 = Inr (buf, s3)" "strbuf_is_valid tb buf s3 = Inr (True, s3)"
      and start: "started c m buf s3" "stocked n s3"
    using start_runs [OF tb st] by (auto elim!: runsE)
  from word_freq_unfold [OF al mc sc, where files = files, OF inp] start show thesis
    by (auto simp: started_def intro: that)
qed

text \<open>After the loop over the characters: the last line is counted and the report printed.\<close>

lemma report_after_loop:
  assumes post: "loop_post g eh [] buf ([] @ input) n g1 t1" and able: "countable [] (split_words ([] @ input))"
    and plain: "plain_text input"
  shows "runs (cbind (last_line tb g1 buf) (print_frequencies tb)) t1
    (\<lambda>out t. out = table_of (tallies (foldl tally [] (map word_hash (split_words input)))))"
proof -
  let ?cnt = "foldl tally [] (map word_hash (split_words input))"
  obtain dn rest where d: "split_words input = dn @ split_words rest" "plain_text rest"
      "reading g1 eh (foldl tally [] (map word_hash dn)) buf rest t1"
    using post by (auto simp: loop_post_def)
  have "countable (foldl tally [] (map word_hash dn)) (split_words rest)"
    using countable_append [of "[]" dn] able d(1) by simp
  from last_line_runs [OF d(3,2) this, of tb]
  obtain g2 t2 where last: "last_line tb g1 buf t1 = Inr (g2, t2)" and ct: "counting g2 eh ?cnt t2"
    using d(1) by (auto elim!: runsE)
  have "0 < snd p \<and> snd p < 2 ^ 32" if "p \<in> set ?cnt" for p
    using tally_bounds [OF that] length_split_words [of input] plain by (simp add: plain_text_def)
  from print_frequencies_exec [OF ct this, of tb] show ?thesis
    by (simp add: runs_def cbind_apply last)
qed

lemma word_freq_runs:
  assumes tb: "blocks_answered.ops_stable tb" and st: "stocked (length input + 5) s"
    and inp: "files fname = Some input" and plain: "plain_text input"
    and nz: "0 \<notin> word_hash ` set (split_words input)" and few: "card (word_hash ` set (split_words input)) \<le> 16"
  shows "runs (word_freq tb files fname) s (\<lambda>out t.
    out = table_of (tallies (foldl tally [] (map word_hash (split_words input)))))"
proof -
  let ?cnt = "foldl tally [] (map word_hash (split_words input))"
  obtain g eh buf t where run: "word_freq tb files fname s = cbind (read_loop tb g buf input) (\<lambda>g.
        cbind (last_line tb g buf) (print_frequencies tb)) t"
      and r: "reading g eh [] buf [] t" and "stocked (length input) t"
    by (rule word_freq_starts [OF tb st, where files = files, OF inp])
  then have st: "stocked (length input + 0) t" by simp
  have able: "countable [] (split_words ([] @ input))"
    using nz few by (simp add: countable_def length_tally_keys image_image)
  obtain g1 t1 where loop: "read_loop tb g buf input t = Inr (g1, t1)" and post: "loop_post g eh [] buf ([] @ input) 0 g1 t1"
    using read_loop_runs [OF tb r st _ able] plain by (auto elim!: runsE)
  show ?thesis
    using report_after_loop [OF post able plain, of tb] by (simp add: runs_def run cbind_apply loop)
qed

lemma word_freq_overflow:
  assumes tb: "blocks_answered.ops_stable tb" and st: "stocked (length input + 6) s"
    and inp: "files fname = Some input" and plain: "plain_text input"
    and nz: "0 \<notin> word_hash ` set (split_words input)" and many: "16 < card (word_hash ` set (split_words input))"
  shows "word_freq tb files fname s = Inl Dangling"
proof -
  have "stocked (Suc (length input) + 5) s" using st by (rule stocked_mono) simp
  then obtain g eh buf t where run: "word_freq tb files fname s = cbind (read_loop tb g buf input) (\<lambda>g.
        cbind (last_line tb g buf) (print_frequencies tb)) t"
      and r: "reading g eh [] buf [] t" and "stocked (Suc (length input)) t"
    by (rule word_freq_starts [OF tb _, where files = files, OF _ inp])
  then have st: "stocked (length input + Suc 0) t" by simp
  have over: "overflows [] (split_words ([] @ input))"
    using nz many by (simp add: overflows_def length_tally_keys image_image)
  from read_loop_overflow [OF tb r st _ over] plain
  consider "read_loop tb g buf input t = Inl Dangling"
    | g' t' cnt' rest where "read_loop tb g buf input t = Inr (g', t')" "reading g' eh cnt' buf rest t'"
      "stocked (Suc 0) t'" "plain_text rest" "overflows cnt' (split_words rest)"
    by auto
  then show ?thesis
  proof cases
    case 2
    then show ?thesis using last_line_overflow [OF tb 2(2,4,5,3)] by (simp add: run cbind_apply)
  qed (simp add: run cbind_apply)
qed

end
