(* ===== verification/Word_Freq_Props.thy ===== *)
theory Word_Freq_Props
  imports Word_Program
begin

text \<open>
  The properties of the word frequency program. The examples start from an empty heap and a
  system allocator that answers with the multiples of 4096.
\<close>

definition fresh_start :: cstate where
  "fresh_start = \<lparr>heap = Map.empty, sigint = SIG_DFL, answers = (\<lambda>i. of_nat (4096 * (i + 1))), calls = 0,
     realloc0_frees = False, trace = [], str_cstr_buffer = NULL\<rparr>"

lemma fresh_start_stocked: "n + 1 < 2 ^ 32 \<Longrightarrow> stocked n fresh_start"
  by (rule stocked_pages [where k = 1]) (simp_all add: fresh_start_def)

section \<open>The report\<close>

text \<open>
  C1. The program counts words: on an ASCII file of fewer than 2^32 characters with at most sixteen
  different words, none of which has the hash 0 or the hash of another one, main terminates without
  a fault and prints the five largest and the five smallest different numbers of occurrences, each
  with the number of words that occur so often. One allocator answer per character and five more are
  enough.
\<close>

theorem m65tool_reports_words:
  assumes "files fname = Some input" and "plain_text input" and "stocked (length input + 5) s"
    and "0 \<notin> word_hash ` set (split_words input)" and "inj_on word_hash (set (split_words input))"
    and "card (set (split_words input)) \<le> 16"
  shows "runs (m65tool_main (memtbl_ops d) files [prog_name, fname]) s
    (\<lambda>out t. out = word_report (split_words input))"
proof -
  have "card (word_hash ` set (split_words input)) \<le> 16" using assms(5,6) by (simp add: card_image)
  from word_freq_runs [OF _ assms(3), where files = files, OF _ assms(1,2,4) this, of "memtbl_ops d"]
  show ?thesis by (simp add: m65tool_main_def table_of_tallies [OF assms(5)])
qed

text \<open>The text \<open>the cat the dog\<close>, a newline and \<open>the cat\<close>.\<close>

definition sample_input :: "byte list" where
  "sample_input = [116, 104, 101, 32, 99, 97, 116, 32, 116, 104, 101, 32, 100, 111, 103, 10,
     116, 104, 101, 32, 99, 97, 116]"

lemma sample_plain: "plain_text sample_input"
  by (simp add: plain_text_def sample_input_def)

lemma sample_words: "split_words sample_input =
  [[116, 104, 101], [99, 97, 116], [116, 104, 101], [100, 111, 103], [116, 104, 101], [99, 97, 116]]"
  by code_simp

lemma sample_hashes: "distinct (map word_hash [[116, 104, 101], [99, 97, 116], [100, 111, 103]]) \<and>
   0 \<notin> set (map word_hash [[116, 104, 101], [99, 97, 116], [100, 111, 103]])"
  by code_simp

lemma sample_report: "word_report (split_words sample_input) =
  report [3, 2, 1, 0, 0] [1, 1, 1, 0, 0] [1, 2, 3, 0, 0] [1, 1, 1, 0, 0]"
proof -
  have occ: "occurrences (split_words sample_input) = [1, 3, 2]" unfolding sample_words occurrences_def by simp
  have "sorted_list_of_set (set [1, 3, 2 :: uint]) = [1, 2, 3]" unfolding sorted_list_of_set_sort_remdups by simp
  then have ranks: "sorted_list_of_set {1, 3, 2 :: uint} = [1, 2, 3]" by simp
  have two: "replicate 2 (0 :: uint) = [0, 0]" by (simp add: numeral_2_eq_2)
  show ?thesis
    by (simp add: word_report_def table_of_def occ largest_def smallest_def matches_def Let_def ranks two
        del: sorted_list_of_set_insert_remove)
qed

theorem m65tool_reports_words_witness:
  "runs (m65tool_main (memtbl_ops 1) [''words.txt'' \<mapsto> sample_input] [''m65tool'', ''words.txt'']) fresh_start
     (\<lambda>out t. out = report [3, 2, 1, 0, 0] [1, 1, 1, 0, 0] [1, 2, 3, 0, 0] [1, 1, 1, 0, 0])"
  unfolding sample_report [symmetric]
proof (rule m65tool_reports_words)
  show "[''words.txt'' \<mapsto> sample_input] ''words.txt'' = Some sample_input" by simp
  show "plain_text sample_input" by (rule sample_plain)
  show "stocked (length sample_input + 5) fresh_start"
    by (rule fresh_start_stocked) (simp add: sample_input_def)
  show "0 \<notin> word_hash ` set (split_words sample_input)" "inj_on word_hash (set (split_words sample_input))"
    unfolding sample_words using sample_hashes by auto
  show "card (set (split_words sample_input)) \<le> 16"
    unfolding sample_words by (rule order_trans [OF card_length]) simp
qed

section \<open>Too many words\<close>

text \<open>
  C3. An ASCII file of fewer than 2^32 characters whose words have more than sixteen different
  hashes, none of them 0, crashes the program, even when every allocation succeeds (one answer per
  character and six more): the seventeenth hash makes the map grow, and the insertion then writes to
  the table that the growth released.
\<close>

theorem m65tool_too_many_words:
  assumes "files fname = Some input" and "plain_text input" and "stocked (length input + 6) s"
    and "0 \<notin> word_hash ` set (split_words input)" and "16 < card (word_hash ` set (split_words input))"
  shows "m65tool_main (memtbl_ops d) files [prog_name, fname] s = Inl Dangling"
  using word_freq_overflow [OF _ assms(3), where files = files, OF _ assms(1,2,4,5), of "memtbl_ops d"]
  by (simp add: m65tool_main_def)

text \<open>The letters from a to q, each followed by a space.\<close>

definition letters :: "byte list" where
  "letters = concat (map (\<lambda>i. [of_nat (97 + i), 32]) [0..<17])"

lemma letters_plain: "length letters = 34 \<and> list_all (\<lambda>c. c < 128) letters"
  by code_simp

lemma letters_words: "split_words letters = map (\<lambda>i. [of_nat (97 + i)]) [0..<17]"
  by code_simp

lemma letters_hashes: "distinct (map word_hash (map (\<lambda>i. [of_nat (97 + i)]) [0..<17])) \<and>
   0 \<notin> set (map word_hash (map (\<lambda>i. [of_nat (97 + i)]) [0..<17]))"
  by code_simp

theorem m65tool_too_many_words_witness:
  "m65tool_main (memtbl_ops 1) [''words.txt'' \<mapsto> letters] [''m65tool'', ''words.txt''] fresh_start = Inl Dangling"
proof (rule m65tool_too_many_words)
  show "[''words.txt'' \<mapsto> letters] ''words.txt'' = Some letters" by simp
  show "plain_text letters"
    using letters_plain by (simp add: plain_text_def list_all_iff)
  show "stocked (length letters + 6) fresh_start"
    using letters_plain by (intro fresh_start_stocked) simp
  show "0 \<notin> word_hash ` set (split_words letters)"
    unfolding letters_words using letters_hashes by (metis set_map)
  show "16 < card (word_hash ` set (split_words letters))"
    unfolding letters_words using distinct_card [OF conjunct1 [OF letters_hashes]] by (simp add: image_image)
qed

section \<open>One line\<close>

text \<open>
  C4. process_line implements the abstract count: on the counters of a list cnt of hashes with
  their numbers, and a line of ASCII text with at least one and fewer than 2^32 characters, none of
  whose words has the hash 0 and whose characters are not in the counter array or the map, it ends
  with the counters of cnt and the words of the line, each added in order under its hash, as long as
  no more than sixteen different hashes come together. It calls no allocator and touches no block but
  the counter array and the two blocks of the map.
\<close>

theorem process_line_counts:
  assumes "counting g eh cnt s" and "str_rep line cs s" and "plain_text cs" and "cs \<noteq> []"
    and "0 \<notin> word_hash ` set (split_words cs)"
    and "length (foldl tally cnt (map word_hash (split_words cs))) \<le> 16"
    and "pbase (h_data line) \<notin> area g eh"
  shows "runs (process_line tb g line) s (\<lambda>g' t.
    counting g' eh (foldl tally cnt (map word_hash (split_words cs))) t \<and> frame (area g eh) s t)"
proof -
  have "load_byte (h_data line) s = Inr (cs ! 0, s)"
    using load_first_byte [OF str_repD(2) [OF assms(2)] assms(4)] .
  moreover have "cs ! 0 < 128" using assms(3,4) by (simp add: plain_text_def)
  ultimately have "line_at line cs s" using assms(2,3) by (auto simp: line_at_def)
  from process_line_runs [OF assms(1) this _ assms(7), of tb] show ?thesis
    using assms(5,6) by (auto simp: countable_def counted_to_def elim!: runs_conseq)
qed

definition sample_globals :: globals where
  "sample_globals = \<lparr>counts = \<lparr>h_data = Ptr 0x9000 0, h_size = 512, h_alloc = MEM_ALLOCATOR_PLAIN\<rparr>,
     words_seen = 0, mymap = sample_mh\<rparr>"

definition sample_line :: "byte list \<Rightarrow> cstate" where
  "sample_line cs = (sample_state (sample_entries 0) 0 (\<lambda>_. 0))
     \<lparr>heap := (sample_heap (sample_entries 0) 0)(0x7000 \<mapsto> text_block cs,
        0x9000 \<mapsto> \<lparr>b_size = 512, b_heap = True, b_content = Fresh\<rparr>)\<rparr>"

lemma sample_line_counting: "counting sample_globals sample_table_mh [] (sample_line cs)"
proof -
  have "map_ok MEM_ALLOCATOR_PLAIN sample_mh (sample_map 0) (sample_entries 0) (sample_line cs)"
    by (rule map_ok_foot [OF sample_ok [of 0 "\<lambda>_. 0"]])
      (simp_all add: foot_def sample_mh_def sample_table_mh_def sample_line_def sample_state_def)
  moreover have "sample_entries 0 = replicate 32 zero_entry"
    by (intro nth_equalityI) auto
  moreover have "sample_map 0 = empty_map sample_table_mh" by (simp add: sample_map_def empty_map_def)
  ultimately show ?thesis
    unfolding sample_globals_def
    by (intro counting_start)
      (simp_all add: uints_at_def uints_of_def block_at_Inr_iff sample_line_def sample_mh_def sample_table_mh_def)
qed

lemma sample_not_empty: "sample_input \<noteq> []" by (simp add: sample_input_def)

lemma sample_tally: "length (foldl tally [] (map word_hash (split_words sample_input))) = 3"
  unfolding sample_words by code_simp

theorem process_line_counts_witness:
  "runs (process_line (memtbl_ops 0) sample_globals (mem_handle_from_ptr (Ptr 0x7000 0) 23)) (sample_line sample_input)
     (\<lambda>g t. unat (words_seen g) = 3)"
proof -
  have line: "str_rep (mem_handle_from_ptr (Ptr 0x7000 0) 23) sample_input (sample_line sample_input)"
    by (simp add: str_rep_def transparent_def mem_handle_from_ptr_def chars_at_def block_bytes_def
        sample_line_def text_block_def sample_input_def)
  have hashes: "0 \<notin> word_hash ` set (split_words sample_input)"
    unfolding sample_words using sample_hashes by auto
  have "runs (process_line (memtbl_ops 0) sample_globals (mem_handle_from_ptr (Ptr 0x7000 0) 23)) (sample_line sample_input)
     (\<lambda>g t. counting g sample_table_mh (foldl tally [] (map word_hash (split_words sample_input))) t \<and>
        frame (area sample_globals sample_table_mh) (sample_line sample_input) t)"
    by (rule process_line_counts [OF sample_line_counting line sample_plain _ hashes])
      (simp_all add: sample_tally sample_not_empty area_def sample_globals_def sample_mh_def
        sample_table_mh_def mem_handle_from_ptr_def)
  then show ?thesis
    by (rule runs_conseq) (auto simp: counting_def sample_tally dest: countersD(5))
qed

end
