(* ===== verification/Word_Any.thy ===== *)
theory Word_Any
  imports Word_Freq_Props
begin

text \<open>
  The program under every system allocator: whichever of its allocations are refused, it prints
  the right report or ends with one of its own messages.
\<close>

definition out_of_memory :: "c_error \<Rightarrow> bool" where
  "out_of_memory e \<longleftrightarrow> e \<in> {Exit_failure (''Error creating counts array'' @ NL),
     Exit_failure (''Error creating map'' @ NL), Exit_failure (''Error creating strbuf'' @ NL),
     Exit_failure (''Error growing string buffer'' @ NL)}"

text \<open>What the loop over the characters reaches when every growth of the buffer succeeded.\<close>

lemma stocked_none [simp]: "stocked 0 s"
  by (simp add: stocked_def)

lemma read_loop_settles:
  assumes tb: "blocks_answered.ops_stable tb"
  shows "reading g eh cnt buf cs s \<Longrightarrow> plain_text (cs @ input) \<Longrightarrow>
    countable cnt (split_words (cs @ input)) \<Longrightarrow>
    settles out_of_memory (read_loop tb g buf input) s (loop_post g eh cnt buf (cs @ input) 0)"
proof (induction input arbitrary: g cnt cs s)
  case Nil
  then show ?case by (auto simp: settles_def same_arrays_def loop_post_def intro!: exI [of _ "[]"] exI [of _ cs])
next
  case (Cons c input)
  show ?case
  proof (cases "c = 10")
    case False
    have c: "c < 128" "length cs < 2 ^ 32" using Cons.prems(2) by (simp_all add: plain_text_def)
    obtain ok t where run: "strbuf_concatenate_char tb buf c s = Inr (ok, t)"
        and post: "ok \<Longrightarrow> reading g eh cnt buf (cs @ [c]) t"
      using reading_char_any [OF Cons.prems(1) c, of tb] by (auto elim!: runsE)
    show ?thesis
    proof (cases ok)
      case True
      then show ?thesis
        using Cons.IH [OF post] Cons.prems(2,3) run False by (simp add: settles_def cbind_apply)
    qed (use run False in \<open>simp add: settles_def cbind_apply out_of_memory_def\<close>)
  next
    case True
    let ?cnt = "foldl tally cnt (map word_hash (split_words cs))"
    have plain: "plain_text cs" "plain_text input" using Cons.prems(2) by (auto simp: plain_text_def)
    have able: "countable cnt (split_words cs)" "countable ?cnt (split_words input)"
      using countable_append Cons.prems(3) True by (simp_all add: split_words_append)
    obtain g' t where line: "end_of_line tb g buf s = Inr (g', t)" and same: "same_arrays g g'"
        and r: "reading g' eh ?cnt buf [] t"
      using end_of_line_runs [OF tb Cons.prems(1) plain(1) able(1) stocked_none] by (auto elim!: runsE)
    have "settles out_of_memory (read_loop tb g' buf input) t (loop_post g' eh ?cnt buf input 0)"
      using Cons.IH [OF r] plain(2) able(2) by simp
    then have "settles out_of_memory (read_loop tb g' buf input) t (loop_post g eh cnt buf (cs @ 10 # input) 0)"
      by (rule settles_conseq) (rule loop_post_line [OF _ same])
    then show ?thesis by (simp add: True read_loop_newline settles_def cbind_apply line del: read_loop.simps)
  qed
qed

text \<open>The first allocations: one of them fails, or the program is ready to read.\<close>

lemma word_freq_start_settles:
  assumes inp: "files fname = Some input"
  obtains e where "word_freq tb files fname s = Inl e" and "out_of_memory e"
  | g eh buf t where "word_freq tb files fname s = cbind (read_loop tb g buf input) (\<lambda>g.
      cbind (last_line tb g buf) (print_frequencies tb)) t" and "reading g eh [] buf [] t"
proof -
  obtain c s1 where al: "mem_alloc tb MEM_ALLOCATOR_PLAIN 512 s = Inr (c, s1)"
      and alp: "alloc_post Fresh MEM_ALLOCATOR_PLAIN 512 s c s1"
    using plain.alloc_law [of tb 512 s] by (rule runsE)
  obtain m s2 where mc: "map_create tb MEM_ALLOCATOR_PLAIN s1 = Inr (m, s2)"
      and mp: "h_data m \<noteq> NULL \<Longrightarrow> created MEM_ALLOCATOR_PLAIN s1 m s2"
    using plain.map_create_runs [of tb s1] by (auto simp: runs_def split: sum.splits if_splits)
  obtain buf s3 where sc: "strbuf_create tb MEM_ALLOCATOR_PLAIN 100 s2 = Inr (buf, s3)"
      and sp: "h_data buf \<noteq> NULL \<Longrightarrow> \<exists>b. strbuf_at buf b (replicate 100 (Some 0)) s3 \<and> sb_length b = 0 \<and>
        heap s2 (pbase (h_data buf)) = None \<and> heap s2 (data_base b) = None \<and>
        (\<forall>a. a \<notin> {pbase (h_data buf), data_base b} \<longrightarrow> heap s3 a = heap s2 a)"
    using strbuf_create_runs [of tb 100 s2] by (auto simp: runs_def split: sum.splits if_splits)
  note run = word_freq_def cbind_apply counts_bytes inp al mc sc mem_is_valid_def
  consider (c) "h_data c = NULL" | (m) "h_data c \<noteq> NULL" "h_data m = NULL"
    | (buf) "h_data c \<noteq> NULL" "h_data m \<noteq> NULL" "h_data buf = NULL"
    | (ok) "h_data c \<noteq> NULL" "h_data m \<noteq> NULL" "h_data buf \<noteq> NULL" by blast
  then show thesis
  proof cases
    case c
    then have "word_freq tb files fname s = Inl (Exit_failure (''Error creating counts array'' @ NL))"
      by (simp add: run)
    then show thesis by (rule that(1)) (simp add: out_of_memory_def)
  next
    case m
    then have "word_freq tb files fname s = Inl (Exit_failure (''Error creating map'' @ NL))"
      by (simp add: run map_is_valid_def)
    then show thesis by (rule that(1)) (simp add: out_of_memory_def)
  next
    case buf
    obtain eh where eh: "map_ok MEM_ALLOCATOR_PLAIN m (empty_map eh) (replicate 32 zero_entry) s2"
      using mp buf(2) by (auto simp: created_def)
    have "map_is_valid tb m s2 = Inr (True, s2)" by (rule plain.map_is_valid_exec [OF map_okD(1) [OF eh]])
    then have "word_freq tb files fname s = Inl (Exit_failure (''Error creating strbuf'' @ NL))"
      using buf by (simp add: run strbuf_is_valid_def)
    then show thesis by (rule that(1)) (simp add: out_of_memory_def)
  next
    case ok
    obtain b where b: "strbuf_at buf b (replicate 100 (Some 0)) s3" "sb_length b = 0"
        "heap s2 (pbase (h_data buf)) = None" "heap s2 (data_base b) = None"
        "\<forall>a. a \<notin> {pbase (h_data buf), data_base b} \<longrightarrow> heap s3 a = heap s2 a"
      using sp ok(3) by auto
    note S = start_reading [OF alp ok(1) mp [OF ok(2)] b]
    have "word_freq tb files fname s = cbind (read_loop tb \<lparr>counts = c, words_seen = 0, mymap = m\<rparr> buf input) (\<lambda>g.
        cbind (last_line tb g buf) (print_frequencies tb)) s3"
      using ok(1) al mc sc S(2,3) inp
      by (intro word_freq_unfold) (simp_all add: counts_bytes mem_is_valid_def)
    then show thesis using S(1) that(2) by (auto simp: started_def)
  qed
qed

lemma word_freq_settles:
  assumes tb: "blocks_answered.ops_stable tb" and inp: "files fname = Some input" and plain: "plain_text input"
    and nz: "0 \<notin> word_hash ` set (split_words input)" and few: "card (word_hash ` set (split_words input)) \<le> 16"
  shows "settles out_of_memory (word_freq tb files fname) s (\<lambda>out t.
    out = table_of (tallies (foldl tally [] (map word_hash (split_words input)))))"
proof (rule word_freq_start_settles [where files = files, OF inp, of tb s])
  fix e assume "word_freq tb files fname s = Inl e" "out_of_memory e"
  then show ?thesis by (simp add: settles_def)
next
  fix g eh buf t
  let ?cnt = "foldl tally [] (map word_hash (split_words input))"
  assume run: "word_freq tb files fname s = cbind (read_loop tb g buf input) (\<lambda>g.
      cbind (last_line tb g buf) (print_frequencies tb)) t" and r: "reading g eh [] buf [] t"
  have able: "countable [] (split_words ([] @ input))"
    using nz few by (simp add: countable_def length_tally_keys image_image)
  have "settles out_of_memory (read_loop tb g buf input) t (loop_post g eh [] buf ([] @ input) 0)"
    using read_loop_settles [OF tb r _ able] plain by simp
  then have "settles out_of_memory (cbind (read_loop tb g buf input) (\<lambda>g.
      cbind (last_line tb g buf) (print_frequencies tb))) t (\<lambda>out t. out = table_of (tallies ?cnt))"
    unfolding settles_cbind
  proof (rule settles_conseq)
    fix g1 t1 assume "loop_post g eh [] buf ([] @ input) 0 g1 t1"
    then have "runs (cbind (last_line tb g1 buf) (print_frequencies tb)) t1 (\<lambda>out t. out = table_of (tallies ?cnt))"
      by (rule report_after_loop [OF _ able plain])
    then show "settles out_of_memory (last_line tb g1 buf) t1 (\<lambda>g t.
        settles out_of_memory (print_frequencies tb g) t (\<lambda>out t. out = table_of (tallies ?cnt)))"
      unfolding settles_cbind [symmetric] by (rule runs_settles)
  qed
  then show ?thesis by (simp add: settles_def run)
qed

text \<open>
  C2. Whatever the system allocator answers, the program does not fault on an ASCII file of fewer
  than 2^32 characters with at most sixteen different words (none with the hash 0 or the hash of
  another one): it prints the right report, or it exits with the message for the allocation that
  failed (the counter array, the map, the string buffer or a growth of the buffer).
\<close>

theorem m65tool_any_allocator:
  assumes "files fname = Some input" and "plain_text input"
    and "0 \<notin> word_hash ` set (split_words input)" and "inj_on word_hash (set (split_words input))"
    and "card (set (split_words input)) \<le> 16"
  shows "settles out_of_memory (m65tool_main (memtbl_ops d) files [prog_name, fname]) s
    (\<lambda>out t. out = word_report (split_words input))"
proof -
  have "card (word_hash ` set (split_words input)) \<le> 16" using assms(4,5) by (simp add: card_image)
  from word_freq_settles [where files = files, OF _ assms(1-3) this, of "memtbl_ops d"] show ?thesis
    by (simp add: m65tool_main_def table_of_tallies [OF assms(4)])
qed

text \<open>An allocator that refuses the growth of the buffer: the fifth call and all later ones fail.\<close>

definition long_word :: "byte list" where
  "long_word = replicate 101 97"

definition refusing_start :: cstate where
  "refusing_start = fresh_start\<lparr>answers := (\<lambda>i. if i < 5 then of_nat (4096 * (i + 1)) else 0)\<rparr>"

lemma long_word_facts: "split_words long_word = [long_word]" "word_hash long_word \<noteq> 0"
  "length long_word = 101 \<and> list_all (\<lambda>c. c < 128) long_word"
  by code_simp+

theorem m65tool_any_allocator_witness:
  "settles out_of_memory (m65tool_main (memtbl_ops 1) [''words.txt'' \<mapsto> long_word] [''m65tool'', ''words.txt''])
     refusing_start (\<lambda>out t. out = word_report [long_word])"
  unfolding long_word_facts(1) [symmetric]
  by (rule m65tool_any_allocator)
    (use long_word_facts in \<open>simp_all add: plain_text_def list_all_iff\<close>)

end
