(* ===== verification/Getopt_Test.thy ===== *)
theory Getopt_Test
  imports Ds_Store
begin

text \<open>
  The function getopt_test of m65tool.c, which prints what getopt_long makes of a command line.
  getopt_long is not part of the repository: the results of its calls, in order and without the
  final -1, and the value it leaves in optind are arguments of the model. What it does to the
  flag variable of an option (it stores val there and returns 0) is its documented behaviour.
  The variable option_index is not initialised; a call that recognises a long option stores its
  index there (\<open>longindex\<close>), the others leave it as it is.
\<close>

record long_option =
  lo_name :: "string option"
  has_arg :: bool
  has_flag :: bool
  lo_val :: int

definition long_options :: "long_option list" where
  "long_options =
     [\<lparr>lo_name = Some ''verbose'', has_arg = False, has_flag = True, lo_val = 1\<rparr>,
      \<lparr>lo_name = Some ''brief'', has_arg = False, has_flag = True, lo_val = 0\<rparr>,
      \<lparr>lo_name = Some ''create'', has_arg = True, has_flag = False, lo_val = 99\<rparr>,
      \<lparr>lo_name = None, has_arg = False, has_flag = False, lo_val = 0\<rparr>]"

record getopt_result =
  opt :: int
  longindex :: "nat option"
  optarg :: "string option"
  optopt :: int

datatype farg = S string | D int
datatype outline = Out_puts string | Out_printf string "farg list"

text \<open>The argument of a %s conversion: a null pointer is undefined behaviour.\<close>

definition s_arg :: "string option \<Rightarrow> c_error + string" where
  "s_arg p = (case p of None \<Rightarrow> Inl Null_deref | Some s \<Rightarrow> Inr s)"

definition with_arg :: "string \<Rightarrow> string option \<Rightarrow> c_error + outline list" where
  "with_arg fmt p = (case s_arg p of Inl e \<Rightarrow> Inl e | Inr s \<Rightarrow> Inr [Out_printf fmt [S s]])"

text \<open>
  One round of the switch: the flag variable and what is printed. \<open>option_index\<close> is None as long as
  nothing was stored in the variable: reading it then is undefined.
\<close>

definition opt_case :: "getopt_result \<Rightarrow> nat option \<Rightarrow> int \<Rightarrow> c_error + int \<times> outline list" where
  "opt_case r option_index verbose =
     (let prints = map_sum id (\<lambda>out. (verbose, out))
      in if opt r = 0 then
           (case option_index of
              None \<Rightarrow> Inl Uninitialised
            | Some i \<Rightarrow>
                if length long_options \<le> i then Inl Out_of_bounds
                else
                  let lo = long_options ! i
                  in if has_flag lo then Inr (lo_val lo, [])
                     else prints (case s_arg (lo_name lo) of
                       Inl e \<Rightarrow> Inl e
                     | Inr nm \<Rightarrow> Inr (Out_printf ''option %s'' [S nm] #
                         (case optarg r of None \<Rightarrow> [] | Some a \<Rightarrow> [Out_printf '' with arg %s'' [S a]]) @
                         [Out_printf [CHR 0x0A] []])))
         else if opt r = 1 then prints (with_arg (''non-option arg amidst options: %s'' @ [CHR 0x0A]) (optarg r))
         else if opt r = 105 then prints (Inr [Out_puts ''option i''])
         else if opt r = 108 then prints (Inr [Out_puts ''option l''])
         else if opt r = 119 then prints (with_arg (''option w = %s'' @ [CHR 0x0A]) (optarg r))
         else if opt r = 99 then prints (with_arg (''long option create = %s'' @ [CHR 0x0A]) (optarg r))
         else if opt r = 63 then
           prints (case option_index of
             None \<Rightarrow> Inl Uninitialised
           | Some i \<Rightarrow> (case s_arg (optarg r) of
               Inl e \<Rightarrow> Inl e
             | Inr a \<Rightarrow> Inr [Out_puts ''(getopt_long printed an error message)'',
                 Out_printf (''opt=%d option_index=%d optopt=%d optarg=%s'' @ [CHR 0x0A])
                   [D (opt r), D (int i), D (optopt r), S a]]))
         else Inl (Exit_failure ''Usage: %s [-ilw] [file...]''))"

fun opt_loop :: "getopt_result list \<Rightarrow> nat option \<Rightarrow> int \<Rightarrow> c_error + int \<times> outline list" where
  "opt_loop [] option_index verbose = Inr (verbose, [])"
| "opt_loop (r # rs) option_index verbose =
     (let option_index = (case longindex r of None \<Rightarrow> option_index | Some i \<Rightarrow> Some i)
      in case opt_case r option_index verbose of
        Inl e \<Rightarrow> Inl e
      | Inr (verbose, out) \<Rightarrow> map_sum id (apsnd (\<lambda>out'. out @ out')) (opt_loop rs option_index verbose))"

definition getopt_test ::
  "string list \<Rightarrow> getopt_result list \<Rightarrow> nat \<Rightarrow> int \<Rightarrow> c_error + int \<times> outline list" where
  "getopt_test argv results optind verbose_flag =
     (case opt_loop results None verbose_flag of
        Inl e \<Rightarrow> Inl e
      | Inr (verbose_flag, out) \<Rightarrow>
          Inr (verbose_flag, (if length argv \<le> 1 then [Out_puts ''no options or args''] else []) @ out @
            Out_printf (''verbose_flag = %d'' @ [CHR 0x0A]) [D verbose_flag] #
            map (\<lambda>i. Out_printf (''arg at %d : %s'' @ [CHR 0x0A]) [D (int i), S (argv ! i)])
              [optind..<length argv]))"

section \<open>What getopt_long documents\<close>

text \<open>
  The results that the manual of getopt_long allows for the option string "-ilw:" and the table
  \<open>long_options\<close>: a long option by its index, with the result 0 if it has a flag variable and its
  val otherwise; a short option; an argument that is not an option, as the result 1; and '?' for what
  it rejects. optarg points to an argument exactly for the options that take one (and for a result
  of 1), and is a null pointer otherwise.
\<close>

definition documented :: "getopt_result \<Rightarrow> bool" where
  "documented r \<longleftrightarrow>
     opt r = 63 \<and> optarg r = None \<or>
     (case longindex r of
        Some i \<Rightarrow> i < 3 \<and> opt r = (if has_flag (long_options ! i) then 0 else lo_val (long_options ! i)) \<and>
          (optarg r \<noteq> None \<longleftrightarrow> has_arg (long_options ! i))
      | None \<Rightarrow> opt r \<in> {105, 108} \<and> optarg r = None \<or> opt r \<in> {1, 119} \<and> optarg r \<noteq> None)"

text \<open>What the function is to print for a result, and the flag it is to have at the end.\<close>

definition shown :: "getopt_result \<Rightarrow> outline list" where
  "shown r = (if opt r = 0 then [] else
     case optarg r of
       None \<Rightarrow> [Out_puts (if opt r = 105 then ''option i'' else ''option l'')]
     | Some a \<Rightarrow> [Out_printf ((if opt r = 1 then ''non-option arg amidst options: %s''
         else if opt r = 119 then ''option w = %s'' else ''long option create = %s'') @ [CHR 0x0A]) [S a]])"

definition final_flag :: "int \<Rightarrow> getopt_result list \<Rightarrow> int" where
  "final_flag flag rs =
     (let fs = filter (\<lambda>r. opt r = 0) rs
      in if fs = [] then flag else if longindex (last fs) = Some 0 then 1 else 0)"

lemma final_flag_Cons:
  "final_flag flag (r # rs) =
     final_flag (if opt r \<noteq> 0 then flag else if longindex r = Some 0 then 1 else 0) rs"
  by (simp add: final_flag_def Let_def)

lemma long_options_nth:
  "long_options ! 0 = \<lparr>lo_name = Some ''verbose'', has_arg = False, has_flag = True, lo_val = 1\<rparr>"
  "long_options ! 1 = \<lparr>lo_name = Some ''brief'', has_arg = False, has_flag = True, lo_val = 0\<rparr>"
  "long_options ! 2 = \<lparr>lo_name = Some ''create'', has_arg = True, has_flag = False, lo_val = 99\<rparr>"
  "length long_options = 4"
  by (simp_all add: long_options_def numeral_2_eq_2)

lemma documentedE:
  assumes "documented r" and "opt r \<noteq> 63"
  obtains i where "longindex r = Some i" "i = 0 \<or> i = 1" "opt r = 0" "optarg r = None"
  | a where "longindex r = Some 2" "opt r = 99" "optarg r = Some a"
  | "longindex r = None" "opt r = 105 \<or> opt r = 108" "optarg r = None"
  | a where "longindex r = None" "opt r = 1 \<or> opt r = 119" "optarg r = Some a"
proof (cases "longindex r")
  case None
  then show ?thesis using assms that by (auto simp: documented_def)
next
  case (Some i)
  then have "i < 3" using assms by (simp add: documented_def)
  then have "i = 0 \<or> i = 1 \<or> i = 2" by linarith
  then show ?thesis using assms Some that by (auto simp: documented_def long_options_nth simp del: One_nat_def)
qed

lemma opt_case_documented:
  assumes "documented r" and "opt r \<noteq> 63" and "longindex r \<noteq> None \<Longrightarrow> index = longindex r"
  shows "opt_case r index v = Inr (if opt r \<noteq> 0 then v else if longindex r = Some 0 then 1 else 0, shown r)"
  using assms(1,2)
  by (rule documentedE)
    (use assms(3) in \<open>auto simp: opt_case_def shown_def with_arg_def s_arg_def long_options_nth simp del: One_nat_def\<close>)

lemma opt_loop_documented:
  "list_all documented rs \<Longrightarrow> \<forall>r \<in> set rs. opt r \<noteq> 63 \<Longrightarrow>
   opt_loop rs index v = Inr (final_flag v rs, concat (map shown rs))"
proof (induction rs arbitrary: index v)
  case Nil
  then show ?case by (simp add: final_flag_def)
next
  case (Cons r rs)
  then show ?case
    by (simp add: opt_case_documented final_flag_Cons split: option.splits)
qed

lemma rejected_without_arg:
  assumes "documented r" and "opt r = 63"
  shows "optarg r = None"
proof (cases "longindex r")
  case (Some i)
  have "i < 3 \<Longrightarrow> i = 0 \<or> i = 1 \<or> i = 2" by linarith
  then show ?thesis using assms Some by (auto simp: documented_def long_options_nth simp del: One_nat_def)
qed (use assms in \<open>auto simp: documented_def\<close>)

lemma opt_loop_rejected:
  "list_all documented rs \<Longrightarrow> \<forall>r \<in> set rs. opt r \<noteq> 63 \<Longrightarrow> documented r \<Longrightarrow> opt r = 63 \<Longrightarrow>
   opt_loop (rs @ r # rs') index v =
     Inl (if index = None \<and> (\<forall>q \<in> set (rs @ [r]). longindex q = None) then Uninitialised else Null_deref)"
proof (induction rs arbitrary: index v)
  case Nil
  then have "optarg r = None" by (intro rejected_without_arg)
  then show ?case
    using Nil by (auto simp: opt_case_def s_arg_def split: option.splits)
next
  case (Cons q rs)
  then show ?case
    by (auto simp: opt_case_documented split: option.splits)
qed

lemma args_from:
  "map (\<lambda>i. f i (xs ! i)) [n..<length xs] = map (\<lambda>(i, a). f i a) (enumerate n (drop n xs))"
  by (rule nth_equalityI) (simp_all add: nth_enumerate_eq)

text \<open>
  C40. On results that getopt_long documents, getopt_test never reaches its usage message or the
  branch that prints the name of a long option. If nothing is rejected it prints, in this order, the
  remark about an empty command line, one line for each option and each argument among them (none for
  the options that set the flag), the flag, which the last --verbose or --brief decides, and the
  arguments from optind on with their positions. The first rejected option makes it use
  option_index, which is uninitialised unless a long option came before, and otherwise print the null
  pointer optarg as a string.
\<close>

theorem getopt_test_reports:
  assumes "list_all documented rs" and "\<forall>r \<in> set rs. opt r \<noteq> 63"
  shows "getopt_test argv rs optind flag = Inr (final_flag flag rs,
      (if length argv \<le> 1 then [Out_puts ''no options or args''] else []) @ concat (map shown rs) @
      Out_printf (''verbose_flag = %d'' @ [CHR 0x0A]) [D (final_flag flag rs)] #
      map (\<lambda>(i, a). Out_printf (''arg at %d : %s'' @ [CHR 0x0A]) [D (int i), S a]) (enumerate optind (drop optind argv)))
    \<and> (documented r \<and> opt r = 63 \<longrightarrow> getopt_test argv (rs @ r # rs') optind flag =
      Inl (if \<forall>q \<in> set (rs @ [r]). longindex q = None then Uninitialised else Null_deref))"
  using opt_loop_rejected [OF assms, of r rs' None flag]
    args_from [of "\<lambda>i a. Out_printf (''arg at %d : %s'' @ [CHR 0x0A]) [D (int i), S a]" argv optind]
  by (simp_all add: getopt_test_def opt_loop_documented [OF assms])

text \<open>The results for -w x --verbose --create y -- z, and the one for the unknown option -q.\<close>

definition sample_results :: "getopt_result list" where
  "sample_results =
     [\<lparr>opt = 119, longindex = None, optarg = Some ''x'', optopt = 0\<rparr>,
      \<lparr>opt = 0, longindex = Some 0, optarg = None, optopt = 0\<rparr>,
      \<lparr>opt = 99, longindex = Some 2, optarg = Some ''y'', optopt = 0\<rparr>]"

definition sample_rejected :: getopt_result where
  "sample_rejected = \<lparr>opt = 63, longindex = None, optarg = None, optopt = 113\<rparr>"

theorem getopt_test_reports_witness:
  "getopt_test [''m65tool'', ''-w'', ''x'', ''--verbose'', ''--create'', ''y'', ''--'', ''z''] sample_results 7 0 =
     Inr (1, [Out_printf (''option w = %s'' @ [CHR 0x0A]) [S ''x''],
       Out_printf (''long option create = %s'' @ [CHR 0x0A]) [S ''y''],
       Out_printf (''verbose_flag = %d'' @ [CHR 0x0A]) [D 1], Out_printf (''arg at %d : %s'' @ [CHR 0x0A]) [D 7, S ''z'']]) \<and>
   getopt_test [''m65tool''] (sample_results @ sample_rejected # []) 7 0 = Inl Null_deref"
proof -
  have "list_all documented sample_results" "\<forall>r \<in> set sample_results. opt r \<noteq> 63"
    by (simp_all add: sample_results_def documented_def long_options_nth)
  note run = getopt_test_reports [OF this, where r = sample_rejected and rs' = "[]" and optind = 7 and flag = 0]
  have "documented sample_rejected" "opt sample_rejected = 63"
    by (simp_all add: sample_rejected_def documented_def)
  moreover have "final_flag 0 sample_results = 1" "\<not> (\<forall>q \<in> set (sample_results @ [sample_rejected]). longindex q = None)"
    "concat (map shown sample_results) = [Out_printf (''option w = %s'' @ [CHR 0x0A]) [S ''x''],
       Out_printf (''long option create = %s'' @ [CHR 0x0A]) [S ''y'']]"
    by (simp_all add: sample_results_def final_flag_def shown_def Let_def)
  ultimately show ?thesis
    using run [of "[''m65tool'']"] run [of "[''m65tool'', ''-w'', ''x'', ''--verbose'', ''--create'', ''y'', ''--'', ''z'']"]
    by (simp only: simp_thms if_False) (simp add: numeral_eq_Suc)
qed

end
