(* ===== verification/Spec2Isabelle.thy ===== *)
theory Spec2Isabelle
  imports Ds_Sigint Ds_Memtbl_Session Ds_Memtbl_Faults Ds_Str_Props Ds_Split_Props Ds_Strbuf_Faults
    Word_Any Getopt_Test
begin

text \<open>
  A verification library of m65tool: the data structure library under src/src/datastruct and the
  program src/src/m65tool/m65tool.c.

  The program and its parts. mem.c gives out memory handles (\<open>mem_handle\<close>: address, size,
  allocator) and dispatches on the allocator of a handle; there are the plain allocator (malloc
  under a guard that ignores SIGINT), a static one that owns nothing, and memory tables. map.c is
  a hash table with open addressing that stores handles under str or pointer keys. memtbl.c is an
  allocator that records what it gave out in a map, so that it can free it all at once; mem.c,
  map.c and memtbl.c call each other. str.c has string references and growing string buffers on top
  of mem.c. m65tool.c counts the words of a file with a string buffer, str_split_whitespace_pop
  and a map; getopt_test prints what getopt_long returns.

  The machine. \<open>Ds_Prelude\<close> has the state and error monad (\<open>ret\<close>, \<open>raise\<close>, \<open>cbind\<close>), total
  correctness \<open>runs\<close>, \<open>settles\<close> (it returns, or stops with one of the errors that are named), partial
  correctness \<open>sure\<close> and \<open>evolves R\<close> (all results are related to the start by R). \<open>Ds_Store\<close> has the state: a heap
  of blocks with typed content, the SIGINT handler, the answers of the system allocator (one
  address per call, 0 for a refusal: an argument of every theorem), a trace of allocator calls.
  A load or store that C leaves undefined is an error value: \<open>Dangling\<close>, \<open>Out_of_bounds\<close>,
  \<open>Null_deref\<close>, \<open>Uninitialised\<close>, \<open>Type_confusion\<close>, \<open>Bad_free\<close>, \<open>Int_overflow\<close>, a failed assertion, and
  also exit with a message. unsigned int and size_t are words of 32 and 64 bits, char is a word of 8 bits
  that is read as signed where the code does.

  The models, one definition per function of the source:
  \<open>Ds_Mem\<close> mem.c, with the allocator functions of memory tables as the argument \<open>tb\<close>;
  \<open>Ds_Map\<close> map.c and the type-generic map_set, map_get and map_delete of map.h (\<open>map_key\<close>: the key
  with the type that selects the function); \<open>Ds_Memtbl\<close> memtbl.c, where \<open>memtbl_ops d\<close> closes the recursion for tables nested at
  most \<open>d\<close> deep; \<open>Ds_Str\<close> and \<open>Ds_Strbuf\<close> str.c, where what vsnprintf writes is an argument;
  \<open>Word_Freq\<close> and \<open>Getopt_Test\<close> m65tool.c, where the files, the results of getopt_long and the
  final value of optind are arguments and what is printed is the result; \<open>documented\<close> (\<open>Getopt_Test\<close>)
  says which results the manual of getopt_long allows.

  The interfaces. \<open>transparent_handles\<close> and \<open>owning_allocator\<close> (\<open>Ds_Mem\<close>) are what a client may
  assume of an allocator; the plain allocator (\<open>plain\<close>) and the static one (\<open>unowned\<close>) are their
  instances, and the map and buffer lemmas are proved from them. \<open>handle_store\<close>
  (\<open>Ds_Memtbl_Proofs\<close>) is what a memory table needs of its map: \<open>fits\<close> says which addresses may be
  stored together, and storing, looking up, deleting and iterating act on the set of recorded
  blocks. It has two instances, both on the map of map.c: a map filled once, with its destruction
  (\<open>Ds_Memtbl_Runs\<close>), and \<open>home_table\<close> (\<open>Ds_Memtbl_Session\<close>), where every entry stays in its home
  slot so that any sequence of calls is allowed.
  \<open>stable_relation\<close> (\<open>Ds_Supply\<close>) lifts a relation that the C primitives respect to the whole
  library; its instance says where new blocks come from.

  The lemmas. Map: \<open>Ds_Probe\<close> is the reference, probing in a list (\<open>probe\<close>, \<open>lookup\<close>, \<open>chained\<close>: every
  entry can be reached; \<open>at_home\<close>: every entry is where its hash points); \<open>Ds_Map_Proofs\<close> relates the
  loops to it; \<open>Ds_Map_Spec\<close> has the invariant \<open>map_ok\<close> and the refinement of the partial function
  from hashes to values; \<open>Ds_Map_Props\<close> the properties, including what goes wrong when the map grows,
  when a displaced entry is deleted and when a hash is 0; \<open>Ds_Hash\<close> and \<open>Ds_Key_Props\<close> the hashes
  (FNV-1a on ASCII) and str keys; \<open>Ds_Map_Session\<close> a client that sets, gets and deletes keys of both
  types; \<open>Ds_Iter\<close> iteration. Memory: \<open>Ds_Mem_Props\<close> and \<open>Ds_Sigint\<close> (allocator calls are made with
  SIGINT ignored, and the handler is restored); \<open>Ds_Memtbl_Runs\<close>, \<open>Ds_Memtbl_Destroy\<close> and
  \<open>Ds_Memtbl_Props\<close> the life of a table; \<open>Ds_Memtbl_Session\<close> a client that allocates, reallocates and
  frees through a table and then destroys it; \<open>Ds_Memtbl_Faults\<close> a reallocation to size 0. Strings:
  \<open>Ds_Chars\<close>, \<open>Ds_Str_Proofs\<close>, \<open>Ds_Str_Props\<close> (searching, comparing, copying, one step of splitting,
  against list functions), \<open>Ds_Split\<close> and \<open>Ds_Split_Props\<close> (the loops that str.h tells its readers to
  write around the splitting functions), \<open>Ds_Strbuf_Proofs\<close>, \<open>Ds_Strbuf_Session\<close> and
  \<open>Ds_Strbuf_Props\<close> (appending, growing, a client of a buffer against a list of characters, copying
  a buffer) and \<open>Ds_Strbuf_Faults\<close> (size 0, appending a buffer to itself, a vsnprintf that fails). The
  program: \<open>Ds_Supply\<close> and \<open>Ds_Success\<close> (where new blocks come from, allocations that succeed),
  \<open>Word_Rank\<close> (ranking is insertion into a sorted list), \<open>Word_Count\<close> (the globals stand for a list of
  hashes with numbers), \<open>Word_Lines\<close>, \<open>Word_Read\<close> and \<open>Word_Report\<close> (a line, the file, the iteration
  over the map), \<open>Word_Program\<close> and \<open>Word_Freq_Props\<close>: on at most sixteen different words the report
  is right, on more the program uses freed memory; \<open>Word_Any\<close>: whatever the allocator answers, the
  program prints that report or one of its out of memory messages.

  Fuel and bounds. Loops that end by a counter are functions with a measure. find_entry_pos runs
  with one round per slot; iteration over a map with one round per slot and one more
  (\<open>iteration_bound\<close>); the scan of whitespace with one per character and one more; process_line with
  two more than the characters of the line, because every round takes at least one; the growth loop
  of a buffer with 66 rounds, because the size doubles. The documented splitting loops are a client's
  code and take the number of rounds as an argument: the theorems say how many are enough, and for
  an empty delimiter that no number is. The theorems about these operations prove
  that they return, so that the fuel is enough under their hypotheses. The word count is proved for
  ASCII text of fewer than 2^32 characters.

  Not modelled. Every function, type, macro and table of mem, map, memtbl, str and m65tool.c has its
  definition, so that there is no program code left to add. The umbrella header, the build files and scripts and the unit tests have no program
  logic. Of the C library only the documented behaviour that the code uses is in the model; stdio
  beyond the printed output and getopt_long are not. isspace of a negative char is an error, since C
  leaves it undefined. Overlapping memory of two typed objects is not modelled: a block has one
  content at a time. Two threads or a signal handler that runs between two steps are not modelled.
\<close>

end
